(* ===== verification/Prelude.thy ===== *)
theory Prelude
  imports Main "HOL-Library.Word"
begin

text \<open>
  Shared vocabulary of the development: the result type of a kernel operation and its
  sequencing, C's unsigned arithmetic on \<open>nat\<close> with the wrap-around written out, little-endian
  byte strings, and the list lemmas several components use.
\<close>

section \<open>Machine integers\<close>

type_synonym byte = "8 word"
type_synonym u64 = "64 word"

text \<open>A C \<open>uint\<close> (32 bits) and a \<open>uint64_t\<close> are natural numbers below the
  modulus; every operation of the source that may wrap is written with these functions.\<close>

definition w32 :: "nat \<Rightarrow> nat" where
  "w32 x = x mod 4294967296"

definition sub32 :: "nat \<Rightarrow> nat \<Rightarrow> nat" where
  "sub32 a b = (if b \<le> a then a - b else a + 4294967296 - b)"

definition w64 :: "nat \<Rightarrow> nat" where
  "w64 x = x mod 18446744073709551616"

definition sub64 :: "nat \<Rightarrow> nat \<Rightarrow> nat" where
  "sub64 a b = (if b \<le> a then a - b else a + 18446744073709551616 - b)"

text \<open>Conversion of an unsigned 32-bit value to \<open>int\<close>.\<close>

definition s32 :: "nat \<Rightarrow> int" where
  "s32 x = (if w32 x < 2147483648 then int (w32 x) else int (w32 x) - 4294967296)"

text \<open>A C \<open>int\<close> as an \<open>int\<close> in its 32-bit range.\<close>

definition i32 :: "int \<Rightarrow> int" where
  "i32 x = (if x mod 4294967296 < 2147483648 then x mod 4294967296
            else x mod 4294967296 - 4294967296)"

lemma i32_id [simp]: "- 2147483648 \<le> x \<Longrightarrow> x < 2147483648 \<Longrightarrow> i32 x = x"
proof (cases "0 \<le> x")
  case False
  assume x: "- 2147483648 \<le> x" "x < 2147483648"
  with False have "x mod 4294967296 = x + 4294967296"
    by (subst mod_add_self2 [symmetric]) (rule mod_pos_pos_trivial; simp)
  with False x show ?thesis by (simp add: i32_def)
qed (simp add: i32_def)

lemma w32_less [simp]: "w32 x < 4294967296"
  by (simp add: w32_def)

lemma w32_id [simp]: "x < 4294967296 \<Longrightarrow> w32 x = x"
  by (simp add: w32_def)

lemma w64_less [simp]: "w64 x < 18446744073709551616"
  by (simp add: w64_def)

lemma w64_id [simp]: "x < 18446744073709551616 \<Longrightarrow> w64 x = x"
  by (simp add: w64_def)

lemma sub32_le [simp]: "b \<le> a \<Longrightarrow> sub32 a b = a - b"
  by (simp add: sub32_def)

lemma sub64_le [simp]: "b \<le> a \<Longrightarrow> sub64 a b = a - b"
  by (simp add: sub64_def)

lemma w32_w32 [simp]: "w32 (w32 x) = w32 x"
  by (simp add: w32_def)

lemma w32_add_left [simp]: "w32 (w32 x + y) = w32 (x + y)"
  by (simp only: w32_def mod_add_left_eq)

lemma w32_add_cancel:
  assumes "w32 (a + m) = w32 (a + n)" "m < 4294967296" "n < 4294967296"
  shows "m = n"
proof -
  have le: "x = y" if "w32 (a + x) = w32 (a + y)" "x \<le> y" "y < 4294967296" for x y
  proof -
    have "4294967296 dvd (a + y) - (a + x)"
      using that(1,2) mod_eq_dvd_iff_nat [of "a + x" "a + y" 4294967296] by (simp add: w32_def)
    then have "4294967296 dvd y - x" by simp
    moreover have "y - x < 4294967296" using that(3) by linarith
    ultimately have "y - x = 0" using dvd_imp_le [of 4294967296 "y - x"] by linarith
    with that(2) show ?thesis by simp
  qed
  show ?thesis using le [of m n] le [of n m] assms by (cases "m \<le> n") auto
qed

lemma sub32_w32_add:
  assumes "a < 4294967296" "n < 4294967296"
  shows "sub32 (w32 (a + n)) a = n"
proof (cases "a + n < 4294967296")
  case False
  define d where "d = a + n - 4294967296"
  have "a + n = d + 4294967296" using False by (simp add: d_def)
  then have "w32 (a + n) = w32 d" by (simp add: w32_def)
  also have "\<dots> = d" using assms False by (simp add: d_def)
  finally show ?thesis using assms False by (simp add: sub32_def d_def)
qed simp

lemma sub32_1_w32:
  assumes "0 < x"
  shows "sub32 (w32 x) 1 = w32 (x - 1)"
proof -
  obtain y where x: "x = Suc y" using assms by (cases x) auto
  have "w32 (Suc y) = (if w32 y = 4294967295 then 0 else Suc (w32 y))"
    using mod_Suc [of y 4294967296] by (simp add: w32_def)
  then show ?thesis by (simp add: x sub32_def)
qed

lemma w32_Suc_w32 [simp]: "w32 (Suc (w32 x)) = w32 (Suc x)"
  using w32_add_left [of x 1] by simp

lemma sub32_Suc_w32 [simp]: "sub32 (w32 (Suc x)) (Suc 0) = w32 x"
  using sub32_1_w32 [of "Suc x"] by simp

lemma sub32_less: "a < 4294967296 \<Longrightarrow> sub32 a b < 4294967296"
  by (auto simp: sub32_def)

lemma sub64_less: "a < 18446744073709551616 \<Longrightarrow> sub64 a b < 18446744073709551616"
  by (auto simp: sub64_def)


section \<open>Outcomes of kernel code\<close>

text \<open>
  A kernel operation runs to completion (\<open>Ok\<close>, with its value and the new state), calls
  \<open>panic\<close>, performs an access the C language gives no meaning to (a null pointer, an index
  outside an array), gives up the processor inside \<open>sleep\<close> (\<open>Sleeps\<close>, with the state at the
  context switch), or resets the machine (\<open>Reboots\<close>, with the state whose disk survives). A loop that has used up its fuel is \<open>OutOfFuel\<close>.
\<close>

datatype ('s, 'a) res =
    Ok 'a 's
  | Panic string
  | Undef string
  | Sleeps 's
  | Reboots 's
  | OutOfFuel

fun bnd :: "('s, 'a) res \<Rightarrow> ('a \<Rightarrow> 's \<Rightarrow> ('s, 'b) res) \<Rightarrow> ('s, 'b) res" where
  "bnd (Ok a s) f = f a s"
| "bnd (Panic m) f = Panic m"
| "bnd (Undef m) f = Undef m"
| "bnd (Sleeps s) f = Sleeps s"
| "bnd (Reboots s) f = Reboots s"
| "bnd OutOfFuel f = OutOfFuel"

named_theorems res_iff

lemma bnd_cong [fundef_cong]:
  "m = m' \<Longrightarrow> (\<And>a s. m' = Ok a s \<Longrightarrow> f a s = f' a s) \<Longrightarrow> bnd m f = bnd m' f'"
  by (cases m') auto

lemma bnd_Ok_iff [res_iff]:
  "bnd m f = Ok b t \<longleftrightarrow> (\<exists>a s. m = Ok a s \<and> f a s = Ok b t)"
  by (cases m) auto

lemma bnd_OkE:
  assumes "bnd m f = Ok b t"
  obtains a s where "m = Ok a s" and "f a s = Ok b t"
  using assms by (cases m) auto

lemma bnd_Ok_right [simp]: "bnd m Ok = m"
  by (cases m) auto

lemma bnd_assoc: "bnd (bnd m f) g = bnd m (\<lambda>a s. bnd (f a s) g)"
  by (cases m) auto

lemma if_Ok_iff [res_iff]:
  "(if b then Panic m else f) = Ok a s \<longleftrightarrow> \<not> b \<and> f = Ok a s"
  "(if b then Undef m else f) = Ok a s \<longleftrightarrow> \<not> b \<and> f = Ok a s"
  by auto


section \<open>Byte strings\<close>

text \<open>Little-endian layout of an unsigned integer in \<open>n\<close> bytes.\<close>

fun le_bytes :: "nat \<Rightarrow> nat \<Rightarrow> byte list" where
  "le_bytes 0 x = []"
| "le_bytes (Suc n) x = word_of_nat (x mod 256) # le_bytes n (x div 256)"

fun le_nat :: "byte list \<Rightarrow> nat" where
  "le_nat [] = 0"
| "le_nat (b # bs) = unat b + 256 * le_nat bs"

lemma length_le_bytes [simp]: "length (le_bytes n x) = n"
  by (induction n arbitrary: x) auto

lemma unat_word_of_nat_byte [simp]: "unat (word_of_nat (x mod 256) :: byte) = x mod 256"
  by (simp add: unat_of_nat)

lemma le_nat_le_bytes: "le_nat (le_bytes n x) = x mod 256 ^ n"
proof (induction n arbitrary: x)
  case 0
  then show ?case by simp
next
  case (Suc n)
  have "x mod 256 + 256 * (x div 256 mod 256 ^ n) = x mod (256 * 256 ^ n)"
    by (simp add: mod_mult2_eq)
  with Suc show ?case by simp
qed

lemma unat_byte_less [simp]: "unat (b :: byte) < 256"
  using unsigned_less [of b] by simp

lemma le_nat_less: "le_nat bs < 256 ^ length bs"
proof (induction bs)
  case Nil
  then show ?case by simp
next
  case (Cons b bs)
  have b: "unat b < 256" by simp
  define q :: nat where "q = 256 ^ length bs"
  from Cons have "le_nat bs < q" by (simp add: q_def)
  with b have "unat b + 256 * le_nat bs < 256 * q" by linarith
  then show ?case by (simp add: q_def)
qed

lemma le_bytes_le_nat: "le_bytes (length bs) (le_nat bs) = bs"
proof (induction bs)
  case Nil
  then show ?case by simp
next
  case (Cons b bs)
  have less: "unat b < 256" by simp
  then have "(unat b + 256 * le_nat bs) mod 256 = unat b" by simp
  moreover from less have "(unat b + 256 * le_nat bs) div 256 = le_nat bs" by simp
  ultimately show ?case using Cons by simp
qed


section \<open>Lists\<close>

text \<open>Overwriting a slice: \<open>memmove\<close> into the middle of an array.\<close>

definition overwrite :: "'a list \<Rightarrow> nat \<Rightarrow> 'a list \<Rightarrow> 'a list" where
  "overwrite xs i ys = take i xs @ ys @ drop (i + length ys) xs"

definition slice :: "nat \<Rightarrow> nat \<Rightarrow> 'a list \<Rightarrow> 'a list" where
  "slice i n xs = take n (drop i xs)"

lemma length_overwrite [simp]:
  "i + length ys \<le> length xs \<Longrightarrow> length (overwrite xs i ys) = length xs"
  by (simp add: overwrite_def)

lemma length_slice [simp]: "i + n \<le> length xs \<Longrightarrow> length (slice i n xs) = n"
  by (simp add: slice_def)

lemma slice_overwrite_same:
  "i + length ys \<le> length xs \<Longrightarrow> slice i (length ys) (overwrite xs i ys) = ys"
  by (simp add: slice_def overwrite_def)

lemma nth_overwrite:
  assumes "i + length ys \<le> length xs" and "k < length xs"
  shows "overwrite xs i ys ! k = (if i \<le> k \<and> k < i + length ys then ys ! (k - i) else xs ! k)"
  using assms by (auto simp: overwrite_def nth_append)

lemma overwrite_slice_id: "i + n \<le> length xs \<Longrightarrow> overwrite xs i (slice i n xs) = xs"
  by (rule nth_equalityI) (auto simp: nth_overwrite slice_def)

text \<open>The first index of an array that satisfies a test: the scan loops of the kernel's
  tables (\<open>for (p = tab; p < &tab[N]; p++) if (test) goto found;\<close>).\<close>

fun find_index :: "('a \<Rightarrow> bool) \<Rightarrow> 'a list \<Rightarrow> nat option" where
  "find_index P [] = None"
| "find_index P (x # xs) = (if P x then Some 0 else map_option Suc (find_index P xs))"

lemma find_index_Some:
  "find_index P xs = Some i \<Longrightarrow> i < length xs \<and> P (xs ! i) \<and> (\<forall>j < i. \<not> P (xs ! j))"
proof (induction xs arbitrary: i)
  case Nil
  then show ?case by simp
next
  case (Cons x xs)
  show ?case
  proof (cases "P x")
    case True
    with Cons.prems show ?thesis by simp
  next
    case False
    with Cons.prems obtain i' where i': "find_index P xs = Some i'" "i = Suc i'" by auto
    from Cons.IH [OF i'(1)] False i'(2) show ?thesis
      by (auto simp: nth_Cons split: nat.splits)
  qed
qed

lemma find_index_None: "find_index P xs = None \<longleftrightarrow> (\<forall>x \<in> set xs. \<not> P x)"
  by (induction xs) auto

lemma find_index_lessD: "find_index P xs = Some i \<Longrightarrow> i < length xs"
  by (simp add: find_index_Some)

lemma find_index_holdsD: "find_index P xs = Some i \<Longrightarrow> P (xs ! i)"
  by (simp add: find_index_Some)

lemma find_index_first:
  assumes "i < length xs" "P (xs ! i)" "\<And>j. j < i \<Longrightarrow> \<not> P (xs ! j)"
  shows "find_index P xs = Some i"
proof -
  from assms(1,2) have "find_index P xs \<noteq> None"
    by (auto simp: find_index_None)
  then obtain j where j: "find_index P xs = Some j" by blast
  from find_index_Some [OF j] assms have "\<not> i < j" "\<not> j < i" by auto
  with j show ?thesis by simp
qed

text \<open>Counting the elements of an array that satisfy a test, under one update.\<close>

definition count_if :: "('a \<Rightarrow> bool) \<Rightarrow> 'a list \<Rightarrow> nat" where
  "count_if P xs = length (filter P xs)"

lemma count_if_Nil [simp]: "count_if P [] = 0"
  by (simp add: count_if_def)

lemma count_if_Cons [simp]: "count_if P (x # xs) = (if P x then 1 else 0) + count_if P xs"
  by (simp add: count_if_def)

lemma count_if_update:
  "i < length xs \<Longrightarrow>
   int (count_if P (xs[i := y])) =
     int (count_if P xs) - (if P (xs ! i) then 1 else 0) + (if P y then 1 else 0)"
proof (induction xs arbitrary: i)
  case Nil
  then show ?case by simp
next
  case (Cons x xs)
  show ?case
  proof (cases i)
    case 0
    then show ?thesis by simp
  next
    case (Suc j)
    with Cons.prems Cons.IH [of j] show ?thesis by simp
  qed
qed

lemma count_if_le: "count_if P xs \<le> length xs"
  by (simp add: count_if_def)

lemma count_if_pos: "0 < count_if P xs \<longleftrightarrow> (\<exists>x \<in> set xs. P x)"
  by (auto simp: count_if_def filter_empty_conv)

end
