(* ===== verification/Kernel_State.thy ===== *)
theory Kernel_State
  imports Prelude
begin

text \<open>
  The data of the kernel: the structs of \<open>inc/\<close> as records, the limits of \<open>inc/param.h\<close> and
  \<open>inc/fs.h\<close>, and one record \<open>kernel\<close> with the global variables of the files under \<open>kernel/\<close>.
  A pointer into a statically allocated table (\<open>icache.inode\<close>, \<open>bcache.buf\<close>, \<open>ptable.proc\<close>,
  \<open>ftable\<close>) is the index of the entry; a pointer to physical memory is its address.
\<close>

section \<open>Limits\<close>

abbreviation (input) NPROC :: nat where "NPROC \<equiv> 64"
abbreviation (input) NOFILE :: nat where "NOFILE \<equiv> 16"
abbreviation (input) NFILE :: nat where "NFILE \<equiv> 100"
abbreviation (input) NINODE :: nat where "NINODE \<equiv> 50"
abbreviation (input) NDEV :: int where "NDEV \<equiv> 10"
abbreviation (input) ROOTDEV :: nat where "ROOTDEV \<equiv> 1"
abbreviation (input) NBUF :: nat where "NBUF \<equiv> 30"
abbreviation (input) FSSIZE :: nat where "FSSIZE \<equiv> 100000"
abbreviation (input) BSIZE :: nat where "BSIZE \<equiv> 512"
abbreviation (input) EXTENT_N :: nat where "EXTENT_N \<equiv> 7"
abbreviation (input) DIRSIZ :: nat where "DIRSIZ \<equiv> 14"
abbreviation (input) INODEFILEINO :: nat where "INODEFILEINO \<equiv> 0"
abbreviation (input) ROOTINO :: nat where "ROOTINO \<equiv> 1"
abbreviation (input) T_DIR :: int where "T_DIR \<equiv> 1"
abbreviation (input) T_FILE :: int where "T_FILE \<equiv> 2"
abbreviation (input) T_DEV :: int where "T_DEV \<equiv> 3"
abbreviation (input) PGSIZE :: nat where "PGSIZE \<equiv> 4096"
abbreviation (input) NREGIONS :: nat where "NREGIONS \<equiv> 3"
abbreviation (input) PIPESIZE :: int where "PIPESIZE \<equiv> 2048"
abbreviation (input) KERNBASE :: nat where "KERNBASE \<equiv> 18446744071562067968"
abbreviation (input) SZ_2G :: nat where "SZ_2G \<equiv> 2147483648"

section \<open>Locks, channels, pointers\<close>

text \<open>A pointer to an in-memory inode: \<open>&icache.inodefile\<close> or \<open>&icache.inode[i]\<close>.\<close>

datatype iptr = Inodefile | Icache nat

text \<open>The sleep locks of the kernel: one per in-memory inode and one per buffer.\<close>

datatype slid = SlInode iptr | SlBuf nat

text \<open>The spin locks, by the variable that holds them. \<open>SleepLk\<close> is the spin lock inside a
  sleep lock.\<close>

datatype lockid =
    KmemLock | PtableLock | IcacheLock | BcacheLock | FtableLock | PipeLock nat
  | TicksLock | ConsLock | IdeLock | SleepLk slid

text \<open>What a process may sleep on: the addresses the code passes to \<open>sleep\<close> and \<open>wakeup\<close>.\<close>

datatype chan =
    ChNull | ChProc nat | ChSleeplock slid | ChPipeRead nat | ChPipeWrite nat
  | ChTicks | ChInput | ChBuf nat

section \<open>Structs\<close>

record sleeplock =
  sl_locked :: bool
  sl_pid :: int

record core_map_entry =
  available :: nat
  user :: nat
  cm_va :: nat
  ref_count :: int

record extent =
  startblkno :: nat
  nblocks :: nat

record superblock =
  sb_size :: nat
  sb_nblocks :: nat
  bmapstart :: nat
  inodestart :: nat

record dinode =
  di_type :: int
  di_devid :: int
  di_size :: nat
  di_data :: "extent list"

record dirent =
  de_inum :: nat
  de_name :: "byte list"

record inode =
  i_dev :: nat
  i_inum :: nat
  i_ref :: int
  i_valid :: bool
  i_lock :: sleeplock
  i_type :: int
  i_devid :: int
  i_size :: nat
  i_data :: "extent list"

record stat =
  st_type :: int
  st_dev :: nat
  st_ino :: nat
  st_size :: nat

text \<open>\<open>flags\<close> of a buffer is kept as its two bits, \<open>B_VALID\<close> and \<open>B_DIRTY\<close>. The
  \<open>prev\<close>/\<open>next\<close> links are the list \<open>bcache_lru\<close> of the kernel.\<close>

record buf =
  b_valid :: bool
  b_dirty :: bool
  b_dev :: nat
  b_blockno :: nat
  b_lock :: sleeplock
  b_refcnt :: nat
  b_data :: "byte list"

record pipe =
  read_fd :: int
  write_fd :: int
  p_head :: int
  p_tail :: int
  p_full :: bool
  p_empty :: bool
  p_buf :: "byte list"

record file_info =
  f_ref :: int
  f_iptr :: "iptr option"
  f_offset :: int
  f_prev_offset :: int
  access_permission :: int
  f_path :: nat
  isPipe :: bool
  pipe_buffer :: pipe

record vpage_info =
  used :: bool
  ppn :: nat
  present :: bool
  writable :: bool
  cow_page :: bool

datatype vr_direction = VRDIR_UP | VRDIR_DOWN

record vregion =
  vr_dir :: vr_direction
  va_base :: nat
  vr_size :: nat
  vr_pages :: nat

record vspace =
  regions :: "vregion list"
  pgtbl :: nat

record trap_frame =
  rax :: nat
  rbx :: nat
  rcx :: nat
  rdx :: nat
  rbp :: nat
  rsi :: nat
  rdi :: nat
  r8 :: nat
  r9 :: nat
  r10 :: nat
  r11 :: nat
  r12 :: nat
  r13 :: nat
  r14 :: nat
  r15 :: nat
  trapno :: nat
  tf_err :: nat
  rip :: nat
  tf_cs :: nat
  rflags :: nat
  rsp :: nat
  tf_ss :: nat

datatype procstate = UNUSED | EMBRYO | SLEEPING | RUNNABLE | RUNNING | ZOMBIE

text \<open>\<open>parent\<close> is an index into the process table, \<open>pftable\<close> a table of indices into
  \<open>ftable\<close>; \<open>p_context\<close> is the saved \<open>rip\<close> of the kernel context (the other saved registers are
  zero until the first context switch).\<close>

record proc =
  p_vspace :: vspace
  kstack :: nat
  p_state :: procstate
  pid :: int
  parent :: "nat option"
  p_tf :: trap_frame
  p_context :: nat
  pftable :: "nat option list"
  p_chan :: chan
  killed :: bool
  p_name :: "byte list"

text \<open>The contents of a physical page. A page holds what it was last initialised as: bytes, a
  page table of 512 entries, or a page of the region descriptors of \<open>inc/vspace.h\<close> (169
  \<open>vpage_info\<close> entries and the address of the next such page).\<close>

datatype page =
    Bytes "byte list"
  | Table "u64 list"
  | VpiPage "vpage_info list" nat

section \<open>The kernel's global variables\<close>

text \<open>\<open>held\<close> is the set of spin locks the (only) processor holds, see \<open>Spinlock\<close>;
  \<open>k_end\<close>, \<open>k_data\<close>, \<open>k_forkret\<close>, \<open>k_trapret\<close> are addresses the linker chooses.\<close>

record kernel =
  held :: "lockid set"
  k_end :: nat
  k_data :: nat
  k_forkret :: nat
  k_trapret :: nat
  \<comment> \<open>kalloc.c\<close>
  npages :: nat
  pages_in_use :: int
  pages_in_swap :: int
  free_pages :: int
  core_map :: "core_map_entry list"
  use_lock :: bool
  rand_next :: nat
  phys :: "nat \<Rightarrow> page"
  \<comment> \<open>x86_64vm.c, vspace.c\<close>
  kpml4 :: nat
  cr3 :: nat
  rsp0 :: nat
  \<comment> \<open>proc.c\<close>
  ptable :: "proc list"
  nextpid :: int
  initproc :: "nat option"
  curproc :: "nat option"
  \<comment> \<open>trap.c\<close>
  ticks :: nat
  num_page_faults :: int
  \<comment> \<open>bio.c, memide.c\<close>
  crashn_enable :: bool
  crashn :: int
  num_disk_reads :: int
  bcache_buf :: "buf list"
  bcache_lru :: "nat list"
  memdisk :: "nat \<Rightarrow> byte list"
  disksize :: nat
  \<comment> \<open>fs.c\<close>
  sb :: superblock
  icache_inode :: "inode list"
  icache_inodefile :: inode
  \<comment> \<open>file.c\<close>
  ftable :: "file_info list"
  g_offset :: int
  \<comment> \<open>console.c\<close>
  in_buf :: "byte list"
  in_r :: nat
  in_w :: nat
  in_e :: nat
  cons_locking :: bool
  uart :: bool
  cons_out :: "byte list"
  crt :: "nat list"
  crt_pos :: nat

end
