(* ===== verification/Sample.thy ===== *)
theory Sample
  imports Kernel_State
begin

text \<open>
  A small concrete kernel state. The component theories apply their results to it (or to a
  variation of it): eight pages of memory of which four are free, one running process with open
  descriptors left to the variation, an empty buffer cache over a disk of 64 zero blocks, and an
  empty inode cache and file table.
\<close>

definition free_sl :: sleeplock where
  "free_sl = \<lparr>sl_locked = False, sl_pid = 0\<rparr>"

definition no_extent :: extent where
  "no_extent = \<lparr>startblkno = 0, nblocks = 0\<rparr>"

definition buf0 :: buf where
  "buf0 = \<lparr>b_valid = False, b_dirty = False, b_dev = 0, b_blockno = 0, b_lock = free_sl,
     b_refcnt = 0, b_data = replicate 512 0\<rparr>"

definition inode0 :: inode where
  "inode0 = \<lparr>i_dev = 0, i_inum = 0, i_ref = 0, i_valid = False, i_lock = free_sl, i_type = 0,
     i_devid = 0, i_size = 0, i_data = replicate 7 no_extent\<rparr>"

definition pipe0 :: pipe where
  "pipe0 = \<lparr>read_fd = 0, write_fd = 0, p_head = 0, p_tail = 0, p_full = False, p_empty = False,
     p_buf = replicate 2048 0\<rparr>"

definition file0 :: file_info where
  "file0 = \<lparr>f_ref = 0, f_iptr = None, f_offset = 0, f_prev_offset = 0, access_permission = 0,
     f_path = 0, isPipe = False, pipe_buffer = pipe0\<rparr>"

definition tf0 :: trap_frame where
  "tf0 = \<lparr>rax = 0, rbx = 0, rcx = 0, rdx = 0, rbp = 0, rsi = 0, rdi = 0, r8 = 0, r9 = 0, r10 = 0,
     r11 = 0, r12 = 0, r13 = 0, r14 = 0, r15 = 0, trapno = 0, tf_err = 0, rip = 0, tf_cs = 0,
     rflags = 0, rsp = 0, tf_ss = 0\<rparr>"

definition region0 :: vregion where
  "region0 = \<lparr>vr_dir = VRDIR_UP, va_base = 0, vr_size = 0, vr_pages = 0\<rparr>"

definition proc0 :: proc where
  "proc0 = \<lparr>p_vspace = \<lparr>regions = replicate 3 region0, pgtbl = 0\<rparr>, kstack = 0, p_state = UNUSED,
     pid = 0, parent = None, p_tf = tf0, p_context = 0, pftable = replicate 16 None,
     p_chan = ChNull, killed = False, p_name = []\<rparr>"

definition cme :: "bool \<Rightarrow> core_map_entry" where
  "cme free = \<lparr>available = (if free then 1 else 0), user = 0, cm_va = 0,
     ref_count = (if free then 0 else 1)\<rparr>"

definition sb0 :: superblock where
  "sb0 = \<lparr>sb_size = 64, sb_nblocks = 54, bmapstart = 2, inodestart = 4\<rparr>"

definition k0 :: kernel where
  "k0 = \<lparr>held = {}, k_end = 0, k_data = 0, k_forkret = 0, k_trapret = 0,
     npages = 8, pages_in_use = 4, pages_in_swap = 0, free_pages = 4,
     core_map = replicate 4 (cme False) @ replicate 4 (cme True), use_lock = True, rand_next = 1,
     phys = (\<lambda>_. Bytes []), kpml4 = 0, cr3 = 0, rsp0 = 0,
     ptable = proc0\<lparr>p_state := RUNNING, pid := 1, kstack := 4096\<rparr> # replicate 63 proc0, nextpid = 2,
     initproc = Some 0, curproc = Some 0, ticks = 0, num_page_faults = 0,
     crashn_enable = False, crashn = 0, num_disk_reads = 0,
     bcache_buf = replicate 30 buf0, bcache_lru = [0 ..< 30], memdisk = (\<lambda>_. replicate 512 0),
     disksize = 64, sb = sb0, icache_inode = replicate 50 inode0, icache_inodefile = inode0,
     ftable = replicate 100 file0, g_offset = 0, in_buf = replicate 128 0, in_r = 0, in_w = 0,
     in_e = 0, cons_locking = True, uart = True, cons_out = [], crt = replicate 2000 0, crt_pos = 0\<rparr>"

end
