(* ===== verification/Spinlock.thy ===== *)
theory Spinlock
  imports Sample
begin

text \<open>
  \<open>kernel/spinlock.c\<close>: spin locks and the nesting of interrupt masking, at the level of the
  lock words and of the processor's interrupt flag (\<open>smp\<close>), and the view the rest of the
  development takes of them: the set of locks the processor holds. The locale \<open>mutex\<close> is the
  contract both views satisfy. The kernel runs on one processor (\<open>mycpu\<close> returns \<open>&cpus[0]\<close>).
\<close>

section \<open>Locks and the processor\<close>

record spinlock =
  lk_locked :: nat
  lk_name :: string
  lk_cpu :: "nat option"
  lk_pcs :: "nat list"

record cpu =
  ncli :: int
  intena :: bool
  fl_if :: bool

record smp =
  s_cpu :: cpu
  s_lock :: "lockid \<Rightarrow> spinlock"

definition initlock :: "spinlock \<Rightarrow> string \<Rightarrow> spinlock" where
  "initlock lk nm = lk\<lparr>lk_name := nm, lk_locked := 0, lk_cpu := None\<rparr>"

text \<open>The saved program counters: the chain of frames from \<open>%rbp\<close>, in a stack given by the
  words at each address. The second loop fills the rest of the array with zeros.\<close>

fun pcs_from :: "nat \<Rightarrow> (nat \<Rightarrow> nat) \<Rightarrow> nat \<Rightarrow> nat list" where
  "pcs_from 0 mem rb = []"
| "pcs_from (Suc n) mem rb =
     (if rb = 0 \<or> rb < KERNBASE \<or> rb = 18446744073709551615 then []
      else mem (w64 (rb + 8)) # pcs_from n mem (mem rb))"

definition getcallerpcs :: "(nat \<Rightarrow> nat) \<Rightarrow> nat \<Rightarrow> nat list" where
  "getcallerpcs mem rb =
     (let ps = pcs_from 10 mem rb in ps @ replicate (10 - length ps) 0)"

definition pushcli :: "smp \<Rightarrow> smp" where
  "pushcli s =
     (let eflags = fl_if (s_cpu s); c = (s_cpu s)\<lparr>fl_if := False\<rparr>;
          c = (if ncli c = 0 then c\<lparr>intena := eflags\<rparr> else c)
      in s\<lparr>s_cpu := c\<lparr>ncli := ncli c + 1\<rparr>\<rparr>)"

definition popcli :: "smp \<Rightarrow> (smp, unit) res" where
  "popcli s =
     (if fl_if (s_cpu s) then Panic ''popcli - interruptible''
      else (let c = (s_cpu s)\<lparr>ncli := ncli (s_cpu s) - 1\<rparr>
            in if ncli c < 0 then Panic ''popcli''
               else if ncli c = 0 \<and> intena c then Ok () (s\<lparr>s_cpu := c\<lparr>fl_if := True\<rparr>\<rparr>)
               else Ok () (s\<lparr>s_cpu := c\<rparr>)))"

definition sp_holding :: "lockid \<Rightarrow> smp \<Rightarrow> bool" where
  "sp_holding l s \<longleftrightarrow> lk_locked (s_lock s l) \<noteq> 0 \<and> lk_cpu (s_lock s l) = Some 0"

text \<open>\<open>while (xchg(&lk->locked, 1) != 0);\<close> for at most \<open>fuel\<close> exchanges.\<close>

fun spin :: "nat \<Rightarrow> spinlock \<Rightarrow> spinlock option" where
  "spin 0 lk = None"
| "spin (Suc fuel) lk =
     (if lk_locked lk = 0 then Some (lk\<lparr>lk_locked := 1\<rparr>)
      else spin fuel (lk\<lparr>lk_locked := 1\<rparr>))"

definition sp_acquire :: "nat \<Rightarrow> (nat \<Rightarrow> nat) \<Rightarrow> nat \<Rightarrow> lockid \<Rightarrow> smp \<Rightarrow> (smp, unit) res" where
  "sp_acquire fuel mem rb l s =
     (let s = pushcli s
      in if sp_holding l s then Panic ''acquire''
         else case spin fuel (s_lock s l) of
           None \<Rightarrow> OutOfFuel
         | Some lk \<Rightarrow>
             Ok () (s\<lparr>s_lock := (s_lock s)(l := lk\<lparr>lk_cpu := Some 0,
                                                lk_pcs := getcallerpcs mem rb\<rparr>)\<rparr>))"

definition sp_release :: "lockid \<Rightarrow> smp \<Rightarrow> (smp, unit) res" where
  "sp_release l s =
     (if \<not> sp_holding l s then Panic ''release''
      else (let lk = s_lock s l;
                lk = lk\<lparr>lk_pcs := (lk_pcs lk)[0 := 0], lk_cpu := None, lk_locked := 0\<rparr>
            in popcli (s\<lparr>s_lock := (s_lock s)(l := lk)\<rparr>)))"

section \<open>The kernel's view: the set of held locks\<close>

definition holding :: "lockid \<Rightarrow> kernel \<Rightarrow> bool" where
  "holding l k \<longleftrightarrow> l \<in> held k"

definition acquire :: "lockid \<Rightarrow> kernel \<Rightarrow> (kernel, unit) res" where
  "acquire l k =
     (if holding l k then Panic ''acquire'' else Ok () (k\<lparr>held := insert l (held k)\<rparr>))"

definition release :: "lockid \<Rightarrow> kernel \<Rightarrow> (kernel, unit) res" where
  "release l k =
     (if \<not> holding l k then Panic ''release'' else Ok () (k\<lparr>held := held k - {l}\<rparr>))"

lemma acquire_free [simp]: "l \<notin> held k \<Longrightarrow> acquire l k = Ok () (k\<lparr>held := insert l (held k)\<rparr>)"
  by (simp add: acquire_def holding_def)

lemma release_held [simp]: "l \<in> held k \<Longrightarrow> release l k = Ok () (k\<lparr>held := held k - {l}\<rparr>)"
  by (simp add: release_def holding_def)

lemma acquire_Ok_iff [res_iff]:
  "acquire l k = Ok u k' \<longleftrightarrow> l \<notin> held k \<and> k' = k\<lparr>held := insert l (held k)\<rparr>"
  by (auto simp: acquire_def holding_def)

lemma release_Ok_iff [res_iff]:
  "release l k = Ok u k' \<longleftrightarrow> l \<in> held k \<and> k' = k\<lparr>held := held k - {l}\<rparr>"
  by (auto simp: release_def holding_def)

lemma held_same [simp]: "held k = h \<Longrightarrow> k\<lparr>held := h\<rparr> = k"
  by (rule kernel.equality) simp_all

section \<open>The contract of a mutual exclusion lock\<close>

locale mutex =
  fixes acq :: "'l \<Rightarrow> 's \<Rightarrow> ('s, unit) res"
    and rel :: "'l \<Rightarrow> 's \<Rightarrow> ('s, unit) res"
    and locks :: "'s \<Rightarrow> 'l set"
    and inv :: "'s \<Rightarrow> bool"
  assumes acq_free: "inv s \<Longrightarrow> l \<notin> locks s \<Longrightarrow>
      \<exists>s'. acq l s = Ok () s' \<and> inv s' \<and> locks s' = insert l (locks s)"
    and acq_held: "inv s \<Longrightarrow> l \<in> locks s \<Longrightarrow> acq l s = Panic ''acquire''"
    and rel_held: "inv s \<Longrightarrow> l \<in> locks s \<Longrightarrow>
      \<exists>s'. rel l s = Ok () s' \<and> inv s' \<and> locks s' = locks s - {l}"
    and rel_free: "inv s \<Longrightarrow> l \<notin> locks s \<Longrightarrow> rel l s = Panic ''release''"
begin

primrec acq_all :: "'l list \<Rightarrow> 's \<Rightarrow> ('s, unit) res" where
  "acq_all [] s = Ok () s"
| "acq_all (l # ls) s = bnd (acq l s) (\<lambda>_ s. acq_all ls s)"

primrec rel_all :: "'l list \<Rightarrow> 's \<Rightarrow> ('s, unit) res" where
  "rel_all [] s = Ok () s"
| "rel_all (l # ls) s = bnd (rel l s) (\<lambda>_ s. rel_all ls s)"

lemma acq_all_free:
  "inv s \<Longrightarrow> distinct ls \<Longrightarrow> set ls \<inter> locks s = {} \<Longrightarrow>
     \<exists>s'. acq_all ls s = Ok () s' \<and> inv s' \<and> locks s' = set ls \<union> locks s"
proof (induction ls arbitrary: s)
  case Nil
  then show ?case by simp
next
  case (Cons l ls)
  from Cons.prems obtain s1 where s1: "acq l s = Ok () s1" "inv s1" "locks s1 = insert l (locks s)"
    using acq_free [of s l] by auto
  with Cons.prems have "distinct ls" "set ls \<inter> locks s1 = {}" by auto
  with Cons.IH [OF s1(2)] s1 show ?case by auto
qed

lemma rel_all_held:
  "inv s \<Longrightarrow> distinct ls \<Longrightarrow> set ls \<subseteq> locks s \<Longrightarrow>
     \<exists>s'. rel_all ls s = Ok () s' \<and> inv s' \<and> locks s' = locks s - set ls"
proof (induction ls arbitrary: s)
  case Nil
  then show ?case by simp
next
  case (Cons l ls)
  from Cons.prems obtain s1 where s1: "rel l s = Ok () s1" "inv s1" "locks s1 = locks s - {l}"
    using rel_held [of s l] by auto
  with Cons.prems have "distinct ls" "set ls \<subseteq> locks s1" by auto
  with Cons.IH [OF s1(2)] s1 show ?case by auto
qed

text \<open>Critical sections nest in any order: taking distinct free locks and giving them back,
  in whatever order, ends with the locks held before.\<close>

lemma nested_sections:
  assumes "inv s" "distinct ls" "set ls \<inter> locks s = {}" "distinct ls'" "set ls' = set ls"
  shows "\<exists>s'. bnd (acq_all ls s) (\<lambda>_ t. rel_all ls' t) = Ok () s' \<and> inv s' \<and> locks s' = locks s"
proof -
  from acq_all_free [OF assms(1-3)] obtain t
    where t: "acq_all ls s = Ok () t" "inv t" "locks t = set ls \<union> locks s" by blast
  from rel_all_held [OF t(2) assms(4)] assms(5) t(3) obtain s'
    where "rel_all ls' t = Ok () s'" "inv s'" "locks s' = locks t - set ls" by auto
  with t assms(3) show ?thesis by auto
qed

lemma self_deadlock_panics:
  assumes "inv s" "l \<notin> locks s"
  shows "bnd (acq l s) (\<lambda>_ t. acq l t) = Panic ''acquire''"
proof -
  from acq_free [OF assms] obtain t where "acq l s = Ok () t" "inv t" "l \<in> locks t" by auto
  then show ?thesis by (simp add: acq_held)
qed

end

interpretation kheld: mutex acquire release held "\<lambda>_. True"
  by unfold_locales (auto simp: acquire_def release_def holding_def)

section \<open>The lock words implement the contract\<close>

definition held_of :: "smp \<Rightarrow> lockid set" where
  "held_of s = {l. lk_locked (s_lock s l) \<noteq> 0}"

text \<open>A taken lock belongs to the processor, interrupts are masked while a lock is held, and
  the nesting depth is the number of locks held.\<close>

definition smp_inv :: "smp \<Rightarrow> bool" where
  "smp_inv s \<longleftrightarrow>
     (\<forall>l. lk_locked (s_lock s l) \<noteq> 0 \<longrightarrow> lk_cpu (s_lock s l) = Some 0) \<and>
     finite (held_of s) \<and> ncli (s_cpu s) = int (card (held_of s)) \<and>
     (ncli (s_cpu s) > 0 \<longrightarrow> \<not> fl_if (s_cpu s))"

lemma smp_inv_holding: "smp_inv s \<Longrightarrow> sp_holding l s \<longleftrightarrow> l \<in> held_of s"
  by (auto simp: smp_inv_def sp_holding_def held_of_def)

lemma sp_holding_pushcli [simp]: "sp_holding l (pushcli s) = sp_holding l s"
  by (simp add: sp_holding_def pushcli_def Let_def)

lemma s_lock_pushcli [simp]: "s_lock (pushcli s) = s_lock s"
  by (simp add: pushcli_def Let_def)

lemma held_of_pushcli [simp]: "held_of (pushcli s) = held_of s"
  by (simp add: held_of_def)

lemma pushcli_cpu [simp]:
  "ncli (s_cpu (pushcli s)) = ncli (s_cpu s) + 1"
  "\<not> fl_if (s_cpu (pushcli s))"
  "intena (s_cpu (pushcli s)) =
     (if ncli (s_cpu s) = 0 then fl_if (s_cpu s) else intena (s_cpu s))"
  by (simp_all add: pushcli_def Let_def)

lemma spin_free: "lk_locked lk = 0 \<Longrightarrow> 0 < fuel \<Longrightarrow> spin fuel lk = Some (lk\<lparr>lk_locked := 1\<rparr>)"
  by (cases fuel) auto

lemma sp_acquire_spec:
  assumes inv: "smp_inv s" and free: "l \<notin> held_of s" and fuel: "0 < fuel"
  shows "\<exists>s'. sp_acquire fuel mem rb l s = Ok () s' \<and> smp_inv s' \<and>
           held_of s' = insert l (held_of s) \<and>
           intena (s_cpu s') = (if held_of s = {} then fl_if (s_cpu s) else intena (s_cpu s))"
proof -
  from free have l0: "lk_locked (s_lock s l) = 0" by (simp add: held_of_def)
  define t where "t = (pushcli s)\<lparr>s_lock := (s_lock s)(l := (s_lock s l)\<lparr>lk_locked := 1,
      lk_cpu := Some 0, lk_pcs := getcallerpcs mem rb\<rparr>)\<rparr>"
  have eq: "sp_acquire fuel mem rb l s = Ok () t"
    using l0 fuel by (simp add: sp_acquire_def Let_def sp_holding_def spin_free t_def)
  have held: "held_of t = insert l (held_of s)"
    by (auto simp: held_of_def t_def)
  have fin: "finite (held_of s)" and card: "ncli (s_cpu s) = int (card (held_of s))"
    using inv by (auto simp: smp_inv_def)
  have "smp_inv t"
    using inv free fin card unfolding smp_inv_def held
    by (auto simp: t_def)
  moreover have "ncli (s_cpu s) = 0 \<longleftrightarrow> held_of s = {}"
    using fin card by simp
  then have "intena (s_cpu t) = (if held_of s = {} then fl_if (s_cpu s) else intena (s_cpu s))"
    by (simp add: t_def)
  ultimately show ?thesis using eq held by blast
qed

lemma sp_release_spec:
  assumes inv: "smp_inv s" and hold: "l \<in> held_of s"
  shows "\<exists>s'. sp_release l s = Ok () s' \<and> smp_inv s' \<and> held_of s' = held_of s - {l} \<and>
           fl_if (s_cpu s') = (held_of s = {l} \<and> intena (s_cpu s)) \<and>
           intena (s_cpu s') = intena (s_cpu s)"
proof -
  have fin: "finite (held_of s)" and card: "ncli (s_cpu s) = int (card (held_of s))"
    using inv by (auto simp: smp_inv_def)
  from hold fin have pos: "0 < card (held_of s)" by (auto simp: card_gt_0_iff)
  with card inv have off: "\<not> fl_if (s_cpu s)" by (simp add: smp_inv_def)
  have cd: "card (held_of s - {l}) = card (held_of s) - 1" using hold fin by simp
  have one: "card (held_of s) = 1 \<longleftrightarrow> held_of s = {l}"
    using hold by (auto simp: card_1_singleton_iff)
  define s1 where "s1 = s\<lparr>s_lock := (s_lock s)(l := (s_lock s l)\<lparr>lk_pcs := (lk_pcs (s_lock s l))[0 := 0],
      lk_cpu := None, lk_locked := 0\<rparr>)\<rparr>"
  define t where "t = s1\<lparr>s_cpu := (s_cpu s)\<lparr>ncli := ncli (s_cpu s) - 1,
      fl_if := (ncli (s_cpu s) = 1 \<and> intena (s_cpu s))\<rparr>\<rparr>"
  have "sp_release l s = popcli s1"
    using smp_inv_holding [OF inv] hold by (simp add: sp_release_def Let_def s1_def)
  also have "popcli s1 = Ok () t"
    using off card pos by (auto simp: popcli_def Let_def s1_def t_def)
  finally have eq: "sp_release l s = Ok () t" .
  have held: "held_of t = held_of s - {l}"
    by (auto simp: held_of_def t_def s1_def)
  have "smp_inv t"
    using inv fin card pos cd unfolding smp_inv_def held
    by (auto simp: t_def s1_def of_nat_diff)
  moreover have "ncli (s_cpu s) = 1 \<longleftrightarrow> held_of s = {l}" using card one by auto
  then have "fl_if (s_cpu t) = (held_of s = {l} \<and> intena (s_cpu s))" by (simp add: t_def)
  ultimately show ?thesis using eq held by (auto simp: t_def)
qed

interpretation slock: mutex "sp_acquire 1 mem rb" sp_release held_of smp_inv for mem rb
proof unfold_locales
  fix s l assume "smp_inv s" "l \<notin> held_of s"
  then show "\<exists>s'. sp_acquire 1 mem rb l s = Ok () s' \<and> smp_inv s' \<and>
      held_of s' = insert l (held_of s)"
    using sp_acquire_spec [of s l 1 mem rb] by auto
next
  fix s l assume "smp_inv s" "l \<in> held_of s"
  then show "sp_acquire 1 mem rb l s = Panic ''acquire''"
    by (simp add: sp_acquire_def Let_def smp_inv_holding)
next
  fix s l assume "smp_inv s" "l \<in> held_of s"
  then show "\<exists>s'. sp_release l s = Ok () s' \<and> smp_inv s' \<and> held_of s' = held_of s - {l}"
    using sp_release_spec [of s l] by auto
next
  fix s l assume "smp_inv s" "l \<notin> held_of s"
  then show "sp_release l s = Panic ''release''"
    by (simp add: sp_release_def smp_inv_holding)
qed

section \<open>Properties\<close>

definition smp0 :: smp where
  "smp0 = \<lparr>s_cpu = \<lparr>ncli = 0, intena = False, fl_if = True\<rparr>,
     s_lock = (\<lambda>_. \<lparr>lk_locked = 0, lk_name = ''lock'', lk_cpu = None, lk_pcs = replicate 10 0\<rparr>)\<rparr>"

lemma smp0_inv: "smp_inv smp0" "held_of smp0 = {}"
  by (simp_all add: smp_inv_def held_of_def smp0_def)



text \<open>C24: The set of held locks is a faithful view of the lock words: started from related states,
  \<open>acquire\<close> and \<open>release\<close> on the lock words and on the set succeed together and lead to related
  states, or panic together with the same message.\<close>

theorem lock_words_refine_held:
  assumes "smp_inv s" "held_of s = held k"
  shows "((\<exists>s' k'. sp_acquire 1 mem rb l s = Ok () s' \<and> acquire l k = Ok () k' \<and> smp_inv s' \<and>
             held_of s' = held k') \<or>
          sp_acquire 1 mem rb l s = Panic ''acquire'' \<and> acquire l k = Panic ''acquire'') \<and>
         ((\<exists>s' k'. sp_release l s = Ok () s' \<and> release l k = Ok () k' \<and> smp_inv s' \<and>
             held_of s' = held k') \<or>
          sp_release l s = Panic ''release'' \<and> release l k = Panic ''release'')"
  using slock.acq_free [OF assms(1), of l mem rb] slock.acq_held [OF assms(1), of l mem rb]
    slock.rel_free [OF assms(1), of l] slock.rel_held [OF assms(1), of l] assms(2)
  by (cases "l \<in> held k") (auto simp: acquire_def release_def holding_def)

theorem lock_words_refine_held_witness:
  "\<exists>s' k'. sp_acquire 1 (\<lambda>_. 0) 0 IdeLock smp0 = Ok () s' \<and> acquire IdeLock k0 = Ok () k' \<and>
     smp_inv s' \<and> held_of s' = held k'"
  using lock_words_refine_held [OF smp0_inv(1), of k0 "\<lambda>_. 0" 0 IdeLock]
  by (simp add: smp0_inv k0_def acquire_def holding_def)

end
