(* ===== verification/Kalloc.thy ===== *)
theory Kalloc
  imports Spinlock
begin

text \<open>
  \<open>kernel/kalloc.c\<close>: the allocator of physical pages. The core map has one entry per page
  with a reference count, which copy-on-write \<open>fork\<close> shares pages through; \<open>kfree\<close> gives up
  one reference and returns the page to the pool with the last one.
\<close>

section \<open>Addresses\<close>

definition V2P :: "nat \<Rightarrow> nat" where
  "V2P a = sub64 a KERNBASE"

definition P2V :: "nat \<Rightarrow> nat" where
  "P2V a = w64 (a + KERNBASE)"

definition PGNUM :: "nat \<Rightarrow> nat" where
  "PGNUM la = la div 4096"

definition PGROUNDUP :: "nat \<Rightarrow> nat" where
  "PGROUNDUP sz = w64 (sz + 4095) div 4096 * 4096"

definition PGROUNDDOWN :: "nat \<Rightarrow> nat" where
  "PGROUNDDOWN a = a div 4096 * 4096"

text \<open>\<open>(uint64_t)(npages * PGSIZE)\<close>: the product is a 32-bit \<open>int\<close> (the kernel is compiled
  with \<open>-fwrapv\<close>), sign-extended to 64 bits.\<close>

definition mem_bytes :: "nat \<Rightarrow> nat" where
  "mem_bytes n =
     (let x = w32 (n * PGSIZE) in if x < 2147483648 then x else x + 18446744069414584320)"

section \<open>Physical memory size\<close>

record e820_entry =
  e_addr :: nat
  e_len :: nat
  e_type :: nat

text \<open>\<open>mem_max\<close> is \<open>-KERNBASE\<close>, that is 2 GB.\<close>

definition mem_max :: nat where
  "mem_max = sub64 0 KERNBASE"

fun detect_scan :: "e820_entry list \<Rightarrow> nat \<Rightarrow> nat" where
  "detect_scan [] mem = mem"
| "detect_scan (e # es) mem =
     (if e_addr e \<ge> mem_max then detect_scan es mem
      else detect_scan es (max mem (w64 (e_addr e + e_len e))))"

definition detect_memory :: "e820_entry list \<Rightarrow> kernel \<Rightarrow> kernel" where
  "detect_memory es k =
     (let mem = min (detect_scan es 0) mem_max in k\<lparr>npages := mem div PGSIZE\<rparr>)"

section \<open>The core map\<close>

definition pa2page :: "nat \<Rightarrow> kernel \<Rightarrow> (kernel, nat) res" where
  "pa2page pa k =
     (if PGNUM pa \<ge> npages k then Panic ''pa2page called with invalid pa''
      else Ok (PGNUM pa) k)"

definition page2pa :: "nat \<Rightarrow> nat" where
  "page2pa i = w64 (i * 4096)"

definition acquire_core_map_lock :: "kernel \<Rightarrow> (kernel, unit) res" where
  "acquire_core_map_lock k = (if use_lock k then acquire KmemLock k else Ok () k)"

definition release_core_map_lock :: "kernel \<Rightarrow> (kernel, unit) res" where
  "release_core_map_lock k = (if use_lock k then release KmemLock k else Ok () k)"

text \<open>\<open>memset(v, 2, PGSIZE)\<close>: what a freed page holds.\<close>

definition junk :: page where
  "junk = Bytes (replicate PGSIZE 2)"

text \<open>The part of \<open>kfree\<close> between taking and giving back the lock, on page \<open>i\<close>.\<close>

definition kfree_entry :: "nat \<Rightarrow> kernel \<Rightarrow> kernel" where
  "kfree_entry i k =
     (let e = core_map k ! i;
          rc = (if ref_count e > 0 then ref_count e - 1 else ref_count e)
      in if rc = 0 then
           k\<lparr>pages_in_use := pages_in_use k - 1,
             free_pages := free_pages k + 1,
             phys := (phys k)(i := junk),
             core_map := (core_map k)[i := \<lparr>available = 1, user = 0, cm_va = 0, ref_count = 0\<rparr>]\<rparr>
         else k\<lparr>core_map := (core_map k)[i := e\<lparr>ref_count := rc\<rparr>]\<rparr>)"

definition kfree :: "nat \<Rightarrow> kernel \<Rightarrow> (kernel, unit) res" where
  "kfree v k =
     (if v mod PGSIZE \<noteq> 0 \<or> v < k_end k \<or> V2P v \<ge> mem_bytes (npages k) then Panic ''kfree''
      else bnd (acquire_core_map_lock k) (\<lambda>_ k.
           bnd (pa2page (V2P v) k) (\<lambda>i k.
           release_core_map_lock (kfree_entry i k))))"

definition kalloc_entry :: "nat \<Rightarrow> kernel \<Rightarrow> kernel" where
  "kalloc_entry i k =
     k\<lparr>core_map := (core_map k)[i := (core_map k ! i)\<lparr>available := 0, ref_count := 1\<rparr>],
       pages_in_use := pages_in_use k + 1,
       free_pages := free_pages k - 1\<rparr>"

definition kalloc :: "kernel \<Rightarrow> (kernel, nat) res" where
  "kalloc k =
     bnd (acquire_core_map_lock k) (\<lambda>_ k.
     case find_index (\<lambda>e. available e = 1) (take (npages k) (core_map k)) of
       Some i \<Rightarrow>
         bnd (release_core_map_lock (kalloc_entry i k)) (\<lambda>_ k. Ok (P2V (page2pa i)) k)
     | None \<Rightarrow> bnd (release_core_map_lock k) (\<lambda>_ k. Ok 0 k))"

definition mark_user_mem :: "nat \<Rightarrow> nat \<Rightarrow> kernel \<Rightarrow> (kernel, unit) res" where
  "mark_user_mem pa va k =
     bnd (pa2page pa k) (\<lambda>i k.
       Ok () (k\<lparr>core_map := (core_map k)[i := (core_map k ! i)\<lparr>user := 1, cm_va := va\<rparr>]\<rparr>))"

definition mark_kernel_mem :: "nat \<Rightarrow> kernel \<Rightarrow> (kernel, unit) res" where
  "mark_kernel_mem pa k =
     bnd (pa2page pa k) (\<lambda>i k.
       Ok () (k\<lparr>core_map := (core_map k)[i := (core_map k ! i)\<lparr>user := 0, cm_va := 0\<rparr>]\<rparr>))"

text \<open>\<open>for (; p + PGSIZE <= vend; p += PGSIZE) kfree(p);\<close> with a bound on the number of
  iterations: one more than the pages of the range is enough.\<close>

fun freerange_loop :: "nat \<Rightarrow> nat \<Rightarrow> nat \<Rightarrow> kernel \<Rightarrow> (kernel, unit) res" where
  "freerange_loop 0 p vend k = OutOfFuel"
| "freerange_loop (Suc fuel) p vend k =
     (if w64 (p + PGSIZE) \<le> vend
      then bnd (kfree p k) (\<lambda>_ k. freerange_loop fuel (w64 (p + PGSIZE)) vend k)
      else Ok () k)"

definition freerange :: "nat \<Rightarrow> nat \<Rightarrow> kernel \<Rightarrow> (kernel, unit) res" where
  "freerange vstart vend k =
     freerange_loop (Suc (vend div PGSIZE)) (PGROUNDUP vstart) vend k"

text \<open>\<open>sizeof(struct core_map_entry)\<close> is 24 bytes; \<open>setrand(1)\<close> seeds the generator.\<close>

definition empty_entry :: core_map_entry where
  "empty_entry = \<lparr>available = 0, user = 0, cm_va = 0, ref_count = 0\<rparr>"

definition mem_init :: "nat \<Rightarrow> kernel \<Rightarrow> (kernel, unit) res" where
  "mem_init vstart k =
     (let k = k\<lparr>core_map := replicate (npages k) empty_entry, use_lock := False\<rparr>;
          vstart = w64 (vstart + PGROUNDUP (npages k * 24));
          vend = P2V (mem_bytes (npages k))
      in bnd (freerange vstart vend k) (\<lambda>_ k.
         Ok () (k\<lparr>free_pages := int (sub64 vend vstart div 4096), pages_in_use := 0,
                  pages_in_swap := 0, use_lock := True, rand_next := 1\<rparr>)))"

section \<open>Random user pages\<close>

definition rand :: "nat \<Rightarrow> kernel \<Rightarrow> (kernel, nat) res" where
  "rand limit k =
     (let nx = w64 (rand_next k * 1103515245 + 12345)
      in if limit = 0 then Undef ''division by zero''
         else Ok (w32 (nx div 65536) mod limit) (k\<lparr>rand_next := nx\<rparr>))"

fun random_user_page_loop :: "nat \<Rightarrow> kernel \<Rightarrow> (kernel, nat) res" where
  "random_user_page_loop 0 k =
     Panic ''Tried 100 random indices for random user page, all failed''"
| "random_user_page_loop (Suc x) k =
     bnd (rand (npages k) k) (\<lambda>i k.
       if cm_va (core_map k ! i) \<noteq> 0 then Ok i k else random_user_page_loop x k)"

definition get_random_user_page :: "kernel \<Rightarrow> (kernel, nat) res" where
  "get_random_user_page k = random_user_page_loop 100 k"

section \<open>The allocator's invariant\<close>

definition kmem_inv :: "kernel \<Rightarrow> bool" where
  "kmem_inv k \<longleftrightarrow>
     length (core_map k) = npages k \<and> npages k < 524288 \<and>
     (\<forall>e \<in> set (core_map k). 0 \<le> ref_count e \<and> available e \<le> 1 \<and>
        (available e = 1 \<longrightarrow> ref_count e = 0)) \<and>
     free_pages k = int (count_if (\<lambda>e. available e = 1) (core_map k))"

definition avail_pages :: "kernel \<Rightarrow> nat set" where
  "avail_pages k = {i. i < length (core_map k) \<and> available (core_map k ! i) = 1}"

lemma kmem_inv_entry:
  assumes "kmem_inv k" "i < length (core_map k)"
  shows "0 \<le> ref_count (core_map k ! i)" "available (core_map k ! i) \<le> 1"
    "available (core_map k ! i) = 1 \<Longrightarrow> ref_count (core_map k ! i) = 0"
  using assms by (auto simp: kmem_inv_def)

lemma kmem_inv_update:
  assumes inv: "kmem_inv k" and i: "i < length (core_map k)"
    and e: "0 \<le> ref_count e" "available e \<le> 1" "available e = 1 \<longrightarrow> ref_count e = 0"
    and cm: "core_map k' = (core_map k)[i := e]" and np: "npages k' = npages k"
    and fp: "free_pages k' = free_pages k - (if available (core_map k ! i) = 1 then 1 else 0)
                + (if available e = 1 then 1 else 0)"
  shows "kmem_inv k'"
proof -
  have "set (core_map k') \<subseteq> insert e (set (core_map k))"
    unfolding cm by (rule set_update_subset_insert)
  then have "\<forall>x \<in> set (core_map k'). 0 \<le> ref_count x \<and> available x \<le> 1 \<and>
      (available x = 1 \<longrightarrow> ref_count x = 0)"
    using inv e unfolding kmem_inv_def by blast
  moreover have "free_pages k' = int (count_if (\<lambda>e. available e = 1) (core_map k'))"
    using inv i fp unfolding cm kmem_inv_def by (simp add: count_if_update)
  ultimately show ?thesis using inv cm np by (simp add: kmem_inv_def)
qed

lemma kmem_inv_cong:
  "core_map k' = core_map k \<Longrightarrow> npages k' = npages k \<Longrightarrow> free_pages k' = free_pages k \<Longrightarrow>
   kmem_inv k' = kmem_inv k"
  by (simp add: kmem_inv_def)

lemma page_addr [simp]:
  assumes "i < 524288"
  shows "P2V (page2pa i) = KERNBASE + i * 4096" and "V2P (KERNBASE + i * 4096) = i * 4096"
    and "P2V (i * 4096) = KERNBASE + i * 4096"
proof -
  from assms have "i * 4096 + KERNBASE < 18446744073709551616" by simp
  then show "P2V (page2pa i) = KERNBASE + i * 4096" "P2V (i * 4096) = KERNBASE + i * 4096"
    by (simp_all add: P2V_def page2pa_def add.commute)
  show "V2P (KERNBASE + i * 4096) = i * 4096" by (simp add: V2P_def)
qed

lemma PGNUM_mult [simp]: "PGNUM (i * 4096) = i"
  by (simp add: PGNUM_def)

lemma mem_bytes_small [simp]: "n < 524288 \<Longrightarrow> mem_bytes n = n * 4096"
  by (simp add: mem_bytes_def Let_def)

section \<open>What each operation does\<close>

text \<open>The core map lock is free (or not yet used, while the allocator is initialised).\<close>

definition kmem_free :: "kernel \<Rightarrow> bool" where
  "kmem_free k \<longleftrightarrow> (use_lock k \<longrightarrow> KmemLock \<notin> held k)"

definition first_free :: "kernel \<Rightarrow> nat option" where
  "first_free k = find_index (\<lambda>e. available e = 1) (core_map k)"

lemma kalloc_eq:
  assumes "kmem_inv k" "kmem_free k"
  shows "kalloc k = (case first_free k of
           Some i \<Rightarrow> Ok (KERNBASE + i * 4096) (kalloc_entry i k)
         | None \<Rightarrow> Ok 0 k)"
proof -
  have take: "take (npages k) (core_map k) = core_map k"
    using assms(1) by (simp add: kmem_inv_def)
  show ?thesis
  proof (cases "first_free k")
    case None
    with assms take show ?thesis
      by (cases "use_lock k") (simp_all add: kalloc_def first_free_def kmem_free_def
          acquire_core_map_lock_def release_core_map_lock_def)
  next
    case (Some i)
    then have "i < length (core_map k)" by (simp add: first_free_def find_index_lessD)
    with assms(1) have i: "i < 524288" by (simp add: kmem_inv_def)
    from Some assms take i show ?thesis
      by (cases "use_lock k") (simp_all add: kalloc_def first_free_def kmem_free_def
          acquire_core_map_lock_def release_core_map_lock_def kalloc_entry_def)
  qed
qed

lemma first_free_None: "first_free k = None \<longleftrightarrow> avail_pages k = {}"
  by (auto simp: first_free_def find_index_None avail_pages_def all_set_conv_all_nth)

lemma first_free_Some:
  "first_free k = Some i \<Longrightarrow> i \<in> avail_pages k \<and> (\<forall>j < i. j \<notin> avail_pages k)"
  using find_index_Some [of "\<lambda>e. available e = 1" "core_map k" i]
  by (auto simp: first_free_def avail_pages_def)

lemma kalloc_entry_inv:
  assumes "kmem_inv k" "i \<in> avail_pages k"
  shows "kmem_inv (kalloc_entry i k)"
    and "avail_pages (kalloc_entry i k) = avail_pages k - {i}"
proof -
  from assms(2) have i: "i < length (core_map k)" "available (core_map k ! i) = 1"
    by (auto simp: avail_pages_def)
  show "kmem_inv (kalloc_entry i k)"
    by (rule kmem_inv_update [OF assms(1) i(1),
          where e = "(core_map k ! i)\<lparr>available := 0, ref_count := 1\<rparr>"])
       (simp_all add: kalloc_entry_def i(2))
  show "avail_pages (kalloc_entry i k) = avail_pages k - {i}"
    using i by (auto simp: avail_pages_def kalloc_entry_def nth_list_update split: if_splits)
qed

lemma kfree_eq:
  assumes np: "npages k < 524288" and "kmem_free k" "i < npages k" "k_end k \<le> KERNBASE + i * 4096"
  shows "kfree (KERNBASE + i * 4096) k = Ok () (kfree_entry i k)"
proof -
  from np assms(3) have i: "i < 524288" by simp
  have "(KERNBASE + i * 4096) mod 4096 = 0" by (simp add: mod_add_eq [symmetric])
  moreover have "\<not> mem_bytes (npages k) \<le> i * 4096" using assms(3) np by simp
  moreover have "pa2page (i * 4096) k' = Ok i k'" if "npages k' = npages k" for k'
    using assms(3) that by (simp add: pa2page_def)
  ultimately show ?thesis
    using assms i
    by (cases "use_lock k") (simp_all add: kfree_def kmem_free_def kfree_entry_def Let_def
        acquire_core_map_lock_def release_core_map_lock_def)
qed

lemma kfree_entry_inv:
  assumes inv: "kmem_inv k" and i: "i < length (core_map k)" and used: "i \<notin> avail_pages k"
  shows "kmem_inv (kfree_entry i k)"
    and "avail_pages (kfree_entry i k) =
           (if ref_count (core_map k ! i) \<le> 1 then insert i (avail_pages k) else avail_pages k)"
proof -
  let ?e = "core_map k ! i"
  from used i have na: "available ?e \<noteq> 1" by (simp add: avail_pages_def)
  from kmem_inv_entry [OF inv i] have nn: "0 \<le> ref_count ?e" "available ?e \<le> 1" by auto
  show "kmem_inv (kfree_entry i k)"
  proof (cases "ref_count ?e \<le> 1")
    case True
    with na nn show ?thesis
      by (intro kmem_inv_update [OF inv i, where e = "\<lparr>available = 1, user = 0, cm_va = 0,
            ref_count = 0\<rparr>"]) (auto simp: kfree_entry_def Let_def)
  next
    case False
    with na nn show ?thesis
      by (intro kmem_inv_update [OF inv i, where e = "?e\<lparr>ref_count := ref_count ?e - 1\<rparr>"])
         (auto simp: kfree_entry_def Let_def)
  qed
  show "avail_pages (kfree_entry i k) =
          (if ref_count ?e \<le> 1 then insert i (avail_pages k) else avail_pages k)"
    using i nn na by (auto simp: avail_pages_def kfree_entry_def Let_def nth_list_update
        split: if_splits)
qed

text \<open>Fields the allocator leaves alone.\<close>

lemma kalloc_entry_frame [simp]:
  "held (kalloc_entry i k) = held k" "use_lock (kalloc_entry i k) = use_lock k"
  "npages (kalloc_entry i k) = npages k" "phys (kalloc_entry i k) = phys k"
  "k_end (kalloc_entry i k) = k_end k" "length (core_map (kalloc_entry i k)) = length (core_map k)"
  by (simp_all add: kalloc_entry_def)

lemma kfree_entry_frame [simp]:
  "held (kfree_entry i k) = held k" "use_lock (kfree_entry i k) = use_lock k"
  "npages (kfree_entry i k) = npages k" "k_end (kfree_entry i k) = k_end k"
  "length (core_map (kfree_entry i k)) = length (core_map k)"
  by (simp_all add: kfree_entry_def Let_def)

lemma kmem_free_entry [simp]:
  "kmem_free (kalloc_entry i k) = kmem_free k" "kmem_free (kfree_entry i k) = kmem_free k"
  by (simp_all add: kmem_free_def)

section \<open>The contract of a page allocator\<close>

text \<open>A client sees a set of free pages: an allocation takes one out of it or fails when it is
  empty, giving back the only reference to a page puts it in again.\<close>

locale page_allocator =
  fixes alloc :: "'s \<Rightarrow> ('s, nat) res"
    and dealloc :: "nat \<Rightarrow> 's \<Rightarrow> ('s, unit) res"
    and pool :: "'s \<Rightarrow> nat set"
    and addr :: "nat \<Rightarrow> nat"
    and refs :: "nat \<Rightarrow> 's \<Rightarrow> int"
    and inv :: "'s \<Rightarrow> bool"
  assumes alloc_empty: "inv s \<Longrightarrow> pool s = {} \<Longrightarrow> alloc s = Ok 0 s"
    and alloc_page: "inv s \<Longrightarrow> pool s \<noteq> {} \<Longrightarrow>
      \<exists>i s'. alloc s = Ok (addr i) s' \<and> i \<in> pool s \<and> pool s' = pool s - {i} \<and> inv s' \<and>
        refs i s' = 1 \<and> (\<forall>j. j \<noteq> i \<longrightarrow> refs j s' = refs j s) \<and>
        (\<exists>s''. dealloc (addr i) s' = Ok () s'' \<and> inv s'' \<and> pool s'' = pool s)"
    and addr_nonzero: "inv s \<Longrightarrow> i \<in> pool s \<Longrightarrow> addr i \<noteq> 0"
    and addr_inj: "inv s \<Longrightarrow> i \<in> pool s \<Longrightarrow> j \<in> pool s \<Longrightarrow> addr i = addr j \<Longrightarrow> i = j"
    and pool_finite: "inv s \<Longrightarrow> finite (pool s)"
begin

primrec alloc_n :: "nat \<Rightarrow> 's \<Rightarrow> ('s, nat list) res" where
  "alloc_n 0 s = Ok [] s"
| "alloc_n (Suc n) s = bnd (alloc s) (\<lambda>a s. bnd (alloc_n n s) (\<lambda>as s. Ok (a # as) s))"

text \<open>\<open>n\<close> allocations from a pool of at least \<open>n\<close> pages all succeed, on distinct pages.\<close>

lemma alloc_n_distinct:
  "inv s \<Longrightarrow> n \<le> card (pool s) \<Longrightarrow>
     \<exists>as s'. alloc_n n s = Ok as s' \<and> inv s' \<and> length as = n \<and> distinct as \<and> 0 \<notin> set as \<and>
       set as \<subseteq> addr ` pool s \<and> card (pool s') = card (pool s) - n \<and> pool s' \<subseteq> pool s \<and>
       set as \<inter> addr ` pool s' = {}"
proof (induction n arbitrary: s)
  case 0
  then show ?case by simp
next
  case (Suc n)
  have fin: "finite (pool s)" using Suc.prems(1) by (rule pool_finite)
  with Suc.prems have "pool s \<noteq> {}" by auto
  from alloc_page [OF Suc.prems(1) this] obtain i s1 where s1: "alloc s = Ok (addr i) s1"
    "i \<in> pool s" "pool s1 = pool s - {i}" "inv s1" by blast
  from Suc.prems(2) fin s1(2,3) have "n \<le> card (pool s1)" by simp
  from Suc.IH [OF s1(4) this] obtain as s' where s': "alloc_n n s1 = Ok as s'" "inv s'"
    "length as = n" "distinct as" "0 \<notin> set as" "set as \<subseteq> addr ` pool s1"
    "card (pool s') = card (pool s1) - n" "pool s' \<subseteq> pool s1" "set as \<inter> addr ` pool s' = {}"
    by blast
  have ni: "addr i \<notin> addr ` pool s1"
    using s1(2,3) addr_inj [OF Suc.prems(1) s1(2)] by auto
  moreover from ni s'(6) have "addr i \<notin> set as" by blast
  moreover have "addr i \<noteq> 0" using Suc.prems(1) s1(2) by (rule addr_nonzero)
  moreover have "card (pool s') = card (pool s) - Suc n"
    using s'(7) s1(2,3) fin by simp
  ultimately show ?case using s1 s' by auto
qed

lemma alloc_dealloc:
  assumes "inv s" "pool s \<noteq> {}"
  shows "\<exists>a s' s''. alloc s = Ok a s' \<and> a \<noteq> 0 \<and> dealloc a s' = Ok () s'' \<and> inv s'' \<and>
           pool s'' = pool s"
  using alloc_page [OF assms] addr_nonzero [OF assms(1)] by metis

end

text \<open>The allocator's state as its clients meet it: the invariant, the lock free, and every
  page of the pool above the kernel image (which \<open>mem_init\<close> establishes).\<close>

definition kmem_ready :: "kernel \<Rightarrow> bool" where
  "kmem_ready k \<longleftrightarrow> kmem_inv k \<and> kmem_free k \<and> (\<forall>i \<in> avail_pages k. k_end k \<le> KERNBASE + i * 4096)"

definition page_refs :: "nat \<Rightarrow> kernel \<Rightarrow> int" where
  "page_refs i k = (if i < length (core_map k) then ref_count (core_map k ! i) else 0)"

lemma kalloc_ready:
  assumes "kmem_ready k" "avail_pages k \<noteq> {}"
  shows "\<exists>i k'. kalloc k = Ok (KERNBASE + i * 4096) k' \<and> i \<in> avail_pages k \<and>
           (\<forall>j < i. j \<notin> avail_pages k) \<and> k' = kalloc_entry i k \<and> kmem_ready k' \<and>
           avail_pages k' = avail_pages k - {i} \<and> page_refs i k' = 1 \<and>
           (\<forall>j. j \<noteq> i \<longrightarrow> page_refs j k' = page_refs j k) \<and>
           kfree (KERNBASE + i * 4096) k' = Ok () (kfree_entry i k') \<and>
           kmem_ready (kfree_entry i k') \<and> avail_pages (kfree_entry i k') = avail_pages k"
proof -
  from assms have inv: "kmem_inv k" and free: "kmem_free k" by (auto simp: kmem_ready_def)
  from assms(2) obtain i where ff: "first_free k = Some i"
    using first_free_None [of k] by (cases "first_free k") auto
  then have iav: "i \<in> avail_pages k" and least: "\<forall>j < i. j \<notin> avail_pages k"
    by (auto dest: first_free_Some)
  let ?k1 = "kalloc_entry i k" and ?k2 = "kfree_entry i (kalloc_entry i k)"
  have eq: "kalloc k = Ok (KERNBASE + i * 4096) ?k1"
    using kalloc_eq [OF inv free] ff by simp
  note e = kalloc_entry_inv [OF inv iav]
  have i: "i < length (core_map k)" using iav by (simp add: avail_pages_def)
  have np: "i < npages k" using i inv by (simp add: kmem_inv_def)
  have bound: "k_end k \<le> KERNBASE + i * 4096" using assms(1) iav by (simp add: kmem_ready_def)
  have fr: "kfree (KERNBASE + i * 4096) ?k1 = Ok () ?k2"
    using e(1) free np bound by (intro kfree_eq) (simp_all add: kmem_inv_def)
  have rc: "ref_count (core_map ?k1 ! i) = 1" using i by (simp add: kalloc_entry_def)
  have niav: "i \<notin> avail_pages ?k1" using e(2) by simp
  note f = kfree_entry_inv [OF e(1) _ niav]
  have avail: "avail_pages ?k2 = avail_pages k"
    using f(2) i rc e(2) iav by auto
  have "kmem_ready ?k1" "kmem_ready ?k2"
    using assms(1) e free f(1) i avail by (auto simp: kmem_ready_def)
  moreover have "page_refs i ?k1 = 1" "\<forall>j. j \<noteq> i \<longrightarrow> page_refs j ?k1 = page_refs j k"
    using i by (auto simp: page_refs_def kalloc_entry_def)
  ultimately show ?thesis using eq iav least e(2) fr avail by blast
qed

interpretation pages: page_allocator kalloc kfree avail_pages "\<lambda>i. KERNBASE + i * 4096"
  page_refs kmem_ready
proof unfold_locales
  fix s assume "kmem_ready s" "avail_pages s = {}"
  then show "kalloc s = Ok 0 s"
    using kalloc_eq [of s] first_free_None [of s] by (simp add: kmem_ready_def)
next
  fix s assume "kmem_ready s" "avail_pages s \<noteq> {}"
  from kalloc_ready [OF this]
  show "\<exists>i s'. kalloc s = Ok (KERNBASE + i * 4096) s' \<and> i \<in> avail_pages s \<and>
      avail_pages s' = avail_pages s - {i} \<and> kmem_ready s' \<and> page_refs i s' = 1 \<and>
      (\<forall>j. j \<noteq> i \<longrightarrow> page_refs j s' = page_refs j s) \<and>
      (\<exists>s''. kfree (KERNBASE + i * 4096) s' = Ok () s'' \<and> kmem_ready s'' \<and>
        avail_pages s'' = avail_pages s)"
    by (elim exE conjE) (intro exI conjI, assumption+)
next
  fix s assume "kmem_ready s"
  show "finite (avail_pages s)" by (simp add: avail_pages_def)
qed auto

section \<open>Initialisation\<close>

abbreviation (input) free_entry :: core_map_entry where
  "free_entry \<equiv> \<lparr>available = 1, user = 0, cm_va = 0, ref_count = 0\<rparr>"

lemma freerange_loop_pages:
  assumes "n = npages k" "n < 524287" "length (core_map k) = n" "\<not> use_lock k"
    "k_end k \<le> KERNBASE + a * 4096" "a \<le> n" "n - a < fuel"
    "\<And>i. a \<le> i \<Longrightarrow> i < n \<Longrightarrow> core_map k ! i = empty_entry"
  shows "\<exists>k'. freerange_loop fuel (KERNBASE + a * 4096) (KERNBASE + n * 4096) k = Ok () k' \<and>
    npages k' = npages k \<and> length (core_map k') = n \<and> held k' = held k \<and> k_end k' = k_end k \<and>
    (\<forall>i < n. core_map k' ! i = (if a \<le> i then free_entry else core_map k ! i))"
  using assms
proof (induction fuel arbitrary: a k)
  case (Suc fuel)
  have next_p: "w64 (KERNBASE + a * 4096 + 4096) = KERNBASE + (a + 1) * 4096"
    using Suc.prems(2,6) by (subst w64_id) simp_all
  show ?case
  proof (cases "a = n")
    case True
    then have "\<not> w64 (KERNBASE + a * 4096 + 4096) \<le> KERNBASE + n * 4096" unfolding next_p by simp
    with True Suc.prems show ?thesis by simp
  next
    case False
    with Suc.prems(6) have a: "a < n" by simp
    have "kfree (KERNBASE + a * 4096) k = Ok () (kfree_entry a k)"
      using Suc.prems a by (intro kfree_eq) (simp_all add: kmem_free_def)
    moreover have cm: "core_map (kfree_entry a k) = (core_map k)[a := free_entry]"
      using Suc.prems(8) [OF _ a] by (simp add: kfree_entry_def empty_entry_def)
    moreover have "w64 (KERNBASE + a * 4096 + 4096) \<le> KERNBASE + n * 4096"
      unfolding next_p using a by simp
    moreover have "\<exists>k'. freerange_loop fuel (KERNBASE + (a + 1) * 4096) (KERNBASE + n * 4096)
        (kfree_entry a k) = Ok () k' \<and> npages k' = npages (kfree_entry a k) \<and>
      length (core_map k') = n \<and> held k' = held (kfree_entry a k) \<and> k_end k' = k_end (kfree_entry a k) \<and>
      (\<forall>i < n. core_map k' ! i = (if a + 1 \<le> i then free_entry else core_map (kfree_entry a k) ! i))"
    proof (rule Suc.IH)
      show "n - (a + 1) < fuel" using a Suc.prems(7) by linarith
      show "core_map (kfree_entry a k) ! i = empty_entry" if "a + 1 \<le> i" "i < n" for i
        using cm Suc.prems(8) [of i] that by simp
    qed (use Suc.prems a in simp_all)
    ultimately show ?thesis using Suc.prems(3) a next_p by (auto simp: nth_list_update)
  qed
qed simp

lemma PGROUNDUP_kernel:
  assumes "x \<le> n * 4096" "n < 524287"
  shows "PGROUNDUP (KERNBASE + x) = KERNBASE + ((x + 4095) div 4096) * 4096"
proof -
  have "KERNBASE + x + 4095 < 18446744073709551616" using assms by simp
  moreover have "KERNBASE + x + 4095 = 4503599626846208 * 4096 + (x + 4095)" by simp
  then have "(KERNBASE + x + 4095) div 4096 = 4503599626846208 + (x + 4095) div 4096"
    by (simp only: div_mult_self3)
  ultimately show ?thesis by (simp add: PGROUNDUP_def)
qed

lemma count_if_ge:
  "length xs = n \<Longrightarrow> a \<le> n \<Longrightarrow> (\<And>i. i < n \<Longrightarrow> P (xs ! i) \<longleftrightarrow> a \<le> i) \<Longrightarrow> count_if P xs = n - a"
proof (induction n arbitrary: xs)
  case (Suc n)
  obtain ys y where xs: "xs = ys @ [y]" using Suc.prems(1) by (cases xs rule: rev_cases) auto
  have P: "P (xs ! i) \<longleftrightarrow> a \<le> i" if "i < Suc n" for i using Suc.prems(3) that by simp
  have py: "P y \<longleftrightarrow> a \<le> n" using P [of n] Suc.prems(1) xs by (simp add: nth_append)
  have pys: "P (ys ! i) \<longleftrightarrow> a \<le> i" if "i < n" for i
    using P [of i] that Suc.prems(1) xs by (simp add: nth_append)
  show ?case
  proof (cases "a \<le> n")
    case True
    then have "count_if P ys = n - a" using Suc.IH [of ys] Suc.prems(1) pys xs by simp
    with True py xs show ?thesis by (simp add: count_if_def Suc_diff_le)
  next
    case False
    with Suc.prems(2) have a: "a = Suc n" by simp
    have "\<not> P x" if x: "x \<in> set ys" for x
    proof -
      obtain i where "i < n" "x = ys ! i" using x Suc.prems(1) xs by (auto simp: in_set_conv_nth)
      with pys [of i] a show ?thesis by simp
    qed
    then have "filter P ys = []" by (simp add: filter_empty_conv)
    with a py xs show ?thesis by (simp add: count_if_def)
  qed
qed simp

text \<open>\<open>x\<close> is the physical address of the first byte after the core map.\<close>

lemma mem_init_ok:
  assumes np: "npages k < 524287" and start: "w64 (vstart + PGROUNDUP (npages k * 24)) = KERNBASE + x"
    and x: "x \<le> npages k * 4096" "k_end k \<le> KERNBASE + x" and lock: "KmemLock \<notin> held k"
  shows "\<exists>k'. mem_init vstart k = Ok () k' \<and> kmem_ready k' \<and>
    avail_pages k' = {i. (x + 4095) div 4096 \<le> i \<and> i < npages k} \<and> pages_in_use k' = 0"
proof -
  let ?n = "npages k" and ?a = "(x + 4095) div 4096"
  let ?k0 = "k\<lparr>core_map := replicate ?n empty_entry, use_lock := False\<rparr>"
  let ?vend = "KERNBASE + ?n * 4096"
  have vend: "P2V (mem_bytes ?n) = ?vend" using np by simp
  have ale: "?a \<le> ?n" using x(1) by simp
  have ge: "x \<le> ?a * 4096" by (simp add: le_div_geq)
  define fuel where "fuel = Suc (?vend div 4096)"
  have fuel: "?n - ?a < fuel"
  proof -
    have "?n * 4096 div 4096 \<le> ?vend div 4096" by (rule div_le_mono) (rule le_add2)
    then have "?n \<le> ?vend div 4096" by (simp only: nonzero_mult_div_cancel_right) 
    then show ?thesis unfolding fuel_def by linarith
  qed
  have up: "PGROUNDUP (KERNBASE + x) = KERNBASE + ?a * 4096" using PGROUNDUP_kernel [OF x(1) np] .
  have "k_end k \<le> KERNBASE + ?a * 4096" using x(2) ge by linarith
  then obtain k1 where k1: "freerange (KERNBASE + x) ?vend ?k0 = Ok () k1" "npages k1 = ?n"
    "length (core_map k1) = ?n" "held k1 = held k" "k_end k1 = k_end k"
    "\<forall>i < ?n. core_map k1 ! i = (if ?a \<le> i then free_entry else empty_entry)"
    unfolding freerange_def up fuel_def [symmetric]
    using freerange_loop_pages [of ?n ?k0 ?a fuel] np ale fuel by auto
  have cnt: "count_if (\<lambda>e. available e = 1) (core_map k1) = ?n - ?a"
    by (rule count_if_ge) (use k1(3,6) ale in \<open>auto simp: empty_entry_def\<close>)
  have pages: "sub64 ?vend (KERNBASE + x) div 4096 = ?n - ?a"
  proof -
    have "sub64 ?vend (KERNBASE + x) = ?n * 4096 - x" using x(1) by simp
    moreover have "(?n * 4096 - x) div 4096 = ?n - ?a"
    proof -
      define r where "r = ?a * 4096 - x"
      have "?a * 4096 \<le> x + 4095" by simp
      then have r: "r < 4096" "x = ?a * 4096 - r" "r \<le> ?a * 4096" using ge by (auto simp: r_def)
      then have "?n * 4096 - x = r + (?n - ?a) * 4096" using ale by (simp add: diff_mult_distrib)
      then have "(?n * 4096 - x) div 4096 = r div 4096 + (?n - ?a)" by (simp only: div_mult_self1)
      then show ?thesis using r(1) by simp
    qed
    ultimately show ?thesis by simp
  qed
  let ?k' = "k1\<lparr>free_pages := int (?n - ?a), pages_in_use := 0, pages_in_swap := 0,
    use_lock := True, rand_next := 1\<rparr>"
  have avail: "avail_pages ?k' = {i. ?a \<le> i \<and> i < ?n}"
    using k1(3,6) by (auto simp: avail_pages_def empty_entry_def split: if_splits)
  have ents: "\<forall>e \<in> set (core_map k1). e = free_entry \<or> e = empty_entry"
    using k1(3,6) by (auto simp: in_set_conv_nth)
  have "0 \<le> ref_count e \<and> available e \<le> 1 \<and> (available e = 1 \<longrightarrow> ref_count e = 0)"
    if "e \<in> set (core_map k1)" for e
    using bspec [OF ents that] by (elim disjE) (simp_all add: empty_entry_def)
  then have "kmem_inv ?k'" using k1(2,3) np cnt by (simp add: kmem_inv_def)
  moreover have "k_end k \<le> KERNBASE + i * 4096" if "?a \<le> i" for i
    using x(2) ge that by (meson add_left_mono le_trans mult_le_mono1)
  ultimately have "kmem_ready ?k'"
    using avail k1(4,5) lock unfolding kmem_ready_def kmem_free_def by auto
  moreover have "mem_init vstart k = Ok () ?k'"
    using k1(1) start vend pages by (simp add: mem_init_def Let_def)
  ultimately show ?thesis using avail by auto
qed

section \<open>Properties\<close>

text \<open>\<open>n\<close> calls of \<open>kalloc\<close> in a row.\<close>

primrec kalloc_n :: "nat \<Rightarrow> kernel \<Rightarrow> (kernel, nat list) res" where
  "kalloc_n 0 k = Ok [] k"
| "kalloc_n (Suc n) k = bnd (kalloc k) (\<lambda>a k. bnd (kalloc_n n k) (\<lambda>as k. Ok (a # as) k))"

lemma kalloc_n_eq: "kalloc_n n k = pages.alloc_n n k"
  by (induction n arbitrary: k) simp_all

lemma avail_pages_k0: "avail_pages k0 = {4, 5, 6, 7}"
  by (auto simp: avail_pages_def k0_def cme_def nth_append less_Suc_eq numeral_eq_Suc)

lemma kmem_ready_k0: "kmem_ready k0"
  unfolding kmem_ready_def
proof (intro conjI)
  show "kmem_inv k0" by (simp add: kmem_inv_def k0_def cme_def count_if_def)
qed (simp_all add: kmem_free_def k0_def)

text \<open>C19: As long as the pool has the pages, calls of \<open>kalloc\<close> succeed, each on a page of the pool
  that no other call got, none of them null, and the pool shrinks by exactly those pages; the
  allocator's invariant (page counts, reference counts) is kept.\<close>

theorem kalloc_n_distinct:
  assumes "kmem_ready k" "n \<le> card (avail_pages k)"
  shows "\<exists>as k'. kalloc_n n k = Ok as k' \<and> kmem_ready k' \<and> length as = n \<and> distinct as \<and> 0 \<notin> set as \<and>
    set as \<subseteq> (\<lambda>i. KERNBASE + i * 4096) ` avail_pages k \<and>
    card (avail_pages k') = card (avail_pages k) - n \<and> avail_pages k' \<subseteq> avail_pages k \<and>
    set as \<inter> (\<lambda>i. KERNBASE + i * 4096) ` avail_pages k' = {}"
  unfolding kalloc_n_eq by (rule pages.alloc_n_distinct [OF assms])

theorem kalloc_n_distinct_witness:
  "\<exists>as k'. kalloc_n 3 k0 = Ok as k' \<and> kmem_ready k' \<and> length as = 3 \<and> distinct as \<and> 0 \<notin> set as \<and>
    set as \<subseteq> (\<lambda>i. KERNBASE + i * 4096) ` avail_pages k0 \<and>
    card (avail_pages k') = card (avail_pages k0) - 3 \<and> avail_pages k' \<subseteq> avail_pages k0 \<and>
    set as \<inter> (\<lambda>i. KERNBASE + i * 4096) ` avail_pages k' = {}"
  by (rule kalloc_n_distinct [OF kmem_ready_k0]) (simp add: avail_pages_k0)

text \<open>C20: \<open>kfree\<close> on a page that copy-on-write shares takes one reference away and nothing else: the
  page stays allocated with its contents, no other page changes, the counts stay right.\<close>

theorem kfree_shared:
  assumes "kmem_ready k" "i < npages k" "k_end k \<le> KERNBASE + i * 4096" "1 < page_refs i k"
  shows "\<exists>k'. kfree (KERNBASE + i * 4096) k = Ok () k' \<and> kmem_ready k' \<and>
    page_refs i k' = page_refs i k - 1 \<and> (\<forall>j. j \<noteq> i \<longrightarrow> page_refs j k' = page_refs j k) \<and>
    avail_pages k' = avail_pages k \<and> phys k' = phys k \<and> pages_in_use k' = pages_in_use k"
proof -
  let ?k = "kfree_entry i k"
  have inv: "kmem_inv k" "kmem_free k" using assms(1) by (simp_all add: kmem_ready_def)
  have i: "i < length (core_map k)" "npages k < 524288" using inv(1) assms(2) by (simp_all add: kmem_inv_def)
  have rc: "1 < ref_count (core_map k ! i)" using assms(4) i by (simp add: page_refs_def)
  have used: "i \<notin> avail_pages k" using kmem_inv_entry(3) [OF inv(1) i(1)] rc by (auto simp: avail_pages_def)
  note e = kfree_entry_inv [OF inv(1) i(1) used]
  have "avail_pages ?k = avail_pages k" using e(2) rc by simp
  moreover have "kmem_ready ?k" using assms(1) e(1) calculation inv(2) by (simp add: kmem_ready_def)
  moreover have "page_refs i ?k = page_refs i k - 1" "\<forall>j. j \<noteq> i \<longrightarrow> page_refs j ?k = page_refs j k"
    "phys ?k = phys k" "pages_in_use ?k = pages_in_use k"
    using i rc by (auto simp: page_refs_def kfree_entry_def Let_def)
  ultimately show ?thesis using kfree_eq [OF i(2) inv(2) assms(2,3)] by blast
qed

definition k0_shared :: kernel where
  "k0_shared = k0\<lparr>core_map := replicate 2 (cme False) @ [(cme False)\<lparr>ref_count := 2\<rparr>, cme False] @
     replicate 4 (cme True)\<rparr>"

lemma kmem_ready_k0_shared: "kmem_ready k0_shared"
  unfolding kmem_ready_def
proof (intro conjI)
  show "kmem_inv k0_shared"
    by (simp add: kmem_inv_def k0_shared_def k0_def cme_def count_if_def)
qed (simp_all add: kmem_free_def k0_shared_def k0_def)

theorem kfree_shared_witness:
  "\<exists>k'. kfree (KERNBASE + 2 * 4096) k0_shared = Ok () k' \<and> kmem_ready k' \<and>
    page_refs 2 k' = page_refs 2 k0_shared - 1 \<and>
    (\<forall>j. j \<noteq> 2 \<longrightarrow> page_refs j k' = page_refs j k0_shared) \<and> avail_pages k' = avail_pages k0_shared \<and>
    phys k' = phys k0_shared \<and> pages_in_use k' = pages_in_use k0_shared"
  by (rule kfree_shared [OF kmem_ready_k0_shared])
     (simp_all add: k0_shared_def k0_def page_refs_def cme_def nth_append)

text \<open>C21: \<open>mem_init\<close> puts exactly the pages between the end of the core map and the end of memory
  into the pool and establishes the invariant every later call relies on.\<close>

theorem mem_init_pool:
  assumes "npages k < 524287" "w64 (vstart + PGROUNDUP (npages k * 24)) = KERNBASE + x"
    and "x \<le> npages k * 4096" "k_end k \<le> KERNBASE + x" "KmemLock \<notin> held k"
  shows "\<exists>k'. mem_init vstart k = Ok () k' \<and> kmem_ready k' \<and>
    avail_pages k' = {i. (x + 4095) div 4096 \<le> i \<and> i < npages k} \<and> pages_in_use k' = 0"
  by (rule mem_init_ok [OF assms])

theorem mem_init_pool_witness:
  "\<exists>k'. mem_init (KERNBASE + 5000) k0 = Ok () k' \<and> kmem_ready k' \<and>
    avail_pages k' = {i. (9096 + 4095) div 4096 \<le> i \<and> i < npages k0} \<and> pages_in_use k' = 0"
  by (rule mem_init_pool) (simp_all add: k0_def PGROUNDUP_def)

text \<open>C40: With 2 GB of memory or more \<open>detect_memory\<close> finds 524288 pages; the byte count of all pages
  then overflows the 32-bit \<open>int\<close>, the end of the range lies below its start, and \<open>mem_init\<close> frees no
  page at all: every \<open>kalloc\<close> of the booted kernel fails.\<close>

theorem mem_init_2GB_empty:
  assumes "npages k = 524288" "PGROUNDUP (w64 (vstart + PGROUNDUP (npages k * 24))) = KERNBASE + x"
    "x + 4096 < 2147483648" "KmemLock \<notin> held k"
  shows "\<exists>k'. mem_init vstart k = Ok () k' \<and> avail_pages k' = {} \<and> kalloc k' = Ok 0 k'"
proof -
  define n where "n = npages k"
  define v where "v = w64 (vstart + PGROUNDUP (n * 24))"
  define vend :: nat where "vend = 18446744069414584320"
  let ?k0 = "k\<lparr>core_map := replicate n empty_entry, use_lock := False\<rparr>"
  have vend: "P2V (mem_bytes n) = vend"
    by (simp add: n_def assms(1) vend_def mem_bytes_def P2V_def Let_def w32_def w64_def)
  have "w64 (KERNBASE + x + PGSIZE) = KERNBASE + x + PGSIZE" using assms(3) by (subst w64_id) simp_all
  then have "freerange v vend ?k0 = Ok () ?k0"
    unfolding freerange_def freerange_loop.simps(2) using assms(2) by (simp add: v_def n_def vend_def)
  then obtain k' where k': "mem_init vstart k = Ok () k'" "core_map k' = replicate n empty_entry"
    "use_lock k'" "held k' = held k"
    using vend by (simp add: mem_init_def Let_def v_def n_def)
  have none: "find_index (\<lambda>e. available e = 1) (take (npages k') (core_map k')) = None"
    by (simp add: k' find_index_None empty_entry_def)
  have "avail_pages k' = {}" by (auto simp: avail_pages_def k' empty_entry_def)
  moreover have "kalloc k' = Ok 0 k'"
    using assms(4) k'(3,4) none
    by (simp add: kalloc_def acquire_core_map_lock_def release_core_map_lock_def acquire_def release_def holding_def)
  ultimately show ?thesis using k'(1) by blast
qed

theorem mem_init_2GB_empty_witness:
  "\<exists>k'. mem_init (KERNBASE + 4096) (k0\<lparr>npages := 524288\<rparr>) = Ok () k' \<and> avail_pages k' = {} \<and> kalloc k' = Ok 0 k'"
  by (rule mem_init_2GB_empty [where x = 12587008]) (simp_all add: k0_def PGROUNDUP_def)

text \<open>C34: \<open>get_random_user_page\<close> never indexes outside the core map: it returns a page below \<open>npages\<close>
  that belongs to a user address, or panics after its hundred attempts.\<close>

theorem random_user_page_in_bounds:
  assumes "0 < npages k"
  shows "(\<exists>i k'. get_random_user_page k = Ok i k' \<and> i < npages k \<and> cm_va (core_map k ! i) \<noteq> 0 \<and>
            k' = k\<lparr>rand_next := rand_next k'\<rparr>) \<or>
         get_random_user_page k = Panic ''Tried 100 random indices for random user page, all failed''"
proof -
  have "(\<exists>i k'. random_user_page_loop n k = Ok i k' \<and> i < npages k \<and> cm_va (core_map k ! i) \<noteq> 0 \<and>
            k' = k\<lparr>rand_next := rand_next k'\<rparr>) \<or>
         random_user_page_loop n k = Panic ''Tried 100 random indices for random user page, all failed''"
    if "0 < npages k" for n k
    using that
  proof (induction n arbitrary: k)
    case (Suc n)
    define x where "x = w64 (rand_next k * 1103515245 + 12345)"
    define i where "i = w32 (x div 65536) mod npages k"
    have r: "rand (npages k) k = Ok i (k\<lparr>rand_next := x\<rparr>)" "i < npages k"
      using Suc.prems by (simp_all add: rand_def x_def i_def Let_def)
    show ?case
    proof (cases "cm_va (core_map k ! i) = 0")
      case True
      with r(1) Suc.IH [of "k\<lparr>rand_next := x\<rparr>"] Suc.prems show ?thesis by auto
    qed (use r in simp)
  qed simp
  then show ?thesis using assms by (simp only: get_random_user_page_def)
qed

theorem random_user_page_in_bounds_witness:
  "(\<exists>i k'. get_random_user_page k0 = Ok i k' \<and> i < npages k0 \<and> cm_va (core_map k0 ! i) \<noteq> 0 \<and>
       k' = k0\<lparr>rand_next := rand_next k'\<rparr>) \<or>
    get_random_user_page k0 = Panic ''Tried 100 random indices for random user page, all failed''"
  by (rule random_user_page_in_bounds) (simp add: k0_def)

end
