(* ===== verification/PageTable.thy ===== *)
theory PageTable
  imports Kalloc
begin

text \<open>
  Page tables (\<open>kernel/x86_64vm.c\<close>): the four-level walk, mapping, the kernel part of an address
  space, and freeing. A page table is the address of a page holding 512 entries; a pointer to an entry
  (\<open>pte_t *\<close>) is the address of its table with the index. \<open>seginit\<close> only loads segment registers
  and is not modelled.
\<close>

unbundle bit_operations_syntax

section \<open>Entries\<close>

abbreviation (input) PTE_P :: u64 where "PTE_P \<equiv> 1"
abbreviation (input) PTE_W :: u64 where "PTE_W \<equiv> 2"
abbreviation (input) PTE_U :: u64 where "PTE_U \<equiv> 4"

text \<open>\<open>BITMASK64(h, l)\<close>: the bits from \<open>l\<close> to \<open>h\<close>.\<close>

definition BITMASK64 :: "nat \<Rightarrow> nat \<Rightarrow> u64" where
  "BITMASK64 h l = push_bit l (push_bit (Suc (h - l)) 1 - 1)"

text \<open>\<open>PTE_ADDR\<close>, and with it \<open>PDE_ADDR\<close> and \<open>PDPT_ADDR\<close>, which are the same expression.\<close>

definition PTE_ADDR :: "u64 \<Rightarrow> nat" where
  "PTE_ADDR e = unat (e AND BITMASK64 51 12)"

definition PTE :: "nat \<Rightarrow> u64 \<Rightarrow> u64" where
  "PTE pa flags = word_of_nat pa OR flags"

definition PML4_INDEX :: "nat \<Rightarrow> nat" where
  "PML4_INDEX va = va div 2 ^ 39 mod 512"

definition PDPT_INDEX :: "nat \<Rightarrow> nat" where
  "PDPT_INDEX va = va div 2 ^ 30 mod 512"

definition PD_INDEX :: "nat \<Rightarrow> nat" where
  "PD_INDEX va = va div 2 ^ 21 mod 512"

definition PT_INDEX :: "nat \<Rightarrow> nat" where
  "PT_INDEX va = va div 2 ^ 12 mod 512"

text \<open>\<open>PGADDR\<close> of indices, the later ones zero. The fields do not overlap unless an index is 512, which
  \<open>find_next_possible_page\<close> produces: the sum, not the disjunction, carries into the next field,
  so the disjunction is kept.\<close>

definition PGADDR :: "nat \<Rightarrow> nat \<Rightarrow> nat \<Rightarrow> nat" where
  "PGADDR l4 l3 d = w64 (l4 * 2 ^ 39) OR w64 (l3 * 2 ^ 30) OR w64 (d * 2 ^ 21)"

section \<open>Access to tables\<close>

definition rd_entry :: "nat \<Rightarrow> nat \<Rightarrow> kernel \<Rightarrow> (kernel, u64) res" where
  "rd_entry t i k =
     (case phys k (PGNUM (V2P t)) of
        Table es \<Rightarrow> if i < length es then Ok (es ! i) k else Undef ''page table index''
      | _ \<Rightarrow> Undef ''not a page table'')"

definition wr_entry :: "nat \<Rightarrow> nat \<Rightarrow> u64 \<Rightarrow> kernel \<Rightarrow> (kernel, unit) res" where
  "wr_entry t i e k =
     (case phys k (PGNUM (V2P t)) of
        Table es \<Rightarrow> if i < length es then Ok () (k\<lparr>phys := (phys k)(PGNUM (V2P t) := Table (es[i := e]))\<rparr>)
                    else Undef ''page table index''
      | _ \<Rightarrow> Undef ''not a page table'')"

text \<open>\<open>memset(t, 0, PGSIZE)\<close> of a page that becomes a table.\<close>

definition clear_table :: "nat \<Rightarrow> kernel \<Rightarrow> kernel" where
  "clear_table t k = k\<lparr>phys := (phys k)(PGNUM (V2P t) := Table (replicate 512 0))\<rparr>"

section \<open>The walk\<close>

text \<open>One level: follow entry \<open>i\<close> of table \<open>t\<close>, or make a new table and enter it.\<close>

definition walk_level :: "nat \<Rightarrow> nat \<Rightarrow> bool \<Rightarrow> kernel \<Rightarrow> (kernel, nat option) res" where
  "walk_level t i alloc k =
     bnd (rd_entry t i k) (\<lambda>e k.
     if e AND PTE_P \<noteq> 0 then Ok (Some (P2V (PTE_ADDR e))) k
     else if \<not> alloc then Ok None k
     else
       bnd (kalloc k) (\<lambda>a k.
       if a = 0 then Ok None k
       else bnd (wr_entry t i (PTE (V2P a) (PTE_P OR PTE_W OR PTE_U)) (clear_table a k)) (\<lambda>_ k.
            Ok (Some a) k)))"

definition walkpml4 :: "nat \<Rightarrow> nat \<Rightarrow> bool \<Rightarrow> kernel \<Rightarrow> (kernel, (nat \<times> nat) option) res" where
  "walkpml4 pml4 va alloc k =
     bnd (walk_level pml4 (PML4_INDEX va) alloc k) (\<lambda>r k.
     case r of None \<Rightarrow> Ok None k
     | Some pdpt \<Rightarrow>
         bnd (walk_level pdpt (PDPT_INDEX va) alloc k) (\<lambda>r k.
         case r of None \<Rightarrow> Ok None k
         | Some pgdir \<Rightarrow>
             bnd (walk_level pgdir (PD_INDEX va) alloc k) (\<lambda>r k.
             case r of None \<Rightarrow> Ok None k
             | Some pgtab \<Rightarrow> Ok (Some (pgtab, PT_INDEX va)) k)))"

section \<open>Mapping\<close>

text \<open>One iteration of \<open>mappages\<close>.\<close>

definition mappage :: "nat \<Rightarrow> nat \<Rightarrow> nat \<Rightarrow> u64 \<Rightarrow> bool \<Rightarrow> kernel \<Rightarrow> (kernel, unit) res" where
  "mappage pml4 virt_pn phy_pn perm kern k =
     bnd (walkpml4 pml4 (w64 (virt_pn * 4096)) True k) (\<lambda>r k.
     case r of None \<Rightarrow> Panic ''not enough memory''
     | Some (t, i) \<Rightarrow>
         bnd (rd_entry t i k) (\<lambda>e k.
         if e AND PTE_P \<noteq> 0 then Panic ''remap''
         else
           bnd (wr_entry t i (PTE (w64 (phy_pn * 4096)) perm) k) (\<lambda>_ k.
           if \<not> kern then mark_user_mem (w64 (phy_pn * 4096)) (w64 (virt_pn * 4096)) k else Ok () k)))"

primrec mappages_loop :: "nat \<Rightarrow> nat \<Rightarrow> nat \<Rightarrow> nat \<Rightarrow> u64 \<Rightarrow> bool \<Rightarrow> kernel \<Rightarrow> (kernel, unit) res" where
  "mappages_loop 0 pml4 virt_pn phy_pn perm kern k = Ok () k"
| "mappages_loop (Suc n) pml4 virt_pn phy_pn perm kern k =
     bnd (mappage pml4 virt_pn phy_pn perm kern k) (\<lambda>_ k.
     mappages_loop n pml4 (w64 (virt_pn + 1)) (w64 (phy_pn + 1)) perm kern k)"

definition mappages :: "nat \<Rightarrow> nat \<Rightarrow> int \<Rightarrow> nat \<Rightarrow> u64 \<Rightarrow> bool \<Rightarrow> kernel \<Rightarrow> (kernel, int) res" where
  "mappages pml4 virt_pn num_page phy_pn perm kern k =
     bnd (mappages_loop (nat num_page) pml4 virt_pn phy_pn perm kern k) (\<lambda>_ k. Ok 0 k)"

section \<open>The kernel part\<close>

abbreviation (input) EXTMEM :: nat where "EXTMEM \<equiv> 0x100000"
abbreviation (input) DEVSPACE :: nat where "DEVSPACE \<equiv> 0xFFFFFFFFFE000000"
abbreviation (input) KERNLINK :: nat where "KERNLINK \<equiv> KERNBASE + EXTMEM"

record kmap =
  km_virt :: nat
  phys_start :: nat
  phys_end :: nat
  km_perm :: u64

definition kmaps :: "kernel \<Rightarrow> kmap list" where
  "kmaps k =
     [\<lparr>km_virt = KERNBASE, phys_start = 0, phys_end = EXTMEM, km_perm = PTE_W\<rparr>,
      \<lparr>km_virt = KERNLINK, phys_start = V2P KERNLINK, phys_end = V2P (k_data k), km_perm = 0\<rparr>,
      \<lparr>km_virt = k_data k, phys_start = V2P (k_data k), phys_end = npages k * PGSIZE, km_perm = PTE_W\<rparr>,
      \<lparr>km_virt = DEVSPACE, phys_start = 0xFE000000, phys_end = 0x100000000, km_perm = PTE_W\<rparr>]"

primrec setupkvm_loop :: "kmap list \<Rightarrow> nat \<Rightarrow> kernel \<Rightarrow> (kernel, nat) res" where
  "setupkvm_loop [] pml4 k = Ok pml4 k"
| "setupkvm_loop (m # ms) pml4 k =
     bnd (mappages pml4 (km_virt m div 4096) (s32 (w32 (sub64 (phys_end m) (phys_start m) div 4096)))
            (phys_start m div 4096) (km_perm m OR PTE_P) True k) (\<lambda>r k.
     if r < 0 then Ok 0 k else setupkvm_loop ms pml4 k)"

definition setupkvm :: "kernel \<Rightarrow> (kernel, nat) res" where
  "setupkvm k =
     bnd (kalloc k) (\<lambda>pml4 k.
     if pml4 = 0 then Ok 0 k else setupkvm_loop (kmaps k) pml4 (clear_table pml4 k))"

section \<open>Freeing\<close>

definition find_next_possible_page :: "nat \<Rightarrow> nat \<Rightarrow> kernel \<Rightarrow> (kernel, nat) res" where
  "find_next_possible_page pml4 va k =
     bnd (rd_entry pml4 (PML4_INDEX va) k) (\<lambda>e k.
     if e AND PTE_P = 0 then Ok (sub64 (PGADDR (PML4_INDEX va + 1) 0 0) PGSIZE) k
     else
       bnd (rd_entry (P2V (PTE_ADDR e)) (PDPT_INDEX va) k) (\<lambda>e k.
       if e AND PTE_P = 0 then Ok (sub64 (PGADDR (PML4_INDEX va) (PDPT_INDEX va + 1) 0) PGSIZE) k
       else
         bnd (rd_entry (P2V (PTE_ADDR e)) (PD_INDEX va) k) (\<lambda>e k.
         if e AND PTE_P = 0 then Ok (sub64 (PGADDR (PML4_INDEX va) (PDPT_INDEX va) (PD_INDEX va + 1)) PGSIZE) k
         else Panic ''level is not missing'')))"

text \<open>The loop of \<open>deallocuvm\<close>, with fuel; every round advances \<open>a\<close> by at least a page.\<close>

primrec deallocuvm_loop :: "nat \<Rightarrow> nat \<Rightarrow> nat \<Rightarrow> nat \<Rightarrow> kernel \<Rightarrow> (kernel, unit) res" where
  "deallocuvm_loop 0 pml4 a stop k = OutOfFuel"
| "deallocuvm_loop (Suc fuel) pml4 a stop k =
     (if \<not> a < stop then Ok () k
      else
        bnd (walkpml4 pml4 a False k) (\<lambda>r k.
        case r of
          None \<Rightarrow> bnd (find_next_possible_page pml4 a k) (\<lambda>a k. deallocuvm_loop fuel pml4 (w64 (a + PGSIZE)) stop k)
        | Some (t, i) \<Rightarrow>
            bnd (rd_entry t i k) (\<lambda>e k.
            bnd (if e AND PTE_P = 0 then Ok () k
                 else if PTE_ADDR e = 0 then Panic ''kfree''
                 else bnd (kfree (P2V (PTE_ADDR e)) k) (\<lambda>_ k. wr_entry t i 0 k)) (\<lambda>_ k.
            deallocuvm_loop fuel pml4 (w64 (a + PGSIZE)) stop k))))"

definition deallocuvm :: "nat \<Rightarrow> nat \<Rightarrow> nat \<Rightarrow> nat \<Rightarrow> kernel \<Rightarrow> (kernel, int) res" where
  "deallocuvm pml4 start oldsz newsz k =
     (if newsz \<ge> oldsz then Ok (i32 (int oldsz)) k
      else
        bnd (deallocuvm_loop (Suc (w64 (start + oldsz) div PGSIZE + 1)) pml4 (PGROUNDUP (w64 (start + newsz)))
               (w64 (start + oldsz)) k) (\<lambda>_ k.
        Ok (i32 (int newsz)) k))"

primrec freevm_pgdir_loop :: "nat list \<Rightarrow> nat \<Rightarrow> kernel \<Rightarrow> (kernel, unit) res" where
  "freevm_pgdir_loop [] pgdir k = kfree pgdir k"
| "freevm_pgdir_loop (i # is) pgdir k =
     bnd (rd_entry pgdir i k) (\<lambda>e k.
     bnd (if e AND PTE_P \<noteq> 0 then kfree (P2V (PTE_ADDR e)) k else Ok () k) (\<lambda>_ k.
     freevm_pgdir_loop is pgdir k))"

definition freevm_pgdir :: "nat \<Rightarrow> kernel \<Rightarrow> (kernel, unit) res" where
  "freevm_pgdir pgdir k = freevm_pgdir_loop [0 ..< 512] pgdir k"

primrec freevm_pdpt_loop :: "nat list \<Rightarrow> nat \<Rightarrow> kernel \<Rightarrow> (kernel, unit) res" where
  "freevm_pdpt_loop [] pdpt k = kfree pdpt k"
| "freevm_pdpt_loop (i # is) pdpt k =
     bnd (rd_entry pdpt i k) (\<lambda>e k.
     bnd (if e AND PTE_P \<noteq> 0 then freevm_pgdir (P2V (PTE_ADDR e)) k else Ok () k) (\<lambda>_ k.
     freevm_pdpt_loop is pdpt k))"

definition freevm_pdpt :: "nat \<Rightarrow> kernel \<Rightarrow> (kernel, unit) res" where
  "freevm_pdpt pdpt k = freevm_pdpt_loop [0 ..< 512] pdpt k"

primrec freevm_loop :: "nat list \<Rightarrow> nat \<Rightarrow> kernel \<Rightarrow> (kernel, unit) res" where
  "freevm_loop [] pml4 k = kfree pml4 k"
| "freevm_loop (i # is) pml4 k =
     bnd (rd_entry pml4 i k) (\<lambda>e k.
     bnd (if e AND PTE_P \<noteq> 0 then freevm_pdpt (P2V (PTE_ADDR e)) k else Ok () k) (\<lambda>_ k.
     freevm_loop is pml4 k))"

abbreviation (input) SZ_4G :: nat where "SZ_4G \<equiv> 0x100000000"

definition freevm :: "nat \<Rightarrow> kernel \<Rightarrow> (kernel, unit) res" where
  "freevm pml4 k =
     (if pml4 = 0 then Panic ''freevm: no pml4''
      else bnd (deallocuvm pml4 0 SZ_4G 0 k) (\<lambda>_ k. freevm_loop [0 ..< 512] pml4 k))"

section \<open>Entries as numbers\<close>

lemma word_of_page: "(word_of_nat (p * 4096) :: u64) = push_bit 12 (word_of_nat p)"
  by (simp add: push_bit_eq_mult)

lemma bit_page: "bit (push_bit 12 (word_of_nat p) :: u64) n \<longleftrightarrow> n < 64 \<and> 12 \<le> n \<and> bit p (n - 12)"
  by (auto simp: bit_push_bit_iff bit_of_nat_iff)

lemma bit_BITMASK: "bit (BITMASK64 51 12) n \<longleftrightarrow> 12 \<le> n \<and> n < 52"
proof -
  have "BITMASK64 51 12 = push_bit 12 (mask 40)" by (simp add: BITMASK64_def mask_eq_exp_minus_1 push_bit_of_1)
  then show ?thesis by (auto simp: bit_push_bit_iff bit_mask_iff)
qed

lemma bit_nat_lessD: "p < 2 ^ m \<Longrightarrow> bit p n \<Longrightarrow> n < m" for p :: nat
  by (metis bit_take_bit_iff take_bit_nat_eq_self)

lemma PTE_ADDR_PTE:
  assumes "p < 2 ^ 40" and f: "\<And>n. bit f n \<Longrightarrow> n < 12"
  shows "PTE_ADDR (PTE (p * 4096) f) = p * 4096"
proof -
  have "PTE (p * 4096) f AND BITMASK64 51 12 = push_bit 12 (word_of_nat p)"
  proof (rule bit_word_eqI)
    fix n
    show "bit (PTE (p * 4096) f AND BITMASK64 51 12) n = bit (push_bit 12 (word_of_nat p) :: u64) n"
      using bit_nat_lessD [OF assms(1), of "n - 12"] f [of n]
      unfolding PTE_def word_of_page bit_and_iff bit_or_iff bit_page bit_BITMASK by auto
  qed
  then have "PTE_ADDR (PTE (p * 4096) f) = unat (word_of_nat (p * 4096) :: u64)" unfolding PTE_ADDR_def word_of_page by simp
  moreover have "unat (word_of_nat m :: u64) = m" if "m < 2 ^ 64" for m using that by (simp add: unat_of_nat)
  moreover have "p * 4096 < 2 ^ 64" using assms(1) by simp
  ultimately show ?thesis by metis
qed

lemma and_1_bit: "e AND 1 \<noteq> 0 \<longleftrightarrow> bit e 0" for e :: u64
  by (simp add: and_one_eq odd_iff_mod_2_eq_one [symmetric] bit_0)

lemma bit_PTE_0: "bit (PTE (p * 4096) f) 0 = bit f 0"
  unfolding PTE_def word_of_page bit_or_iff bit_page by simp

section \<open>The tree of tables\<close>

definition tbl :: "kernel \<Rightarrow> nat \<Rightarrow> u64 list" where
  "tbl k q = (case phys k q of Table es \<Rightarrow> es | _ \<Rightarrow> [])"

text \<open>The page of the table reached from the table on page \<open>q\<close> by following the entries \<open>ps\<close>.\<close>

fun node :: "kernel \<Rightarrow> nat \<Rightarrow> nat list \<Rightarrow> nat option" where
  "node k q [] = Some q"
| "node k q (i # is) = (if bit (tbl k q ! i) 0 then node k (PTE_ADDR (tbl k q ! i) div 4096) is else None)"

abbreviation path_ok :: "nat list \<Rightarrow> bool" where
  "path_ok ps \<equiv> length ps \<le> 3 \<and> (\<forall>i \<in> set ps. i < 512)"

definition is_tbl :: "kernel \<Rightarrow> nat \<Rightarrow> bool" where
  "is_tbl k q \<longleftrightarrow> q < npages k \<and> q \<notin> avail_pages k \<and> (\<exists>es. phys k q = Table es \<and> length es = 512)"

definition pt_inj :: "nat \<Rightarrow> kernel \<Rightarrow> bool" where
  "pt_inj r k \<longleftrightarrow> (\<forall>ps ps' q. path_ok ps \<longrightarrow> path_ok ps' \<longrightarrow> node k r ps = Some q \<longrightarrow> node k r ps' = Some q \<longrightarrow> ps = ps')"

definition pt_inv :: "nat \<Rightarrow> kernel \<Rightarrow> bool" where
  "pt_inv r k \<longleftrightarrow> kmem_ready k \<and> (\<forall>ps q. path_ok ps \<longrightarrow> node k r ps = Some q \<longrightarrow> is_tbl k q) \<and> pt_inj r k"

lemma pt_injD: "pt_inj r k \<Longrightarrow> path_ok ps \<Longrightarrow> path_ok ps' \<Longrightarrow> node k r ps = Some q \<Longrightarrow> node k r ps' = Some q \<Longrightarrow> ps = ps'"
  unfolding pt_inj_def by blast

lemma pt_inv_tbl: "pt_inv r k \<Longrightarrow> path_ok ps \<Longrightarrow> node k r ps = Some q \<Longrightarrow> is_tbl k q"
  unfolding pt_inv_def by blast

lemma node_append: "node k q (ps @ qs) = (case node k q ps of None \<Rightarrow> None | Some q' \<Rightarrow> node k q' qs)"
  by (induction ps arbitrary: q) auto

text \<open>A new, empty table \<open>n\<close> is entered in slot \<open>i\<close> of the table at \<open>ps\<close>.\<close>

lemma node_grow:
  assumes inv: "pt_inv r k" and q: "node k r ps = Some q" "path_ok (ps @ [i])" "\<not> bit (tbl k q ! i) 0"
    and n: "n \<in> avail_pages k" and e: "bit e 0" "PTE_ADDR e div 4096 = n"
    and k': "phys k' = (phys k)(n := Table (replicate 512 0), q := Table ((tbl k q)[i := e]))"
    and us: "node k r us = Some u" "path_ok (us @ vs)" "\<And>xs. us \<noteq> ps @ i # xs"
  shows "node k' u vs = (if us @ vs = ps @ [i] then Some n
           else if \<exists>x xs. us @ vs = ps @ i # x # xs then None else node k u vs)"
  using us
proof (induction vs arbitrary: us u)
  case Nil
  then show ?case by auto
next
  case (Cons v vs)
  have uq: "u = q \<longleftrightarrow> us = ps" using inv q Cons.prems(1,2) pt_injD [of r k us ps q] by (auto simp: pt_inv_def)
  have tu: "is_tbl k u" by (rule pt_inv_tbl [OF inv _ Cons.prems(1)]) (use Cons.prems(2) in auto)
  have tq: "is_tbl k q" by (rule pt_inv_tbl [OF inv _ q(1)]) (use q(2) in auto)
  have un: "u \<noteq> n" "q \<noteq> n" using tu tq n by (auto simp: is_tbl_def)
  have iq: "i < length (tbl k q)" using tq q(2) by (auto simp: is_tbl_def tbl_def)
  show ?case
  proof (cases "us = ps \<and> v = i")
    case True
    have "tbl k' q ! i = e" using k' un iq by (simp add: tbl_def)
    moreover have "node k' n vs = (if vs = [] then Some n else None)"
    proof (cases vs)
      case (Cons x xs)
      then have "x < 512" using Cons.prems(2) by simp
      then show ?thesis using Cons k' un by (simp add: tbl_def)
    qed simp
    ultimately show ?thesis using True uq e by (auto simp: neq_Nil_conv)
  next
    case False
    have same: "tbl k' u ! v = tbl k u ! v"
      using False uq k' un by (cases "us = ps") (auto simp: tbl_def)
    have neq: "us @ [v] \<noteq> ps @ i # xs" for xs
    proof
      assume a: "us @ [v] = ps @ i # xs"
      show False
      proof (cases xs rule: rev_cases)
        case Nil
        then show False using a False by simp
      next
        case (snoc ys y)
        then have "us = ps @ i # ys" using a by simp
        then show False using Cons.prems(3) by blast
      qed
    qed
    show ?thesis
    proof (cases "bit (tbl k u ! v) 0")
      case True
      let ?w = "PTE_ADDR (tbl k u ! v) div 4096"
      have "node k r (us @ [v]) = Some ?w" using True Cons.prems(1) by (simp add: node_append)
      from Cons.IH [OF this _ neq] Cons.prems(2) show ?thesis using True same by simp
    next
      case False
      moreover have "us @ v # vs \<noteq> ps @ [i]"
      proof
        assume "us @ v # vs = ps @ [i]"
        then have "us @ [v] = ps @ [i] \<or> (\<exists>ys. ps = us @ v # ys)" by (cases vs rule: rev_cases) auto
        then show False using neq [of "[]"] False q(1) Cons.prems(1) by (auto simp: node_append)
      qed
      ultimately show ?thesis using same by simp
    qed
  qed
qed

section \<open>Translation\<close>

text \<open>The path of a virtual page number through the levels, and the last-level entry found there (0 when a
  level is missing, as for an entry that is not present).\<close>

definition vpath :: "nat \<Rightarrow> nat list" where
  "vpath vp = [vp div 2 ^ 27 mod 512, vp div 2 ^ 18 mod 512, vp div 2 ^ 9 mod 512]"

definition xlate :: "nat \<Rightarrow> nat \<Rightarrow> kernel \<Rightarrow> u64" where
  "xlate r vp k = (case node k r (vpath vp) of None \<Rightarrow> 0 | Some q \<Rightarrow> tbl k q ! (vp mod 512))"

abbreviation (input) vkey :: "nat \<Rightarrow> nat" where
  "vkey vp \<equiv> vp mod 2 ^ 36"

lemma path_ok_vpath [simp]: "path_ok (vpath vp)"
  by (simp add: vpath_def)

lemma length_vpath [simp]: "length (vpath vp) = 3"
  by (simp only: vpath_def list.size)

lemma mod_512_digit: "m mod 2 ^ (a + 9) = m div 2 ^ a mod 512 * 2 ^ a + m mod 2 ^ a" for m :: nat
proof -
  have "(2::nat) ^ (a + 9) = 2 ^ a * 512" by (simp add: power_add)
  then show ?thesis by (simp only: mod_mult2_eq) (simp add: mult.commute)
qed

lemma div_mod_512: "m mod 2 ^ (a + b) div 2 ^ a = m div 2 ^ a mod 2 ^ b" for m :: nat
  by (simp add: power_add mod_mult2_eq)

lemma mod_mod_512: "9 \<le> a \<Longrightarrow> m mod 2 ^ a mod 512 = m mod 512" for m :: nat
proof -
  assume "9 \<le> a"
  then obtain c where "a = c + 9" using le_iff_add by (metis add.commute)
  then have "(512 :: nat) dvd 2 ^ a" by (simp add: power_add)
  then show ?thesis by (rule mod_mod_cancel)
qed

lemma vpath_key: "vpath (vkey vp) = vpath vp" "vkey vp mod 512 = vp mod 512"
proof -
  have "vkey vp div 2 ^ 27 = vp div 2 ^ 27 mod 2 ^ 9" "vkey vp div 2 ^ 18 = vp div 2 ^ 18 mod 2 ^ 18"
    "vkey vp div 2 ^ 9 = vp div 2 ^ 9 mod 2 ^ 27"
    using div_mod_512 [of vp 27 9] div_mod_512 [of vp 18 18] div_mod_512 [of vp 9 27]
    by (simp_all only: numeral_plus_numeral add_num_simps)
  moreover have "x mod 2 ^ 9 mod 512 = x mod 512" "x mod 2 ^ 18 mod 512 = x mod 512" "x mod 2 ^ 27 mod 512 = x mod 512" for x :: nat
    by (rule mod_mod_512, simp)+
  ultimately show "vpath (vkey vp) = vpath vp" unfolding vpath_def by (simp only:)
  show "vkey vp mod 512 = vp mod 512" by (rule mod_mod_512) simp
qed

lemma vkey_digits: "vkey vp = vpath vp ! 0 * 2 ^ 27 + (vpath vp ! 1 * 2 ^ 18 + (vpath vp ! 2 * 2 ^ 9 + vp mod 512))"
proof -
  have d: "vkey vp = vp div 2 ^ 27 mod 512 * 2 ^ 27 + vp mod 2 ^ 27"
    "vp mod 2 ^ 27 = vp div 2 ^ 18 mod 512 * 2 ^ 18 + vp mod 2 ^ 18"
    "vp mod 2 ^ 18 = vp div 2 ^ 9 mod 512 * 2 ^ 9 + vp mod 2 ^ 9"
    using mod_512_digit [of vp 27] mod_512_digit [of vp 18] mod_512_digit [of vp 9]
    by (simp_all only: numeral_plus_numeral add_num_simps)
  have 9: "vp mod 2 ^ 9 = vp mod 512" by simp
  have v: "vpath vp ! 0 = vp div 2 ^ 27 mod 512" "vpath vp ! 1 = vp div 2 ^ 18 mod 512" "vpath vp ! 2 = vp div 2 ^ 9 mod 512"
    by (simp_all only: vpath_def nth_Cons_0 One_nat_def nth_Cons_Suc numeral_2_eq_2)
  show ?thesis unfolding v d(1) d(2) d(3) 9 ..
qed

lemma vkey_eq_iff: "vkey vp = vkey vp' \<longleftrightarrow> vpath vp = vpath vp' \<and> vp mod 512 = vp' mod 512"
  using vkey_digits [of vp] vkey_digits [of vp'] vpath_key [of vp] vpath_key [of vp'] by metis

text \<open>Growing the tree does not change any translation.\<close>

lemma xlate_grow:
  assumes inv: "pt_inv r k" and q: "node k r ps = Some q" "path_ok (ps @ [i])" "\<not> bit (tbl k q ! i) 0"
    and n: "n \<in> avail_pages k" and e: "bit e 0" "PTE_ADDR e div 4096 = n"
    and k': "phys k' = (phys k)(n := Table (replicate 512 0), q := Table ((tbl k q)[i := e]))"
  shows "xlate r vp k' = xlate r vp k"
proof -
  have g: "node k' r (vpath vp) = (if vpath vp = ps @ [i] then Some n
      else if \<exists>x xs. vpath vp = ps @ i # x # xs then None else node k r (vpath vp))"
    using node_grow [OF inv q n e k', of "[]" r "vpath vp"] by simp
  have none: "node k r (vpath vp) = None" if "vpath vp = ps @ i # xs" for xs
    using that q by (simp add: node_append)
  have tq: "is_tbl k q" by (rule pt_inv_tbl [OF inv _ q(1)]) (use q(2) in auto)
  then have qn: "q \<noteq> n" using n by (auto simp: is_tbl_def)
  show ?thesis
  proof (cases "\<exists>xs. vpath vp = ps @ i # xs")
    case True
    then obtain xs where xs: "vpath vp = ps @ i # xs" by blast
    have "node k' r (vpath vp) = (if xs = [] then Some n else None)"
      using g [unfolded xs] unfolding xs by (cases xs) simp_all
    moreover have "tbl k' n ! (vp mod 512) = 0" using k' qn by (simp add: tbl_def)
    ultimately show ?thesis unfolding xlate_def none [OF xs] by (cases xs) simp_all
  next
    case False
    then have "vpath vp \<noteq> ps @ [i]" "\<not> (\<exists>x xs. vpath vp = ps @ i # x # xs)" by blast+
    then have g3: "node k' r (vpath vp) = node k r (vpath vp)" unfolding g by (simp only: if_False)
    show ?thesis
    proof (cases "node k r (vpath vp)")
      case (Some u)
      have len: "length ps \<le> 2" "length (vpath vp) = 3" using q(2) by simp_all
      have "u \<noteq> q"
      proof
        assume "u = q"
        then have "vpath vp = ps" using inv q Some by (intro pt_injD [of r k _ _ q]) (auto simp: pt_inv_def)
        then show False using len by simp
      qed
      moreover have "u \<noteq> n" using pt_inv_tbl [OF inv path_ok_vpath Some] n by (auto simp: is_tbl_def)
      ultimately have "tbl k' u = tbl k u" using k' by (simp add: tbl_def)
      then show ?thesis using g3 Some by (simp add: xlate_def)
    qed (simp add: xlate_def g3)
  qed
qed

lemma pt_inv_grow:
  assumes inv: "pt_inv r k" and q: "node k r ps = Some q" "path_ok (ps @ [i])" "\<not> bit (tbl k q ! i) 0"
    and n: "n \<in> avail_pages k" "n < npages k" and e: "bit e 0" "PTE_ADDR e div 4096 = n"
    and k': "phys k' = (phys k)(n := Table (replicate 512 0), q := Table ((tbl k q)[i := e]))"
      "npages k' = npages k" "avail_pages k' = avail_pages k - {n}" "kmem_ready k'"
  shows "pt_inv r k'" "node k' r (ps @ [i]) = Some n"
proof -
  have g: "node k' r vs = (if vs = ps @ [i] then Some n else if \<exists>x xs. vs = ps @ i # x # xs then None else node k r vs)"
    if "path_ok vs" for vs using node_grow [OF inv q n(1) e k'(1), of "[]" r vs] that by simp
  show "node k' r (ps @ [i]) = Some n" using g [OF q(2)] by simp
  have old: "node k r vs = Some u" if "path_ok vs" "node k' r vs = Some u" "vs \<noteq> ps @ [i]" for vs u
    using g [OF that(1)] that(2,3) by (auto split: if_splits)
  have tq: "is_tbl k q" by (rule pt_inv_tbl [OF inv _ q(1)]) (use q(2) in auto)
  have qn: "q \<noteq> n" using tq n by (auto simp: is_tbl_def)
  have lq: "length (tbl k q) = 512" using tq by (auto simp: is_tbl_def tbl_def)
  have nt: "is_tbl k' n" using n k' qn by (simp add: is_tbl_def)
  have tb: "is_tbl k' u" if "is_tbl k u" for u
    using that k' lq n by (cases "u = q") (auto simp: is_tbl_def)
  have "is_tbl k' u" if "path_ok vs" "node k' r vs = Some u" for vs u
  proof (cases "vs = ps @ [i]")
    case True
    then show ?thesis using g [OF that(1)] that(2) nt by simp
  next
    case False
    then show ?thesis using tb [OF pt_inv_tbl [OF inv that(1) old [OF that False]]] by simp
  qed
  moreover have "pt_inj r k'"
    unfolding pt_inj_def
  proof (intro allI impI)
    fix vs ws u assume v: "path_ok vs" "path_ok ws" "node k' r vs = Some u" "node k' r ws = Some u"
    have nn: "node k' r ws' \<noteq> Some n" if "path_ok ws'" "ws' \<noteq> ps @ [i]" for ws'
      using pt_inv_tbl [OF inv that(1) old [OF that(1) _ that(2)]] n(1) by (auto simp: is_tbl_def)
    show "vs = ws"
    proof (cases "u = n")
      case True
      then show ?thesis using nn v by metis
    next
      case False
      then have "vs \<noteq> ps @ [i]" "ws \<noteq> ps @ [i]" using v g [OF q(2)] by auto
      then show ?thesis using pt_injD [of r k vs ws u] old v inv by (simp add: pt_inv_def)
    qed
  qed
  ultimately show "pt_inv r k'" using k'(4) unfolding pt_inv_def by blast
qed

lemma rd_entry_tbl:
  assumes "is_tbl k q" "kmem_ready k" "i < 512"
  shows "rd_entry (KERNBASE + q * 4096) i k = Ok (tbl k q ! i) k"
proof -
  have "q < 524288" using assms(1,2) by (simp add: is_tbl_def kmem_ready_def kmem_inv_def)
  then show ?thesis using assms(1,3) by (auto simp: rd_entry_def is_tbl_def tbl_def)
qed

lemma wr_entry_tbl:
  assumes "is_tbl k q" "kmem_ready k" "i < 512"
  shows "wr_entry (KERNBASE + q * 4096) i e k = Ok () (k\<lparr>phys := (phys k)(q := Table ((tbl k q)[i := e]))\<rparr>)"
proof -
  have "q < 524288" using assms(1,2) by (simp add: is_tbl_def kmem_ready_def kmem_inv_def)
  then show ?thesis using assms(1,3) by (auto simp: wr_entry_def is_tbl_def tbl_def)
qed

lemma PTE_ADDR_aligned: "PTE_ADDR e div 4096 * 4096 = PTE_ADDR e"
proof -
  have "take_bit 12 (e AND BITMASK64 51 12) = 0"
    by (rule bit_word_eqI) (auto simp: bit_take_bit_iff bit_and_iff bit_BITMASK)
  then have "unat (take_bit 12 (e AND BITMASK64 51 12)) = 0" by simp
  then have "take_bit 12 (PTE_ADDR e) = 0" by (simp only: PTE_ADDR_def unsigned_take_bit_eq)
  then have "PTE_ADDR e mod 2 ^ 12 = 0" by (simp only: take_bit_eq_mod)
  then show ?thesis by (simp add: dvd_eq_mod_eq_0 [symmetric])
qed

lemma kmem_ready_phys [simp]: "kmem_ready (k\<lparr>phys := m\<rparr>) = kmem_ready k" "avail_pages (k\<lparr>phys := m\<rparr>) = avail_pages k"
  by (simp_all add: kmem_ready_def kmem_inv_def kmem_free_def avail_pages_def)

lemma finite_avail: "finite (avail_pages k)"
  by (simp add: avail_pages_def)

lemma PTE_rwu:
  assumes "n < 524288"
  shows "bit (PTE (n * 4096) (PTE_P OR PTE_W OR PTE_U)) 0" "PTE_ADDR (PTE (n * 4096) (PTE_P OR PTE_W OR PTE_U)) div 4096 = n"
proof -
  have 7: "PTE_P OR PTE_W OR PTE_U = mask 3" by (simp add: mask_eq_exp_minus_1)
  show "bit (PTE (n * 4096) (PTE_P OR PTE_W OR PTE_U)) 0" unfolding bit_PTE_0 7 by (simp add: bit_mask_iff)
  have "PTE_ADDR (PTE (n * 4096) (PTE_P OR PTE_W OR PTE_U)) = n * 4096"
    using assms unfolding 7 by (intro PTE_ADDR_PTE) (simp_all add: bit_mask_iff)
  then show "PTE_ADDR (PTE (n * 4096) (PTE_P OR PTE_W OR PTE_U)) div 4096 = n" by simp
qed

lemma walk_level_ok:
  assumes inv: "pt_inv r k" and q: "node k r ps = Some q" "path_ok (ps @ [i])" and av: "avail_pages k \<noteq> {}"
  shows "\<exists>q' k'. walk_level (KERNBASE + q * 4096) i True k = Ok (Some (KERNBASE + q' * 4096)) k' \<and> pt_inv r k' \<and>
    node k' r (ps @ [i]) = Some q' \<and> (\<forall>vp. xlate r vp k' = xlate r vp k) \<and>
    card (avail_pages k) \<le> Suc (card (avail_pages k')) \<and> npages k' = npages k"
proof -
  have tq: "is_tbl k q" by (rule pt_inv_tbl [OF inv _ q(1)]) (use q(2) in auto)
  have rdy: "kmem_ready k" using inv by (simp add: pt_inv_def)
  have i: "i < 512" using q(2) by simp
  note rd = rd_entry_tbl [OF tq rdy i]
  show ?thesis
  proof (cases "bit (tbl k q ! i) 0")
    case True
    let ?c = "PTE_ADDR (tbl k q ! i) div 4096"
    have c: "node k r (ps @ [i]) = Some ?c" using True q(1) by (simp add: node_append)
    have "is_tbl k ?c" using pt_inv_tbl [OF inv q(2) c] .
    then have "?c < 524288" using rdy by (simp add: is_tbl_def kmem_ready_def kmem_inv_def)
    then have "P2V (PTE_ADDR (tbl k q ! i)) = KERNBASE + ?c * 4096"
      using page_addr(3) [of ?c] PTE_ADDR_aligned by simp
    then have "walk_level (KERNBASE + q * 4096) i True k = Ok (Some (KERNBASE + ?c * 4096)) k"
      using True rd by (simp add: walk_level_def and_1_bit)
    then show ?thesis using inv c by (intro exI [of _ ?c] exI [of _ k]) simp
  next
    case False
    obtain n where n: "kalloc k = Ok (KERNBASE + n * 4096) (kalloc_entry n k)" "n \<in> avail_pages k"
      "kmem_ready (kalloc_entry n k)" "avail_pages (kalloc_entry n k) = avail_pages k - {n}"
      using kalloc_ready [OF rdy av] by blast
    have np: "n < npages k" "npages k < 524288" using n(2) rdy by (auto simp: avail_pages_def kmem_ready_def kmem_inv_def)
    have qn: "q \<noteq> n" using tq n(2) by (auto simp: is_tbl_def)
    let ?e = "PTE (n * 4096) (PTE_P OR PTE_W OR PTE_U)"
    let ?k2 = "clear_table (KERNBASE + n * 4096) (kalloc_entry n k)"
    let ?k3 = "?k2\<lparr>phys := (phys ?k2)(q := Table ((tbl ?k2 q)[i := ?e]))\<rparr>"
    have ph2: "phys ?k2 = (phys k)(n := Table (replicate 512 0))" "npages ?k2 = npages k" "avail_pages ?k2 = avail_pages k - {n}"
      "kmem_ready ?k2" using n np by (simp_all add: clear_table_def)
    have t2: "is_tbl ?k2 q" "tbl ?k2 q = tbl k q" using tq qn ph2 by (simp_all add: is_tbl_def tbl_def)
    have w: "walk_level (KERNBASE + q * 4096) i True k = Ok (Some (KERNBASE + n * 4096)) ?k3"
      using False rd n(1) np wr_entry_tbl [OF t2(1) ph2(4) i] by (simp add: walk_level_def and_1_bit)
    have ph3: "phys ?k3 = (phys k)(n := Table (replicate 512 0), q := Table ((tbl k q)[i := ?e]))" "npages ?k3 = npages k"
      "avail_pages ?k3 = avail_pages k - {n}" "kmem_ready ?k3" using ph2 t2(2) by simp_all
    have e: "bit ?e 0" "PTE_ADDR ?e div 4096 = n" using np PTE_rwu [of n] by simp_all
    have "card (avail_pages k) \<le> Suc (card (avail_pages ?k3))" using n(2) finite_avail [of k] unfolding ph3(3) by (simp add: card_Suc_Diff1)
    then show ?thesis
      using w pt_inv_grow [OF inv q False n(2) np(1) e ph3] xlate_grow [OF inv q False n(2) e ph3(1)] ph3(2) by blast
  qed
qed

lemma vpath_indices:
  assumes "vp < 2 ^ 52"
  shows "[PML4_INDEX (w64 (vp * 4096)), PDPT_INDEX (w64 (vp * 4096)), PD_INDEX (w64 (vp * 4096))] = vpath vp"
    "PT_INDEX (w64 (vp * 4096)) = vp mod 512"
proof -
  have w: "w64 (vp * 4096) = vp * 2 ^ 12" using assms by simp
  have d: "vp * 2 ^ 12 div 2 ^ (a + 12) = vp div 2 ^ a" for a by (simp add: power_add div_mult2_eq mult.commute [of "2 ^ a"])
  have "vp * 2 ^ 12 div 2 ^ 39 = vp div 2 ^ 27" "vp * 2 ^ 12 div 2 ^ 30 = vp div 2 ^ 18" "vp * 2 ^ 12 div 2 ^ 21 = vp div 2 ^ 9"
    using d [of 27] d [of 18] d [of 9] by (simp_all only: numeral_plus_numeral add_num_simps)
  then show "[PML4_INDEX (w64 (vp * 4096)), PDPT_INDEX (w64 (vp * 4096)), PD_INDEX (w64 (vp * 4096))] = vpath vp"
    unfolding w PML4_INDEX_def PDPT_INDEX_def PD_INDEX_def vpath_def by (simp only:)
  have "vp * 2 ^ 12 div 2 ^ 12 = vp" by (rule div_mult_self_is_m) simp
  then show "PT_INDEX (w64 (vp * 4096)) = vp mod 512" unfolding w PT_INDEX_def by (simp only:)
qed

lemma walkpml4_ok:
  assumes inv: "pt_inv r k" and vp: "vp < 2 ^ 52" and av: "3 \<le> card (avail_pages k)"
  shows "\<exists>q k'. walkpml4 (KERNBASE + r * 4096) (w64 (vp * 4096)) True k = Ok (Some (KERNBASE + q * 4096, vp mod 512)) k' \<and>
    pt_inv r k' \<and> node k' r (vpath vp) = Some q \<and> (\<forall>v. xlate r v k' = xlate r v k) \<and>
    card (avail_pages k) \<le> card (avail_pages k') + 3 \<and> npages k' = npages k"
proof -
  obtain a b c where abc: "vpath vp = [a, b, c]" "PML4_INDEX (w64 (vp * 4096)) = a" "PDPT_INDEX (w64 (vp * 4096)) = b"
    "PD_INDEX (w64 (vp * 4096)) = c" "PT_INDEX (w64 (vp * 4096)) = vp mod 512" "a < 512" "b < 512" "c < 512"
    using vpath_indices [OF vp, symmetric] path_ok_vpath [of vp] by (metis list.set_intros)
  have ne: "avail_pages j \<noteq> {}" if "0 < card (avail_pages j)" for j using that by auto
  obtain q1 k1 where k1: "walk_level (KERNBASE + r * 4096) a True k = Ok (Some (KERNBASE + q1 * 4096)) k1" "pt_inv r k1"
    "node k1 r [a] = Some q1" "\<And>v. xlate r v k1 = xlate r v k" "card (avail_pages k) \<le> Suc (card (avail_pages k1))" "npages k1 = npages k"
    using walk_level_ok [OF inv, of "[]" r a] ne av abc(6) by auto
  obtain q2 k2 where k2: "walk_level (KERNBASE + q1 * 4096) b True k1 = Ok (Some (KERNBASE + q2 * 4096)) k2" "pt_inv r k2"
    "node k2 r [a, b] = Some q2" "\<And>v. xlate r v k2 = xlate r v k1" "card (avail_pages k1) \<le> Suc (card (avail_pages k2))" "npages k2 = npages k1"
    using walk_level_ok [OF k1(2,3), of b] ne [of k1] k1(5) av abc(6,7) by auto
  obtain q3 k3 where k3: "walk_level (KERNBASE + q2 * 4096) c True k2 = Ok (Some (KERNBASE + q3 * 4096)) k3" "pt_inv r k3"
    "node k3 r [a, b, c] = Some q3" "\<And>v. xlate r v k3 = xlate r v k2" "card (avail_pages k2) \<le> Suc (card (avail_pages k3))" "npages k3 = npages k2"
    using walk_level_ok [OF k2(2,3), of c] ne [of k2] k1(5) k2(5) av abc(6-8) by auto
  have "walkpml4 (KERNBASE + r * 4096) (w64 (vp * 4096)) True k = Ok (Some (KERNBASE + q3 * 4096, vp mod 512)) k3"
    unfolding walkpml4_def abc(2-5) using k1(1) k2(1) k3(1) by simp
  then show ?thesis using k1 k2 k3 abc(1) by (intro exI [of _ q3] exI [of _ k3]) simp
qed

text \<open>Writing a last-level entry changes one translation and leaves the tree as it is.\<close>

lemma node_leaf:
  assumes inv: "pt_inv r k" and q: "node k r (vpath vp) = Some q"
    and k': "phys k' = (phys k)(q := Table es)"
  shows "node k r us = Some u \<Longrightarrow> path_ok (us @ vs) \<Longrightarrow> node k' u vs = node k u vs"
proof (induction vs arbitrary: us u)
  case (Cons v vs)
  have "length us < length (vpath vp)" using Cons.prems(2) by simp
  then have "us \<noteq> vpath vp" by auto
  then have "u \<noteq> q" using inv q Cons.prems pt_injD [of r k us "vpath vp" q] by (auto simp: pt_inv_def)
  then have t: "tbl k' u = tbl k u" using k' by (simp add: tbl_def)
  show ?case
  proof (cases "bit (tbl k u ! v) 0")
    case True
    then have "node k r (us @ [v]) = Some (PTE_ADDR (tbl k u ! v) div 4096)" using Cons.prems(1) by (simp add: node_append)
    from Cons.IH [OF this] Cons.prems(2) show ?thesis by (simp add: t)
  qed (simp add: t)
qed simp

lemma wr_leaf:
  assumes inv: "pt_inv r k" and q: "node k r (vpath vp) = Some q"
    and k': "phys k' = (phys k)(q := Table ((tbl k q)[vp mod 512 := e]))" "npages k' = npages k"
      "avail_pages k' = avail_pages k" "kmem_ready k'"
  shows "pt_inv r k'" "xlate r v k' = (if vkey v = vkey vp then e else xlate r v k)"
proof -
  have tq: "is_tbl k q" using pt_inv_tbl [OF inv path_ok_vpath q] .
  have lq: "length (tbl k q) = 512" using tq by (auto simp: is_tbl_def tbl_def)
  have nd: "node k' r vs = node k r vs" if "path_ok vs" for vs using node_leaf [OF inv q k'(1), of "[]" r vs] that by simp
  have "is_tbl k' u" if "is_tbl k u" for u using that k' lq by (cases "u = q") (auto simp: is_tbl_def)
  then show "pt_inv r k'" using inv nd k'(4) by (simp add: pt_inv_def pt_inj_def)
  show "xlate r v k' = (if vkey v = vkey vp then e else xlate r v k)"
  proof (cases "node k r (vpath v)")
    case None
    then have "vpath v \<noteq> vpath vp" using q by auto
    then show ?thesis using None nd [OF path_ok_vpath, of v] by (simp add: xlate_def vkey_eq_iff del: power_numeral)
  next
    case (Some u)
    have "u = q \<longleftrightarrow> vpath v = vpath vp" using inv Some q pt_injD [of r k "vpath v" "vpath vp" q] by (auto simp: pt_inv_def)
    then show ?thesis using Some nd [OF path_ok_vpath, of v] k'(1) lq
      by (auto simp: xlate_def vkey_eq_iff tbl_def nth_list_update simp del: power_numeral)
  qed
qed

section \<open>The contract of a map of pages\<close>

text \<open>Mapping a page that is free enters its translation and changes no other, at a bounded cost in memory.\<close>

locale address_map =
  fixes map1 :: "nat \<Rightarrow> nat \<Rightarrow> 's \<Rightarrow> ('s, unit) res"
    and look :: "nat \<Rightarrow> 's \<Rightarrow> 'e"
    and key :: "nat \<Rightarrow> nat"
    and ent :: "nat \<Rightarrow> 'e"
    and free :: "'e \<Rightarrow> bool"
    and fits :: "nat \<Rightarrow> nat \<Rightarrow> 's \<Rightarrow> bool"
    and room :: "'s \<Rightarrow> nat"
    and cost :: nat
    and inv :: "'s \<Rightarrow> bool"
  assumes map1: "inv s \<Longrightarrow> fits vp pp s \<Longrightarrow> cost \<le> room s \<Longrightarrow> free (look vp s) \<Longrightarrow>
      \<exists>s'. map1 vp pp s = Ok () s' \<and> inv s' \<and> room s \<le> room s' + cost \<and> (\<forall>v p. fits v p s' = fits v p s) \<and>
        (\<forall>v. look v s' = (if key v = key vp then ent pp else look v s))"
begin

primrec map_n :: "nat \<Rightarrow> nat \<Rightarrow> nat \<Rightarrow> 's \<Rightarrow> ('s, unit) res" where
  "map_n 0 vp pp s = Ok () s"
| "map_n (Suc n) vp pp s = bnd (map1 vp pp s) (\<lambda>_ s. map_n n (vp + 1) (pp + 1) s)"

lemma map_n_ok:
  "inv s \<Longrightarrow> (\<And>i. i < n \<Longrightarrow> fits (vp + i) (pp + i) s \<and> free (look (vp + i) s)) \<Longrightarrow>
     inj_on key {vp ..< vp + n} \<Longrightarrow> n * cost \<le> room s \<Longrightarrow>
     \<exists>s'. map_n n vp pp s = Ok () s' \<and> inv s' \<and> room s \<le> room s' + n * cost \<and>
       (\<forall>i < n. look (vp + i) s' = ent (pp + i)) \<and>
       (\<forall>v. (\<forall>i < n. key v \<noteq> key (vp + i)) \<longrightarrow> look v s' = look v s)"
proof (induction n arbitrary: vp pp s)
  case (Suc n)
  have "fits vp pp s" "free (look vp s)" "cost \<le> room s" using Suc.prems(2) [of 0] Suc.prems(4) by auto
  then obtain s1 where s1: "map1 vp pp s = Ok () s1" "inv s1" "room s \<le> room s1 + cost" "\<And>v p. fits v p s1 = fits v p s"
    "\<And>v. look v s1 = (if key v = key vp then ent pp else look v s)" using map1 [OF Suc.prems(1)] by blast
  have key: "key (vp + 1 + i) \<noteq> key vp" if "i < n" for i
    using inj_onD [OF Suc.prems(3), of "vp + 1 + i" vp] that by auto
  have "inj_on key {vp + 1 ..< vp + 1 + n}" using Suc.prems(3) by (rule inj_on_subset) auto
  moreover have "fits (vp + 1 + i) (pp + 1 + i) s1 \<and> free (look (vp + 1 + i) s1)" if "i < n" for i
    using Suc.prems(2) [of "Suc i"] that key [OF that] by (simp add: s1)
  moreover have "n * cost \<le> room s1" using Suc.prems(4) s1(3) by simp
  ultimately obtain s2 where s2: "map_n n (vp + 1) (pp + 1) s1 = Ok () s2" "inv s2" "room s1 \<le> room s2 + n * cost"
    "\<And>i. i < n \<Longrightarrow> look (vp + 1 + i) s2 = ent (pp + 1 + i)"
    "\<And>v. (\<And>i. i < n \<Longrightarrow> key v \<noteq> key (vp + 1 + i)) \<Longrightarrow> look v s2 = look v s1"
    using Suc.IH [OF s1(2), of "vp + 1" "pp + 1"] by blast
  have "look (vp + i) s2 = ent (pp + i)" if "i < Suc n" for i
  proof (cases i)
    case 0
    have "look vp s2 = look vp s1" using key by (intro s2(5)) metis
    then show ?thesis using 0 s1(5) by simp
  qed (use s2(4) that in simp)
  moreover have "look v s2 = look v s" if "\<forall>i < Suc n. key v \<noteq> key (vp + i)" for v
  proof -
    have "look v s2 = look v s1" using that by (intro s2(5)) (metis Suc_less_eq add_Suc_right add_Suc plus_1_eq_Suc add.commute)
    then show ?thesis using s1(5) that [rule_format, of 0] by simp
  qed
  moreover have "room s \<le> room s2 + Suc n * cost" using s1(3) s2(3) by simp
  ultimately show ?case using s1(1) s2(1,2) by auto
qed (simp add: Suc_le_eq)

end

lemma tree_core_map [simp]: "tbl (k\<lparr>core_map := c\<rparr>) = tbl k" "node (k\<lparr>core_map := c\<rparr>) q ps = node k q ps"
  "xlate r v (k\<lparr>core_map := c\<rparr>) = xlate r v k"
proof -
  show t: "tbl (k\<lparr>core_map := c\<rparr>) = tbl k" by (simp add: tbl_def fun_eq_iff)
  show nd: "node (k\<lparr>core_map := c\<rparr>) q ps = node k q ps" for q ps by (induction ps arbitrary: q) (simp_all add: t)
  show "xlate r v (k\<lparr>core_map := c\<rparr>) = xlate r v k" unfolding xlate_def nd t ..
qed

lemma mark_user_ok:
  assumes inv: "pt_inv r k" and p: "p < npages k"
  shows "\<exists>k'. mark_user_mem (p * 4096) va k = Ok () k' \<and> pt_inv r k' \<and> avail_pages k' = avail_pages k \<and>
    npages k' = npages k \<and> (\<forall>v. xlate r v k' = xlate r v k)"
proof -
  let ?k = "k\<lparr>core_map := (core_map k)[p := (core_map k ! p)\<lparr>user := 1, cm_va := va\<rparr>]\<rparr>"
  have rdy: "kmem_inv k" "kmem_ready k" using inv by (simp_all add: pt_inv_def kmem_ready_def)
  have "p < length (core_map k)" using p rdy(1) by (simp add: kmem_inv_def)
  then have av: "avail_pages ?k = avail_pages k" by (auto simp: avail_pages_def nth_list_update split: if_splits)
  have "kmem_inv ?k" using rdy p kmem_inv_entry [OF rdy(1), of p]
    by (intro kmem_inv_update [OF rdy(1), of p "(core_map k ! p)\<lparr>user := 1, cm_va := va\<rparr>"]) (auto simp: kmem_inv_def)
  then have "kmem_ready ?k" using rdy(2) av by (simp add: kmem_ready_def kmem_free_def)
  then have "pt_inv r ?k" using inv av by (simp add: pt_inv_def pt_inj_def is_tbl_def)
  moreover have "mark_user_mem (p * 4096) va k = Ok () ?k" using p by (simp add: mark_user_mem_def pa2page_def)
  ultimately show ?thesis using av by (intro exI [of _ ?k]) simp
qed

abbreviation page_fits :: "bool \<Rightarrow> nat \<Rightarrow> nat \<Rightarrow> kernel \<Rightarrow> bool" where
  "page_fits kern vp pp k \<equiv> vp < 2 ^ 52 \<and> pp < 2 ^ 52 \<and> (kern \<or> pp < npages k)"

lemma mappage_ok:
  assumes inv: "pt_inv r k" and fits: "page_fits kern vp pp k" and av: "3 \<le> card (avail_pages k)"
    and un: "\<not> bit (xlate r vp k) 0"
  shows "\<exists>k'. mappage (KERNBASE + r * 4096) vp pp perm kern k = Ok () k' \<and> pt_inv r k' \<and>
    card (avail_pages k) \<le> card (avail_pages k') + 3 \<and> npages k' = npages k \<and>
    (\<forall>v. xlate r v k' = (if vkey v = vkey vp then PTE (pp * 4096) perm else xlate r v k))"
proof -
  obtain q k1 where k1: "walkpml4 (KERNBASE + r * 4096) (w64 (vp * 4096)) True k = Ok (Some (KERNBASE + q * 4096, vp mod 512)) k1"
    "pt_inv r k1" "node k1 r (vpath vp) = Some q" "\<And>v. xlate r v k1 = xlate r v k"
    "card (avail_pages k) \<le> card (avail_pages k1) + 3" "npages k1 = npages k"
    using walkpml4_ok [OF inv _ av, of vp] fits by blast
  have tq: "is_tbl k1 q" using pt_inv_tbl [OF k1(2) path_ok_vpath k1(3)] .
  have rdy: "kmem_ready k1" using k1(2) by (simp add: pt_inv_def)
  have i: "vp mod 512 < 512" by simp
  let ?k2 = "k1\<lparr>phys := (phys k1)(q := Table ((tbl k1 q)[vp mod 512 := PTE (pp * 4096) perm]))\<rparr>"
  have w: "w64 (pp * 4096) = pp * 4096" using fits by simp
  have "\<not> bit (tbl k1 q ! (vp mod 512)) 0" using un k1(3) k1(4) [of vp] by (simp add: xlate_def)
  then have m: "mappage (KERNBASE + r * 4096) vp pp perm kern k =
      (if \<not> kern then mark_user_mem (pp * 4096) (w64 (vp * 4096)) ?k2 else Ok () ?k2)"
    using k1(1) rd_entry_tbl [OF tq rdy i] wr_entry_tbl [OF tq rdy i] by (simp add: mappage_def and_1_bit w)
  note leaf = wr_leaf [OF k1(2,3), of ?k2 "PTE (pp * 4096) perm"]
  show ?thesis
  proof (cases kern)
    case True
    then show ?thesis using m leaf rdy k1(4-6) by (intro exI [of _ ?k2]) simp
  next
    case False
    have "pt_inv r ?k2" "pp < npages ?k2" using leaf(1) rdy fits False k1(6) by simp_all
    from mark_user_ok [OF this, of "w64 (vp * 4096)"] show ?thesis using m leaf(2) rdy k1(4-6) False by auto
  qed
qed

interpretation page_map: address_map "\<lambda>vp pp. mappage (KERNBASE + r * 4096) vp pp flags kern" "xlate r" vkey
    "\<lambda>pp. PTE (pp * 4096) flags" "\<lambda>e. \<not> bit e 0" "page_fits kern" "\<lambda>k. card (avail_pages k)" 3 "pt_inv r" for r flags kern
proof
  fix k vp pp
  assume "pt_inv r k" "page_fits kern vp pp k" "3 \<le> card (avail_pages k)" "\<not> bit (xlate r vp k) 0"
  from mappage_ok [OF this, of flags] obtain k' where k': "mappage (KERNBASE + r * 4096) vp pp flags kern k = Ok () k'" "pt_inv r k'"
    "card (avail_pages k) \<le> card (avail_pages k') + 3" "npages k' = npages k"
    "\<forall>v. xlate r v k' = (if vkey v = vkey vp then PTE (pp * 4096) flags else xlate r v k)" by blast
  then show "\<exists>k'. mappage (KERNBASE + r * 4096) vp pp flags kern k = Ok () k' \<and> pt_inv r k' \<and>
      card (avail_pages k) \<le> card (avail_pages k') + 3 \<and> (\<forall>v p. page_fits kern v p k' = page_fits kern v p k) \<and>
      (\<forall>v. xlate r v k' = (if vkey v = vkey vp then PTE (pp * 4096) flags else xlate r v k))" by (intro exI [of _ k']) simp
qed

lemma mappages_loop_eq:
  "vp + n \<le> 2 ^ 52 \<Longrightarrow> pp + n \<le> 2 ^ 52 \<Longrightarrow>
     mappages_loop n (KERNBASE + r * 4096) vp pp flags kern k = page_map.map_n r flags kern n vp pp k"
proof (induction n arbitrary: vp pp k)
  case (Suc n)
  have w: "w64 (vp + 1) = vp + 1" "w64 (pp + 1) = pp + 1" using Suc.prems by simp_all
  have "mappages_loop n (KERNBASE + r * 4096) (vp + 1) (pp + 1) flags kern = page_map.map_n r flags kern n (vp + 1) (pp + 1)"
    using Suc.prems by (intro ext Suc.IH) simp_all
  then show ?case unfolding mappages_loop.simps page_map.map_n.simps w by (simp only:)
qed simp

lemma inj_vkey:
  assumes "n \<le> 2 ^ 36"
  shows "inj_on vkey {vp ..< vp + n}"
proof -
  have "\<not> vkey x = vkey y" if "x < y" "y < x + 2 ^ 36" for x y :: nat
  proof
    assume "vkey x = vkey y"
    then have "2 ^ 36 dvd y - x" using that(1) mod_eq_dvd_iff_nat [of x y "2 ^ 36"] by simp
    moreover have "0 < y - x" using that(1) by simp
    ultimately have "2 ^ 36 \<le> y - x" by (rule dvd_imp_le)
    with that show False by linarith
  qed
  note ne = this
  show ?thesis
  proof (rule inj_onI)
    fix x y assume "x \<in> {vp ..< vp + n}" "y \<in> {vp ..< vp + n}" "vkey x = vkey y"
    then have "\<not> x < y" "\<not> y < x" using ne [of x y] ne [of y x] assms by (auto simp del: power_numeral)
    then show "x = y" by simp
  qed
qed

lemma walk_level_read:
  assumes inv: "pt_inv r k" and q: "node k r ps = Some q" "path_ok (ps @ [i])"
  shows "walk_level (KERNBASE + q * 4096) i False k = Ok (map_option (\<lambda>c. KERNBASE + c * 4096) (node k r (ps @ [i]))) k"
proof -
  have tq: "is_tbl k q" by (rule pt_inv_tbl [OF inv _ q(1)]) (use q(2) in auto)
  have rdy: "kmem_ready k" using inv by (simp add: pt_inv_def)
  have i: "i < 512" using q(2) by simp
  note rd = rd_entry_tbl [OF tq rdy i]
  show ?thesis
  proof (cases "bit (tbl k q ! i) 0")
    case True
    let ?c = "PTE_ADDR (tbl k q ! i) div 4096"
    have c: "node k r (ps @ [i]) = Some ?c" using True q(1) by (simp add: node_append)
    have "?c < 524288" using pt_inv_tbl [OF inv q(2) c] rdy by (simp add: is_tbl_def kmem_ready_def kmem_inv_def)
    then have "P2V (PTE_ADDR (tbl k q ! i)) = KERNBASE + ?c * 4096" using page_addr(3) [of ?c] PTE_ADDR_aligned by simp
    then show ?thesis using True rd c by (simp add: walk_level_def and_1_bit)
  next
    case False
    then show ?thesis using rd q(1) by (simp add: walk_level_def and_1_bit node_append)
  qed
qed

text \<open>A walk that does not allocate finds the last-level entry that \<open>xlate\<close> denotes.\<close>

lemma walkpml4_read:
  assumes inv: "pt_inv r k" and vp: "vp < 2 ^ 52"
  shows "walkpml4 (KERNBASE + r * 4096) (w64 (vp * 4096)) False k =
    Ok (map_option (\<lambda>q. (KERNBASE + q * 4096, vp mod 512)) (node k r (vpath vp))) k"
proof -
  obtain a b c where abc: "vpath vp = [a, b, c]" "PML4_INDEX (w64 (vp * 4096)) = a" "PDPT_INDEX (w64 (vp * 4096)) = b"
    "PD_INDEX (w64 (vp * 4096)) = c" "PT_INDEX (w64 (vp * 4096)) = vp mod 512" "a < 512" "b < 512" "c < 512"
    using vpath_indices [OF vp, symmetric] path_ok_vpath [of vp] by (metis list.set_intros)
  have l1: "walk_level (KERNBASE + r * 4096) a False k = Ok (map_option (\<lambda>c. KERNBASE + c * 4096) (node k r [a])) k"
    using walk_level_read [OF inv, of "[]" r a] abc(6) by simp
  have l2: "walk_level (KERNBASE + q * 4096) b False k = Ok (map_option (\<lambda>c. KERNBASE + c * 4096) (node k r [a, b])) k"
    if "node k r [a] = Some q" for q using walk_level_read [OF inv that, of b] abc(6,7) by simp
  have l3: "walk_level (KERNBASE + q * 4096) c False k = Ok (map_option (\<lambda>c. KERNBASE + c * 4096) (node k r [a, b, c])) k"
    if "node k r [a, b] = Some q" for q using walk_level_read [OF inv that, of c] abc(6-8) by simp
  show ?thesis
  proof (cases "node k r [a]")
    case None
    then have "node k r [a, b, c] = None" using node_append [of k r "[a]" "[b, c]"] by simp
    then show ?thesis unfolding walkpml4_def abc(1-5) l1 None by simp
  next
    case 1: (Some q1)
    show ?thesis
    proof (cases "node k r [a, b]")
      case None
      then have "node k r [a, b, c] = None" using node_append [of k r "[a, b]" "[c]"] by simp
      then show ?thesis unfolding walkpml4_def abc(1-5) l1 using 1 None l2 [OF 1] by simp
    next
      case (Some q2)
      then show ?thesis unfolding walkpml4_def abc(1-5) l1 using 1 l2 [OF 1] l3 [OF Some]
        by (cases "node k r [a, b, c]") simp_all
    qed
  qed
qed

lemma walk_reads_xlate:
  assumes inv: "pt_inv r k" and vp: "vp < 2 ^ 52"
  shows "bnd (walkpml4 (KERNBASE + r * 4096) (w64 (vp * 4096)) False k)
      (\<lambda>e k. case e of None \<Rightarrow> Ok 0 k | Some (t, j) \<Rightarrow> rd_entry t j k) = Ok (xlate r vp k) k"
proof (cases "node k r (vpath vp)")
  case None
  then show ?thesis using walkpml4_read [OF assms] by (simp add: xlate_def)
next
  case (Some q)
  have "is_tbl k q" "kmem_ready k" using pt_inv_tbl [OF inv path_ok_vpath Some] inv by (simp_all add: pt_inv_def)
  then show ?thesis using walkpml4_read [OF assms] rd_entry_tbl [of k q "vp mod 512"] Some by (simp add: xlate_def)
qed

section \<open>Properties\<close>

text \<open>C9: \<open>mappages\<close> enters exactly the translations it is asked for: on a well-formed tree of page tables, with
  enough free memory for the tables it may have to add, mapping \<open>n\<close> pages that are not mapped returns 0
  (it never panics), their entries then hold the physical pages and permissions, every other translation is
  what it was, and the tables still form a tree whose pages are not free. The translation is what
  \<open>walkpml4\<close> reads.\<close>

theorem mappages_maps:
  assumes inv: "pt_inv r k" and n: "n \<le> 2 ^ 36" "vp + n \<le> 2 ^ 52" "pp + n \<le> 2 ^ 52" "kern \<or> pp + n \<le> npages k"
    and av: "3 * n \<le> card (avail_pages k)" and un: "\<And>i. i < n \<Longrightarrow> \<not> bit (xlate r (vp + i) k) 0"
  shows "\<exists>k'. mappages (KERNBASE + r * 4096) vp (int n) pp flags kern k = Ok 0 k' \<and> pt_inv r k' \<and>
    (\<forall>i < n. xlate r (vp + i) k' = PTE ((pp + i) * 4096) flags) \<and>
    (\<forall>v. (\<forall>i < n. v mod 2 ^ 36 \<noteq> (vp + i) mod 2 ^ 36) \<longrightarrow> xlate r v k' = xlate r v k) \<and>
    (\<forall>v < 2 ^ 52. bnd (walkpml4 (KERNBASE + r * 4096) (w64 (v * 4096)) False k')
       (\<lambda>e k. case e of None \<Rightarrow> Ok 0 k | Some (t, j) \<Rightarrow> rd_entry t j k) = Ok (xlate r v k') k')"
proof -
  have fit: "page_fits kern (vp + i) (pp + i) k \<and> \<not> bit (xlate r (vp + i) k) 0" if "i < n" for i
    using that n un [OF that] by (auto simp del: power_numeral)
  have "\<exists>k'. page_map.map_n r flags kern n vp pp k = Ok () k' \<and> pt_inv r k' \<and> card (avail_pages k) \<le> card (avail_pages k') + n * 3 \<and>
      (\<forall>i < n. xlate r (vp + i) k' = PTE ((pp + i) * 4096) flags) \<and>
      (\<forall>v. (\<forall>i < n. vkey v \<noteq> vkey (vp + i)) \<longrightarrow> xlate r v k' = xlate r v k)"
    using av by (intro page_map.map_n_ok inv fit inj_vkey n(1)) (simp_all add: mult.commute)
  then obtain k' where k': "page_map.map_n r flags kern n vp pp k = Ok () k'" "pt_inv r k'"
    "\<forall>i < n. xlate r (vp + i) k' = PTE ((pp + i) * 4096) flags"
    "\<forall>v. (\<forall>i < n. vkey v \<noteq> vkey (vp + i)) \<longrightarrow> xlate r v k' = xlate r v k" by blast
  have "mappages (KERNBASE + r * 4096) vp (int n) pp flags kern k = Ok 0 k'"
    using k'(1) mappages_loop_eq [OF n(2,3)] by (simp add: mappages_def)
  then show ?thesis using k' walk_reads_xlate [OF k'(2)] by (intro exI [of _ k']) blast
qed

definition k0_pml4 :: kernel where
  "k0_pml4 = k0\<lparr>phys := (phys k0)(0 := Table (replicate 512 0))\<rparr>"

lemma pt_inv_k0: "pt_inv 0 k0_pml4" "xlate 0 v k0_pml4 = 0"
proof -
  have t: "tbl k0_pml4 0 = replicate 512 0" by (simp add: tbl_def k0_pml4_def)
  have nd: "node k0_pml4 0 ps = (if ps = [] then Some 0 else None)" if "path_ok ps" for ps
    using that by (cases ps) (simp_all add: t)
  have "is_tbl k0_pml4 0" using avail_pages_k0 by (simp add: is_tbl_def k0_pml4_def) (simp add: k0_def)
  moreover have "ps = [] \<and> q = 0" if "path_ok ps" "node k0_pml4 0 ps = Some q" for ps q
    using nd [OF that(1)] that(2) by (cases ps) simp_all
  moreover have "kmem_ready k0_pml4" using kmem_ready_k0 by (simp add: k0_pml4_def)
  ultimately show "pt_inv 0 k0_pml4" unfolding pt_inv_def pt_inj_def by blast
  have "vpath v \<noteq> []" by (simp only: vpath_def list.distinct not_False_eq_True)
  then show "xlate 0 v k0_pml4 = 0" using nd [OF path_ok_vpath, of v] by (simp add: xlate_def)
qed

theorem mappages_maps_witness:
  "\<exists>k'. mappages KERNBASE 3 1 2 7 False k0_pml4 = Ok 0 k' \<and> pt_inv 0 k' \<and> xlate 0 3 k' = PTE 8192 7 \<and> xlate 0 4 k' = 0"
proof -
  have "card (avail_pages k0_pml4) = 4" using avail_pages_k0 by (simp add: k0_pml4_def)
  then show ?thesis
    using mappages_maps [OF pt_inv_k0(1), of 1 3 2 False 7] pt_inv_k0(2) by (auto simp: k0_pml4_def k0_def)
qed

end
