(* ===== verification/Sched.thy ===== *)
theory Sched
  imports Kalloc
begin

text \<open>
  The scheduling half of \<open>kernel/proc.c\<close>: \<open>sched\<close>, \<open>yield\<close>, \<open>sleep\<close>, \<open>wakeup\<close>, \<open>kill\<close> and
  \<open>findproc\<close>, and \<open>kernel/sleeplock.c\<close>. A call of \<open>sched\<close> that
  reaches the context switch ends the operation with \<open>Sleeps\<close> and the state the scheduler takes
  over; what the process does when it is switched to again is a separate definition (\<open>sleep_wake\<close>,
  \<open>yield_wake\<close>).
\<close>

section \<open>The current process\<close>

definition upd_proc :: "nat \<Rightarrow> (proc \<Rightarrow> proc) \<Rightarrow> kernel \<Rightarrow> kernel" where
  "upd_proc i f k = k\<lparr>ptable := (ptable k)[i := f (ptable k ! i)]\<rparr>"

text \<open>\<open>myproc()\<close>, dereferenced.\<close>

definition myproc :: "kernel \<Rightarrow> (kernel, nat) res" where
  "myproc k = (case curproc k of None \<Rightarrow> Undef ''null process'' | Some i \<Rightarrow> Ok i k)"

lemma myproc_Some [simp]: "curproc k = Some i \<Longrightarrow> myproc k = Ok i k"
  by (simp add: myproc_def)

lemma upd_proc_frame [simp]:
  "held (upd_proc i f k) = held k" "curproc (upd_proc i f k) = curproc k"
  "length (ptable (upd_proc i f k)) = length (ptable k)"
  by (simp_all add: upd_proc_def)

section \<open>Giving up the processor\<close>

text \<open>The test of the interrupt flag is the test that no lock is held: interrupts are masked
  exactly while the processor holds a lock (\<open>smp_inv\<close>).\<close>

definition sched :: "kernel \<Rightarrow> (kernel, unit) res" where
  "sched k =
     (if \<not> holding PtableLock k then Panic ''sched ptable.lock''
      else if card (held k) \<noteq> 1 then Panic ''sched locks''
      else bnd (myproc k) (\<lambda>p k.
        if p_state (ptable k ! p) = RUNNING then Panic ''sched running''
        else if held k = {} then Panic ''sched interruptible''
        else Sleeps k))"

definition yield :: "kernel \<Rightarrow> (kernel, unit) res" where
  "yield k =
     bnd (acquire PtableLock k) (\<lambda>_ k.
     bnd (myproc k) (\<lambda>p k.
     sched (upd_proc p (\<lambda>q. q\<lparr>p_state := RUNNABLE\<rparr>) k)))"

definition yield_wake :: "kernel \<Rightarrow> (kernel, unit) res" where
  "yield_wake k = release PtableLock k"

definition sleep :: "chan \<Rightarrow> lockid \<Rightarrow> kernel \<Rightarrow> (kernel, unit) res" where
  "sleep ch lk k =
     (case curproc k of
        None \<Rightarrow> Panic ''sleep''
      | Some p \<Rightarrow>
          bnd (if lk \<noteq> PtableLock
               then bnd (acquire PtableLock k) (\<lambda>_ k. release lk k)
               else Ok () k) (\<lambda>_ k.
          sched (upd_proc p (\<lambda>q. q\<lparr>p_chan := ch, p_state := SLEEPING\<rparr>) k)))"

text \<open>The second half of \<open>sleep\<close>, after the scheduler has switched back.\<close>

definition sleep_wake :: "lockid \<Rightarrow> kernel \<Rightarrow> (kernel, unit) res" where
  "sleep_wake lk k =
     bnd (myproc k) (\<lambda>p k.
     let k = upd_proc p (\<lambda>q. q\<lparr>p_chan := ChNull\<rparr>) k
     in if lk \<noteq> PtableLock
        then bnd (release PtableLock k) (\<lambda>_ k. acquire lk k)
        else Ok () k)"

definition wakeup1 :: "chan \<Rightarrow> kernel \<Rightarrow> kernel" where
  "wakeup1 ch k =
     k\<lparr>ptable := map (\<lambda>p. if p_state p = SLEEPING \<and> p_chan p = ch
                          then p\<lparr>p_state := RUNNABLE\<rparr> else p) (ptable k)\<rparr>"

definition wakeup :: "chan \<Rightarrow> kernel \<Rightarrow> (kernel, unit) res" where
  "wakeup ch k =
     bnd (acquire PtableLock k) (\<lambda>_ k. release PtableLock (wakeup1 ch k))"

definition kill :: "int \<Rightarrow> kernel \<Rightarrow> (kernel, int) res" where
  "kill n k =
     bnd (acquire PtableLock k) (\<lambda>_ k.
     case find_index (\<lambda>p. pid p = n) (ptable k) of
       Some i \<Rightarrow>
         bnd (release PtableLock
               (upd_proc i (\<lambda>p. let p = p\<lparr>killed := True\<rparr>
                                in if p_state p = SLEEPING then p\<lparr>p_state := RUNNABLE\<rparr> else p) k))
           (\<lambda>_ k. Ok 0 k)
     | None \<Rightarrow> bnd (release PtableLock k) (\<lambda>_ k. Ok (-1) k))"

definition findproc :: "int \<Rightarrow> kernel \<Rightarrow> nat option" where
  "findproc n k = find_index (\<lambda>p. pid p = n) (ptable k)"

section \<open>Installing an address space\<close>

definition vspaceinstall :: "nat option \<Rightarrow> kernel \<Rightarrow> (kernel, unit) res" where
  "vspaceinstall p k =
     (case p of
        None \<Rightarrow> Panic ''mrinstall: null proc''
      | Some i \<Rightarrow>
          let q = ptable k ! i
          in if kstack q = 0 then Panic ''mrinstall: null kstack''
             else if pgtbl (p_vspace q) = 0 then Panic ''mrinstall: page table not initialized''
             else Ok () (k\<lparr>rsp0 := w64 (kstack q + 4096), cr3 := V2P (pgtbl (p_vspace q))\<rparr>))"

definition vspaceinstallkern :: "kernel \<Rightarrow> kernel" where
  "vspaceinstallkern k = k\<lparr>cr3 := V2P (kpml4 k)\<rparr>"

section \<open>Sleep locks\<close>

fun get_sl :: "slid \<Rightarrow> kernel \<Rightarrow> sleeplock" where
  "get_sl (SlInode Inodefile) k = i_lock (icache_inodefile k)"
| "get_sl (SlInode (Icache i)) k = i_lock (icache_inode k ! i)"
| "get_sl (SlBuf b) k = b_lock (bcache_buf k ! b)"

fun set_sl :: "slid \<Rightarrow> sleeplock \<Rightarrow> kernel \<Rightarrow> kernel" where
  "set_sl (SlInode Inodefile) l k =
     k\<lparr>icache_inodefile := (icache_inodefile k)\<lparr>i_lock := l\<rparr>\<rparr>"
| "set_sl (SlInode (Icache i)) l k =
     k\<lparr>icache_inode := (icache_inode k)[i := (icache_inode k ! i)\<lparr>i_lock := l\<rparr>]\<rparr>"
| "set_sl (SlBuf b) l k =
     k\<lparr>bcache_buf := (bcache_buf k)[b := (bcache_buf k ! b)\<lparr>b_lock := l\<rparr>]\<rparr>"

definition initsleeplock :: "slid \<Rightarrow> kernel \<Rightarrow> kernel" where
  "initsleeplock l k = set_sl l \<lparr>sl_locked = False, sl_pid = 0\<rparr> k"

text \<open>One test of the loop \<open>while (lk->locked) sleep(lk, &lk->lk);\<close> and what follows it. A
  process that sleeps comes back to the same test through \<open>acquiresleep_wake\<close>.\<close>

definition acquiresleep_loop :: "slid \<Rightarrow> kernel \<Rightarrow> (kernel, unit) res" where
  "acquiresleep_loop l k =
     (if sl_locked (get_sl l k) then sleep (ChSleeplock l) (SleepLk l) k
      else bnd (myproc k) (\<lambda>p k.
        release (SleepLk l) (set_sl l \<lparr>sl_locked = True, sl_pid = pid (ptable k ! p)\<rparr> k)))"

definition acquiresleep :: "slid \<Rightarrow> kernel \<Rightarrow> (kernel, unit) res" where
  "acquiresleep l k = bnd (acquire (SleepLk l) k) (\<lambda>_ k. acquiresleep_loop l k)"

definition acquiresleep_wake :: "slid \<Rightarrow> kernel \<Rightarrow> (kernel, unit) res" where
  "acquiresleep_wake l k = bnd (sleep_wake (SleepLk l) k) (\<lambda>_ k. acquiresleep_loop l k)"

definition releasesleep :: "slid \<Rightarrow> kernel \<Rightarrow> (kernel, unit) res" where
  "releasesleep l k =
     bnd (acquire (SleepLk l) k) (\<lambda>_ k.
     bnd (wakeup (ChSleeplock l) (set_sl l \<lparr>sl_locked = False, sl_pid = 0\<rparr> k)) (\<lambda>_ k.
     release (SleepLk l) k))"

definition holdingsleep :: "slid \<Rightarrow> kernel \<Rightarrow> (kernel, bool) res" where
  "holdingsleep l k =
     bnd (acquire (SleepLk l) k) (\<lambda>_ k.
     let r = sl_locked (get_sl l k) in bnd (release (SleepLk l) k) (\<lambda>_ k. Ok r k))"

section \<open>What the operations do\<close>

lemma sched_Sleeps:
  "held k = {PtableLock} \<Longrightarrow> curproc k = Some p \<Longrightarrow> p_state (ptable k ! p) \<noteq> RUNNING \<Longrightarrow>
     sched k = Sleeps k"
  by (simp add: sched_def holding_def)

lemma wakeup1_frame [simp]:
  "held (wakeup1 ch k) = held k" "curproc (wakeup1 ch k) = curproc k"
  "length (ptable (wakeup1 ch k)) = length (ptable k)"
  "wakeup1 ch (k\<lparr>held := h\<rparr>) = (wakeup1 ch k)\<lparr>held := h\<rparr>"
  by (simp_all add: wakeup1_def)

lemma wakeup1_nth:
  "i < length (ptable k) \<Longrightarrow> ptable (wakeup1 ch k) ! i =
     (if p_state (ptable k ! i) = SLEEPING \<and> p_chan (ptable k ! i) = ch
      then (ptable k ! i)\<lparr>p_state := RUNNABLE\<rparr> else ptable k ! i)"
  by (simp add: wakeup1_def)

lemma wakeup_eq: "PtableLock \<notin> held k \<Longrightarrow> wakeup ch k = Ok () (wakeup1 ch k)"
  by (simp add: wakeup_def wakeup1_def)

text \<open>The identifiers of sleep locks that exist: every inode and every buffer has one.\<close>

fun sl_valid :: "slid \<Rightarrow> kernel \<Rightarrow> bool" where
  "sl_valid (SlInode Inodefile) k = True"
| "sl_valid (SlInode (Icache i)) k = (i < length (icache_inode k))"
| "sl_valid (SlBuf b) k = (b < length (bcache_buf k))"

lemma get_set_sl [simp]: "sl_valid l k \<Longrightarrow> get_sl l (set_sl l v k) = v"
  by (induction l k rule: sl_valid.induct) simp_all

lemma set_sl_frame [simp]:
  "held (set_sl l v k) = held k" "curproc (set_sl l v k) = curproc k"
  "ptable (set_sl l v k) = ptable k"
  "set_sl l v (k\<lparr>held := h\<rparr>) = (set_sl l v k)\<lparr>held := h\<rparr>"
  "set_sl l v (k\<lparr>ptable := t\<rparr>) = (set_sl l v k)\<lparr>ptable := t\<rparr>"
  by (cases "(l, k)" rule: sl_valid.cases; simp)+

lemma sl_valid_set_sl [simp]: "sl_valid m (set_sl l v k) = sl_valid m k"
  by (cases "(l, k)" rule: sl_valid.cases; cases "(m, k)" rule: sl_valid.cases; simp)

lemma get_sl_frame [simp]:
  "get_sl l (k\<lparr>held := h\<rparr>) = get_sl l k" "get_sl l (k\<lparr>ptable := t\<rparr>) = get_sl l k"
  "get_sl l (k\<lparr>curproc := c\<rparr>) = get_sl l k"
  "sl_valid l (k\<lparr>held := h\<rparr>) = sl_valid l k" "sl_valid l (k\<lparr>ptable := t\<rparr>) = sl_valid l k"
  "sl_valid l (k\<lparr>curproc := c\<rparr>) = sl_valid l k"
  by (cases "(l, k)" rule: sl_valid.cases; simp)+

lemma get_sl_wakeup1 [simp]: "get_sl l (wakeup1 ch k) = get_sl l k"
  by (simp add: wakeup1_def)

lemma get_sl_upd_proc [simp]: "get_sl l (upd_proc i f k) = get_sl l k"
  by (simp add: upd_proc_def)

lemma acquiresleep_free:
  "SleepLk l \<notin> held k \<Longrightarrow> curproc k = Some p \<Longrightarrow> \<not> sl_locked (get_sl l k) \<Longrightarrow>
     acquiresleep l k = Ok () (set_sl l \<lparr>sl_locked = True, sl_pid = pid (ptable k ! p)\<rparr> k)"
  by (simp add: acquiresleep_def acquiresleep_loop_def myproc_def)

lemma acquiresleep_busy:
  assumes "held k = {}" "curproc k = Some p" "p < length (ptable k)" "sl_locked (get_sl l k)"
  shows "acquiresleep l k = Sleeps ((upd_proc p
           (\<lambda>q. q\<lparr>p_chan := ChSleeplock l, p_state := SLEEPING\<rparr>) k)\<lparr>held := {PtableLock}\<rparr>)"
  using assms
  by (simp add: acquiresleep_def acquiresleep_loop_def sleep_def upd_proc_def sched_def holding_def
      insert_Diff_if)

lemma releasesleep_eq:
  "SleepLk l \<notin> held k \<Longrightarrow> PtableLock \<notin> held k \<Longrightarrow>
     releasesleep l k =
       Ok () (wakeup1 (ChSleeplock l) (set_sl l \<lparr>sl_locked = False, sl_pid = 0\<rparr> k))"
  by (simp add: releasesleep_def wakeup_eq insert_Diff_if)

lemma holdingsleep_eq:
  "SleepLk l \<notin> held k \<Longrightarrow> holdingsleep l k = Ok (sl_locked (get_sl l k)) k"
  by (simp add: holdingsleep_def)

lemma sleep_wake_eq:
  "held k = {PtableLock} \<Longrightarrow> curproc k = Some p \<Longrightarrow> lk \<noteq> PtableLock \<Longrightarrow>
     sleep_wake lk k = Ok () ((upd_proc p (\<lambda>q. q\<lparr>p_chan := ChNull\<rparr>) k)\<lparr>held := {lk}\<rparr>)"
  by (simp add: sleep_wake_def myproc_def upd_proc_def)

lemma acquiresleep_wake_free:
  "held k = {PtableLock} \<Longrightarrow> curproc k = Some p \<Longrightarrow> p < length (ptable k) \<Longrightarrow>
     \<not> sl_locked (get_sl l k) \<Longrightarrow>
     acquiresleep_wake l k = Ok ()
       ((set_sl l \<lparr>sl_locked = True, sl_pid = pid (ptable k ! p)\<rparr>
          (upd_proc p (\<lambda>q. q\<lparr>p_chan := ChNull\<rparr>) k))\<lparr>held := {}\<rparr>)"
  by (simp add: acquiresleep_wake_def sleep_wake_eq acquiresleep_loop_def myproc_def upd_proc_def)

section \<open>Properties\<close>


definition k0_locked :: kernel where
  "k0_locked = set_sl (SlInode (Icache 0)) \<lparr>sl_locked = True, sl_pid = 7\<rparr> k0"


end
