(* ===== verification/Dll.thy ===== *)
theory Dll
  imports Prelude
begin

text \<open>
  The circular doubly linked list of \<open>kernel/bio.c\<close>: the pointers \<open>prev\<close> and \<open>next\<close> of the buffers
  and of the list head, the assignments of \<open>binit\<close> and \<open>brelse\<close>, and the list they represent.
  The buffer cache of \<open>Bio\<close> keeps that list.
\<close>

record links =
  nxt :: "nat \<Rightarrow> nat"
  prv :: "nat \<Rightarrow> nat"

definition dl_init :: "nat \<Rightarrow> links \<Rightarrow> links" where
  "dl_init h s = (let s = s\<lparr>prv := (prv s)(h := h)\<rparr> in s\<lparr>nxt := (nxt s)(h := h)\<rparr>)"

text \<open>\<open>b->next->prev = b->prev; b->prev->next = b->next;\<close>\<close>

definition dl_unlink :: "nat \<Rightarrow> links \<Rightarrow> links" where
  "dl_unlink b s =
     (let s = s\<lparr>prv := (prv s)(nxt s b := prv s b)\<rparr>
      in s\<lparr>nxt := (nxt s)(prv s b := nxt s b)\<rparr>)"

text \<open>\<open>b->next = head.next; b->prev = &head; head.next->prev = b; head.next = b;\<close>\<close>

definition dl_push :: "nat \<Rightarrow> nat \<Rightarrow> links \<Rightarrow> links" where
  "dl_push h b s =
     (let s = s\<lparr>nxt := (nxt s)(b := nxt s h)\<rparr>;
          s = s\<lparr>prv := (prv s)(b := h)\<rparr>;
          s = s\<lparr>prv := (prv s)(nxt s h := b)\<rparr>
      in s\<lparr>nxt := (nxt s)(h := b)\<rparr>)"

definition dl_build :: "nat \<Rightarrow> nat list \<Rightarrow> links \<Rightarrow> links" where
  "dl_build h bs s = fold (dl_push h) bs (dl_init h s)"

section \<open>The list a set of pointers represents\<close>

fun linked :: "links \<Rightarrow> nat list \<Rightarrow> bool" where
  "linked s (a # b # xs) \<longleftrightarrow> nxt s a = b \<and> prv s b = a \<and> linked s (b # xs)"
| "linked s _ \<longleftrightarrow> True"

definition dll :: "nat \<Rightarrow> links \<Rightarrow> nat list \<Rightarrow> bool" where
  "dll h s L \<longleftrightarrow> distinct (h # L) \<and> linked s (h # L @ [h])"

text \<open>The forward walk \<open>for (b = head.next; b != &head; b = b->next)\<close> of \<open>bget\<close>, for at most
  \<open>n\<close> steps.\<close>

fun walk_next :: "nat \<Rightarrow> nat \<Rightarrow> links \<Rightarrow> nat \<Rightarrow> nat list" where
  "walk_next 0 h s b = []"
| "walk_next (Suc n) h s b = (if b = h then [] else b # walk_next n h s (nxt s b))"

fun walk_prev :: "nat \<Rightarrow> nat \<Rightarrow> links \<Rightarrow> nat \<Rightarrow> nat list" where
  "walk_prev 0 h s b = []"
| "walk_prev (Suc n) h s b = (if b = h then [] else b # walk_prev n h s (prv s b))"

lemma linked_append:
  "linked s (xs @ a # ys) \<longleftrightarrow> linked s (xs @ [a]) \<and> linked s (a # ys)"
proof (induction xs)
  case (Cons x xs)
  then show ?case by (cases xs) auto
qed simp

lemma linked_cong:
  assumes "\<And>x. x \<in> set (butlast xs) \<Longrightarrow> nxt s' x = nxt s x"
    and "\<And>x. x \<in> set (tl xs) \<Longrightarrow> prv s' x = prv s x"
  shows "linked s' xs = linked s xs"
  using assms
proof (induction s xs rule: linked.induct)
  case (1 s a b xs)
  then show ?case by (cases xs) auto
qed simp_all

lemma linked_upd:
  assumes "linked s xs" "nxt s' = (nxt s)(p := x)" "prv s' = (prv s)(q := y)"
    and "p \<notin> set (butlast xs)" "q \<notin> set (tl xs)"
  shows "linked s' xs"
  by (subst linked_cong [of _ _ s]) (use assms in auto)

lemma linked_Cons:
  "xs \<noteq> [] \<Longrightarrow> linked s (a # xs) \<longleftrightarrow> nxt s a = hd xs \<and> prv s (hd xs) = a \<and> linked s xs"
  by (cases xs) auto

lemma linked_snoc:
  "xs \<noteq> [] \<Longrightarrow> linked s (xs @ [a]) \<longleftrightarrow> linked s xs \<and> nxt s (last xs) = a \<and> prv s a = last xs"
  by (induction xs rule: rev_induct) (auto simp: linked_append [of s _ _ "[a]"])

lemma dll_init: "dll h (dl_init h s) []"
  by (simp add: dll_def dl_init_def)

lemma dll_push:
  assumes "dll h s L" "b \<notin> set L" "b \<noteq> h"
  shows "dll h (dl_push h b s) (b # L)"
proof -
  let ?q = "hd (L @ [h])"
  have lk: "nxt s h = ?q" "linked s (L @ [h])" and d: "distinct (h # L)"
    using assms(1) by (simp_all add: dll_def linked_Cons)
  have q: "?q \<noteq> b" using assms by (cases L) auto
  have eq: "nxt (dl_push h b s) = (nxt s)(b := ?q, h := b)"
    "prv (dl_push h b s) = (prv s)(b := h, ?q := b)"
    using lk(1) assms(3) by (simp_all add: dl_push_def Let_def)
  have "linked (dl_push h b s) (L @ [h])"
  proof (subst linked_cong [of _ _ s])
    fix x assume "x \<in> set (butlast (L @ [h]))"
    then show "nxt (dl_push h b s) x = nxt s x" using d assms(2) by (auto simp: eq)
  next
    fix x assume x: "x \<in> set (tl (L @ [h]))"
    then have "x \<noteq> ?q" "x \<noteq> b" using d assms(2,3) by (cases L; auto)+
    then show "prv (dl_push h b s) x = prv s x" by (simp add: eq)
  qed (rule lk(2))
  then show ?thesis using assms d q by (auto simp: dll_def linked_Cons eq)
qed

lemma linked_append2:
  "xs \<noteq> [] \<Longrightarrow> ys \<noteq> [] \<Longrightarrow>
     linked s (xs @ ys) \<longleftrightarrow>
       linked s xs \<and> linked s ys \<and> nxt s (last xs) = hd ys \<and> prv s (hd ys) = last xs"
  using linked_append [of s xs "hd ys" "tl ys"] linked_snoc [of xs s "hd ys"]
  by (cases ys) auto

lemma dll_unlink:
  assumes "dll h s L" "b \<in> set L"
  shows "dll h (dl_unlink b s) (remove1 b L)"
proof -
  obtain us vs where L: "L = us @ b # vs" using assms(2) by (meson split_list)
  let ?p = "last (h # us)" and ?q = "hd (vs @ [h])"
  have d: "distinct (h # us @ b # vs)" using assms(1) by (simp add: dll_def L)
  have whole: "linked s ((h # us) @ (b # vs @ [h]))" using assms(1) by (simp add: dll_def L)
  have lk1: "linked s (h # us)" "nxt s ?p = b" "prv s b = ?p" "linked s (b # (vs @ [h]))"
    using iffD1 [OF linked_append2 [of "h # us" "b # vs @ [h]" s] whole] by simp_all
  have lk2: "linked s (vs @ [h])" "nxt s b = ?q" "prv s ?q = b"
    using lk1(4) linked_Cons [of "vs @ [h]" s b] by simp_all
  note lk = lk1(1-3) lk2
  have pin: "?p \<in> set (h # us)" by (rule last_in_set) simp
  have qin: "?q \<in> set (vs @ [h])" by (rule hd_in_set) simp
  have bq: "b \<noteq> ?q" "b \<noteq> ?p" using d pin qin by auto
  have eq: "nxt (dl_unlink b s) = (nxt s)(?p := ?q)" "prv (dl_unlink b s) = (prv s)(?q := ?p)"
    using bq lk(3,5) by (simp_all add: dl_unlink_def Let_def)
  have "?p \<notin> set (butlast (h # us))"
    using d by (metis append_butlast_last_id distinct_append distinct_butlast distinct.simps(2)
        list.distinct(1) not_distinct_conv_prefix append_Cons)
  moreover have "?q \<notin> set us" "?p \<notin> set vs" using d pin qin by auto
  moreover have "?q \<notin> set (tl (vs @ [h]))" using d by (cases vs) auto
  ultimately have "linked (dl_unlink b s) (h # us)" "linked (dl_unlink b s) (vs @ [h])"
    using linked_upd [OF lk(1) eq] linked_upd [OF lk(4) eq] by simp_all
  then have "linked (dl_unlink b s) ((h # us) @ (vs @ [h]))"
    by (subst linked_append2) (simp_all add: eq)
  then show ?thesis using d by (simp add: dll_def L remove1_append)
qed

lemma dll_build:
  assumes "distinct (h # bs)"
  shows "dll h (dl_build h bs s) (rev bs)"
  using assms
proof (induction bs rule: rev_induct)
  case Nil
  then show ?case by (simp add: dl_build_def dll_init)
next
  case (snoc b bs)
  then have "dll h (dl_build h bs s) (rev bs)" by simp
  from dll_push [OF this, of b] snoc.prems show ?case by (simp add: dl_build_def)
qed

lemma walk_next_linked:
  "linked s (xs @ [h]) \<Longrightarrow> h \<notin> set xs \<Longrightarrow> length xs < n \<Longrightarrow>
     walk_next n h s (hd (xs @ [h])) = xs"
proof (induction xs arbitrary: n)
  case Nil
  then show ?case by (cases n) auto
next
  case (Cons x xs)
  then show ?case by (cases n) (auto simp: linked_Cons)
qed

lemma walk_prev_linked:
  "linked s (h # xs) \<Longrightarrow> h \<notin> set xs \<Longrightarrow> length xs < n \<Longrightarrow>
     walk_prev n h s (last (h # xs)) = rev xs"
proof (induction xs arbitrary: n rule: rev_induct)
  case Nil
  then show ?case by (cases n) auto
next
  case (snoc x xs)
  have "linked s ((h # xs) @ [x])" using snoc.prems by simp
  then have "linked s (h # xs)" "prv s x = last (h # xs)"
    by (simp_all only: linked_snoc list.distinct simp_thms) 
  with snoc show ?case by (cases n) auto
qed

lemma dll_walks:
  assumes "dll h s L" "length L < n"
  shows "walk_next n h s (nxt s h) = L" "walk_prev n h s (prv s h) = rev L"
proof -
  have l: "linked s ((h # L) @ [h])" "h \<notin> set L" using assms by (simp_all add: dll_def)
  then have "nxt s h = hd (L @ [h])" "linked s (L @ [h])" by (simp_all add: linked_Cons)
  then show "walk_next n h s (nxt s h) = L" using l assms by (simp add: walk_next_linked)
  have "linked s (h # L)" "prv s h = last (h # L)"
    using l(1) by (simp_all only: linked_snoc list.distinct simp_thms)
  then show "walk_prev n h s (prv s h) = rev L"
    using walk_prev_linked [of s h L n] l assms by simp
qed

section \<open>Properties\<close>

text \<open>C28: The pointer assignments of \<open>binit\<close> and of \<open>brelse\<close> maintain a well-formed circular list:
  \<open>binit\<close> links the buffers it walks over in reverse order, \<open>brelse\<close> moves a buffer to the front,
  and in both cases the \<open>next\<close> walk and the \<open>prev\<close> walk of \<open>bget\<close> visit exactly the buffers of
  the list, in order and in reverse order.\<close>

theorem lru_pointers_refine:
  assumes "distinct (h # bs)" "dll h s L" "b \<in> set L"
  shows "dll h (dl_build h bs s0) (rev bs) \<and>
    dll h (dl_push h b (dl_unlink b s)) (b # remove1 b L) \<and>
    walk_next (Suc (length L)) h (dl_push h b (dl_unlink b s)) (nxt (dl_push h b (dl_unlink b s)) h)
      = b # remove1 b L \<and>
    walk_prev (Suc (length L)) h (dl_push h b (dl_unlink b s)) (prv (dl_push h b (dl_unlink b s)) h)
      = rev (b # remove1 b L)"
proof -
  have "distinct L" "b \<noteq> h" using assms by (auto simp: dll_def)
  then have d: "dll h (dl_push h b (dl_unlink b s)) (b # remove1 b L)"
    by (intro dll_push dll_unlink assms(2,3)) auto
  have "length (b # remove1 b L) < Suc (length L)"
    using assms(3) length_pos_if_in_set [OF assms(3)] by (simp add: length_remove1)
  with d dll_walks [OF d] dll_build [OF assms(1)] show ?thesis by blast
qed

theorem lru_pointers_refine_witness:
  "dll 9 (dl_build 9 [0, 1, 2] \<lparr>nxt = (\<lambda>_. 0), prv = (\<lambda>_. 0)\<rparr>) (rev [0, 1, 2]) \<and>
    (let s = dl_push 9 1 (dl_unlink 1 (dl_build 9 [0, 1, 2] \<lparr>nxt = (\<lambda>_. 0), prv = (\<lambda>_. 0)\<rparr>))
     in dll 9 s [1, 2, 0] \<and> walk_next 4 9 s (nxt s 9) = [1, 2, 0] \<and> walk_prev 4 9 s (prv s 9) = [0, 2, 1])"
  using lru_pointers_refine [of 9 "[0, 1, 2]" "dl_build 9 [0, 1, 2] \<lparr>nxt = (\<lambda>_. 0), prv = (\<lambda>_. 0)\<rparr>" "[2, 1, 0]" 1
      "\<lparr>nxt = (\<lambda>_. 0), prv = (\<lambda>_. 0)\<rparr>"] dll_build [of 9 "[0, 1, 2]"]
  by (simp add: Let_def eval_nat_numeral)

end
