(* ===== verification/Bio.thy ===== *)
theory Bio
  imports Sched Dll
begin

text \<open>
  The buffer cache (\<open>kernel/bio.c\<close>) over the in-memory disk driver (\<open>kernel/memide.c\<close>). Buffers
  are named by their index in \<open>bcache.buf\<close>; the circular list through \<open>prev\<close>/\<open>next\<close> is the list
  of indices \<open>bcache_lru\<close>, most recently used first (\<open>Dll\<close> relates it to the pointers). The
  disk is \<open>memdisk\<close>, a block of \<open>BSIZE\<close> bytes per block number. The locale \<open>block_device\<close> is
  what clients rely on: reading a block gives its contents, writing changes that block only.
\<close>

section \<open>The driver\<close>

definition upd_buf :: "nat \<Rightarrow> (buf \<Rightarrow> buf) \<Rightarrow> kernel \<Rightarrow> kernel" where
  "upd_buf b f k = k\<lparr>bcache_buf := (bcache_buf k)[b := f (bcache_buf k ! b)]\<rparr>"

definition iderw :: "nat \<Rightarrow> kernel \<Rightarrow> (kernel, unit) res" where
  "iderw b k =
     bnd (holdingsleep (SlBuf b) k) (\<lambda>h k.
     let bf = bcache_buf k ! b
     in if \<not> h then Panic ''iderw: buf not locked''
        else if b_valid bf \<and> \<not> b_dirty bf then Panic ''iderw: nothing to do''
        else if b_dev bf \<noteq> 1 then Panic ''iderw: request not for disk 1''
        else if b_blockno bf \<ge> disksize k then Panic ''iderw: block out of range''
        else if b_dirty bf
        then Ok () (upd_buf b (\<lambda>c. c\<lparr>b_dirty := False, b_valid := True\<rparr>)
                     (k\<lparr>memdisk := (memdisk k)(b_blockno bf := b_data bf)\<rparr>))
        else Ok () (upd_buf b (\<lambda>c. c\<lparr>b_data := memdisk k (b_blockno bf), b_valid := True\<rparr>) k))"

section \<open>The cache\<close>

definition binit :: "kernel \<Rightarrow> kernel" where
  "binit k =
     k\<lparr>bcache_lru := fold Cons [0 ..< NBUF] [],
       bcache_buf := map (\<lambda>b. b\<lparr>b_lock := \<lparr>sl_locked = False, sl_pid = 0\<rparr>\<rparr>) (bcache_buf k)\<rparr>"

definition bget :: "nat \<Rightarrow> nat \<Rightarrow> kernel \<Rightarrow> (kernel, nat) res" where
  "bget dev blockno k =
     bnd (acquire BcacheLock k) (\<lambda>_ k.
     case find (\<lambda>b. b_dev (bcache_buf k ! b) = dev \<and> b_blockno (bcache_buf k ! b) = blockno)
            (bcache_lru k) of
       Some b \<Rightarrow>
         bnd (release BcacheLock (upd_buf b (\<lambda>c. c\<lparr>b_refcnt := w32 (b_refcnt c + 1)\<rparr>) k)) (\<lambda>_ k.
         bnd (acquiresleep (SlBuf b) k) (\<lambda>_ k. Ok b k))
     | None \<Rightarrow>
         (case find (\<lambda>b. b_refcnt (bcache_buf k ! b) = 0 \<and> \<not> b_dirty (bcache_buf k ! b))
                 (rev (bcache_lru k)) of
            Some b \<Rightarrow>
              bnd (release BcacheLock
                     (upd_buf b (\<lambda>c. c\<lparr>b_dev := dev, b_blockno := blockno, b_valid := False,
                                       b_dirty := False, b_refcnt := 1\<rparr>) k)) (\<lambda>_ k.
              bnd (acquiresleep (SlBuf b) k) (\<lambda>_ k. Ok b k))
          | None \<Rightarrow> Panic ''bget: no buffers''))"

definition bread :: "nat \<Rightarrow> nat \<Rightarrow> kernel \<Rightarrow> (kernel, nat) res" where
  "bread dev blockno k =
     bnd (bget dev blockno (k\<lparr>num_disk_reads := num_disk_reads k + 1\<rparr>)) (\<lambda>b k.
     bnd (if \<not> b_valid (bcache_buf k ! b) then iderw b k else Ok () k) (\<lambda>_ k.
     Ok b k))"

definition bwrite :: "nat \<Rightarrow> kernel \<Rightarrow> (kernel, unit) res" where
  "bwrite b k =
     bnd (if crashn_enable k
          then (let k = k\<lparr>crashn := crashn k - 1\<rparr>
                in if crashn k < 0 then Reboots k else Ok () k)
          else Ok () k) (\<lambda>_ k.
     bnd (holdingsleep (SlBuf b) k) (\<lambda>h k.
     if \<not> h then Panic ''bwrite''
     else iderw b (upd_buf b (\<lambda>c. c\<lparr>b_dirty := True\<rparr>) k)))"

definition brelse :: "nat \<Rightarrow> kernel \<Rightarrow> (kernel, unit) res" where
  "brelse b k =
     bnd (holdingsleep (SlBuf b) k) (\<lambda>h k.
     if \<not> h then Panic ''brelse''
     else bnd (releasesleep (SlBuf b) k) (\<lambda>_ k.
          bnd (acquire BcacheLock k) (\<lambda>_ k.
          let k = upd_buf b (\<lambda>c. c\<lparr>b_refcnt := sub32 (b_refcnt c) 1\<rparr>) k;
              k = (if b_refcnt (bcache_buf k ! b) = 0
                   then k\<lparr>bcache_lru := b # remove1 b (bcache_lru k)\<rparr> else k)
          in release BcacheLock k)))"

section \<open>What block input and output may change\<close>

text \<open>The components a file-system call may change through the cache: the buffers, the order of
  the list, the read counter, the disk, and which sleeping processes are runnable.\<close>

definition io_erase :: "kernel \<Rightarrow> kernel" where
  "io_erase k = k\<lparr>ptable := map (\<lambda>p. p\<lparr>p_state := UNUSED\<rparr>) (ptable k), num_disk_reads := 0,
     bcache_buf := [], bcache_lru := [], memdisk := (\<lambda>_. [])\<rparr>"

definition io_step :: "kernel \<Rightarrow> kernel \<Rightarrow> bool" where
  "io_step k k' \<longleftrightarrow> io_erase k' = io_erase k"

lemma io_step_refl [simp]: "io_step k k"
  by (simp add: io_step_def)

lemma io_step_trans [trans]: "io_step a b \<Longrightarrow> io_step b c \<Longrightarrow> io_step a c"
  by (simp add: io_step_def)

lemma io_step_field:
  assumes "io_step k k'"
    and "\<And>k x1 x2 x3 x4 x5. f (k\<lparr>ptable := x1, num_disk_reads := x2, bcache_buf := x3,
           bcache_lru := x4, memdisk := x5\<rparr>) = f k"
  shows "f k' = f k"
  using assms unfolding io_step_def io_erase_def by metis

lemma io_stepD:
  assumes "io_step k k'"
  shows "held k' = held k" "curproc k' = curproc k" "disksize k' = disksize k" "sb k' = sb k"
    "icache_inode k' = icache_inode k" "icache_inodefile k' = icache_inodefile k"
    "ftable k' = ftable k" "crashn_enable k' = crashn_enable k" "crashn k' = crashn k"
  by (rule io_step_field [OF assms], simp)+

lemma io_step_length: "io_step k k' \<Longrightarrow> length (ptable k') = length (ptable k)"
  unfolding io_step_def io_erase_def
  by (drule arg_cong [where f = "\<lambda>k. length (ptable k)"]) simp

lemma io_step_updates [simp]:
  "io_step k (upd_buf b f k') = io_step k k'"
  "io_step k (k'\<lparr>num_disk_reads := n\<rparr>) = io_step k k'"
  "io_step k (k'\<lparr>bcache_lru := l\<rparr>) = io_step k k'"
  "io_step k (k'\<lparr>memdisk := m\<rparr>) = io_step k k'"
  "io_step k (wakeup1 ch k') = io_step k k'"
  "io_step k (set_sl (SlBuf b) v k') = io_step k k'"
  by (simp_all add: io_step_def io_erase_def upd_buf_def wakeup1_def comp_def if_distrib
      cong: if_cong)

section \<open>The cache invariant\<close>

text \<open>\<open>bc_inv h k\<close>: the list is a permutation of the buffers, no two buffers stand for the same
  block, every buffer is clean, and every buffer other than \<open>h\<close>, the one the running call has
  taken, is free, unlocked and, when valid, equal to its block on disk.\<close>

definition buf_ok :: "bool \<Rightarrow> kernel \<Rightarrow> buf \<Rightarrow> bool" where
  "buf_ok out k b \<longleftrightarrow> \<not> b_dirty b \<and> length (b_data b) = BSIZE \<and>
     (b_valid b \<longrightarrow> b_dev b = 1 \<and> b_blockno b < disksize k) \<and>
     (if out then b_refcnt b = 1 \<and> sl_locked (b_lock b)
      else b_refcnt b = 0 \<and> \<not> sl_locked (b_lock b) \<and>
           (b_valid b \<longrightarrow> b_data b = memdisk k (b_blockno b)))"

definition b_key :: "buf \<Rightarrow> nat \<times> nat" where
  "b_key b = (b_dev b, b_blockno b)"

definition bc_keys :: "buf list \<Rightarrow> bool" where
  "bc_keys bs \<longleftrightarrow>
     (\<forall>i < length bs. \<forall>j < length bs. b_key (bs ! i) = b_key (bs ! j) \<longrightarrow>
        b_dev (bs ! i) \<noteq> 0 \<longrightarrow> i = j)"

definition bc_shape :: "kernel \<Rightarrow> bool" where
  "bc_shape k \<longleftrightarrow> length (bcache_buf k) = NBUF \<and> distinct (bcache_lru k) \<and>
     set (bcache_lru k) = {..< NBUF} \<and> bc_keys (bcache_buf k)"

definition bc_inv :: "nat option \<Rightarrow> kernel \<Rightarrow> bool" where
  "bc_inv h k \<longleftrightarrow> bc_shape k \<and> (\<forall>n. length (memdisk k n) = BSIZE) \<and>
     (\<forall>b < NBUF. buf_ok (h = Some b) k (bcache_buf k ! b))"

definition fs_ready :: "kernel \<Rightarrow> bool" where
  "fs_ready k \<longleftrightarrow> held k = {} \<and> curproc k \<noteq> None"

lemma fs_ready_io: "io_step k k' \<Longrightarrow> fs_ready k' = fs_ready k"
  by (simp add: fs_ready_def io_stepD)

lemma bc_keysD:
  "bc_keys bs \<Longrightarrow> i < length bs \<Longrightarrow> j < length bs \<Longrightarrow> b_key (bs ! i) = b_key (bs ! j) \<Longrightarrow>
     b_dev (bs ! i) \<noteq> 0 \<Longrightarrow> i = j"
  by (simp add: bc_keys_def)

lemma bc_keys_update:
  assumes "bc_keys bs" "b < length bs"
    and fresh: "\<And>i. i < length bs \<Longrightarrow> i \<noteq> b \<Longrightarrow> b_dev c \<noteq> 0 \<Longrightarrow> b_key (bs ! i) \<noteq> b_key c"
  shows "bc_keys (bs[b := c])"
  unfolding bc_keys_def
proof (intro allI impI)
  fix i j assume ij: "i < length (bs[b := c])" "j < length (bs[b := c])"
    and eq: "b_key (bs[b := c] ! i) = b_key (bs[b := c] ! j)" and nz: "b_dev (bs[b := c] ! i) \<noteq> 0"
  from eq have dev: "b_dev (bs[b := c] ! i) = b_dev (bs[b := c] ! j)" by (simp add: b_key_def)
  consider "i = b" "j = b" | "i = b" "j \<noteq> b" | "i \<noteq> b" "j = b" | "i \<noteq> b" "j \<noteq> b" by blast
  then show "i = j"
  proof cases
    case 2
    with ij eq nz fresh [of j] assms(2) show ?thesis by simp
  next
    case 3
    with ij eq nz dev fresh [of i] assms(2) show ?thesis by simp
  next
    case 4
    with ij eq nz bc_keysD [OF assms(1), of i j] show ?thesis by simp
  qed simp
qed

lemma bc_keys_same:
  assumes "bc_keys bs" "b < length bs" "b_key c = b_key (bs ! b)"
  shows "bc_keys (bs[b := c])"
proof (rule bc_keys_update [OF assms(1,2)])
  fix i assume "i < length bs" "i \<noteq> b" "b_dev c \<noteq> 0"
  moreover from assms(3) have "b_dev c = b_dev (bs ! b)" by (simp add: b_key_def)
  ultimately show "b_key (bs ! i) \<noteq> b_key c"
    using bc_keysD [OF assms(1) assms(2), of i] assms(3) by auto
qed

lemma buf_ok_cong:
  "memdisk k' = memdisk k \<Longrightarrow> disksize k' = disksize k \<Longrightarrow> buf_ok out k' b = buf_ok out k b"
  by (simp add: buf_ok_def)

lemma bc_inv_update:
  assumes inv: "bc_inv h k" and b: "b < NBUF" and h: "h = None \<or> h = Some b"
    and h': "h' = None \<or> h' = Some b"
    and c: "buf_ok (h' = Some b) k c" and keys: "bc_keys ((bcache_buf k)[b := c])"
  shows "bc_inv h' (k\<lparr>bcache_buf := (bcache_buf k)[b := c]\<rparr>)"
proof -
  let ?k = "k\<lparr>bcache_buf := (bcache_buf k)[b := c]\<rparr>"
  have len: "length (bcache_buf k) = NBUF" using inv by (simp add: bc_inv_def bc_shape_def)
  have "bc_shape ?k" using inv keys by (simp add: bc_inv_def bc_shape_def)
  moreover have "buf_ok (h' = Some i) ?k (bcache_buf ?k ! i)" if "i < NBUF" for i
  proof (cases "i = b")
    case True
    with c b len show ?thesis by (simp add: buf_ok_cong [of ?k k])
  next
    case False
    with h h' have "(h' = Some i) = (h = Some i)" by auto
    with inv that False show ?thesis by (simp add: buf_ok_cong [of ?k k] bc_inv_def)
  qed
  ultimately show ?thesis using inv by (simp add: bc_inv_def)
qed

lemma lru_find_Some:
  assumes "bc_shape k" "find P (bcache_lru k) = Some b"
  shows "b < NBUF \<and> P b"
proof -
  from assms(2) have "b \<in> set (bcache_lru k)" "P b" by (auto simp: find_Some_iff)
  with assms(1) show ?thesis by (simp add: bc_shape_def)
qed

lemma lru_find_None:
  "bc_shape k \<Longrightarrow> find P (bcache_lru k) = None \<longleftrightarrow> (\<forall>b < NBUF. \<not> P b)"
  by (auto simp: find_None_iff bc_shape_def)

lemma lru_find_rev:
  assumes "bc_shape k" "\<forall>b < NBUF. P b"
  shows "\<exists>b < NBUF. find P (rev (bcache_lru k)) = Some b"
proof (cases "find P (rev (bcache_lru k))")
  case None
  with assms(1) have "\<not> P 0" by (simp add: find_None_iff bc_shape_def)
  with assms(2) show ?thesis by simp
next
  case (Some b)
  then have "b \<in> set (rev (bcache_lru k))" by (auto simp: find_Some_iff simp del: set_rev)
  with assms(1) Some show ?thesis by (auto simp: bc_shape_def)
qed

lemma upd_buf_simps [simp]:
  "held (upd_buf b f k) = held k" "curproc (upd_buf b f k) = curproc k"
  "ptable (upd_buf b f k) = ptable k" "memdisk (upd_buf b f k) = memdisk k"
  "bcache_lru (upd_buf b f k) = bcache_lru k" "disksize (upd_buf b f k) = disksize k"
  "length (bcache_buf (upd_buf b f k)) = length (bcache_buf k)"
  by (simp_all add: upd_buf_def)

lemma upd_buf_nth [simp]:
  "b < length (bcache_buf k) \<Longrightarrow> bcache_buf (upd_buf b f k) ! b = f (bcache_buf k ! b)"
  by (simp add: upd_buf_def)

section \<open>Taking, writing and giving back a buffer\<close>

lemma bget_cached:
  assumes "fs_ready k" "bcache_buf k ! b = c" "b < length (bcache_buf k)" "\<not> sl_locked (b_lock c)"
    and "find (\<lambda>b. b_dev (bcache_buf k ! b) = dev \<and> b_blockno (bcache_buf k ! b) = n)
           (bcache_lru k) = Some b"
  shows "\<exists>l. sl_locked l \<and> bget dev n k = Ok b
    (k\<lparr>bcache_buf := (bcache_buf k)[b := c\<lparr>b_refcnt := w32 (b_refcnt c + 1), b_lock := l\<rparr>]\<rparr>)"
proof -
  obtain p where "curproc k = Some p" using assms(1) by (auto simp: fs_ready_def)
  with assms show ?thesis
    by (intro exI [of _ "\<lparr>sl_locked = True, sl_pid = pid (ptable k ! p)\<rparr>"])
       (auto simp: bget_def fs_ready_def upd_buf_def acquiresleep_free)
qed

lemma bget_recycled:
  assumes "fs_ready k" "bcache_buf k ! b = c" "b < length (bcache_buf k)" "\<not> sl_locked (b_lock c)"
    and "find (\<lambda>b. b_dev (bcache_buf k ! b) = dev \<and> b_blockno (bcache_buf k ! b) = n)
           (bcache_lru k) = None"
    and "find (\<lambda>b. b_refcnt (bcache_buf k ! b) = 0 \<and> \<not> b_dirty (bcache_buf k ! b))
           (rev (bcache_lru k)) = Some b"
  shows "\<exists>l. sl_locked l \<and> bget dev n k = Ok b
    (k\<lparr>bcache_buf := (bcache_buf k)[b := c\<lparr>b_dev := dev, b_blockno := n, b_valid := False,
       b_dirty := False, b_refcnt := 1, b_lock := l\<rparr>]\<rparr>)"
proof -
  obtain p where "curproc k = Some p" using assms(1) by (auto simp: fs_ready_def)
  with assms show ?thesis
    by (intro exI [of _ "\<lparr>sl_locked = True, sl_pid = pid (ptable k ! p)\<rparr>"])
       (auto simp: bget_def fs_ready_def upd_buf_def acquiresleep_free)
qed

lemma bget_ok:
  assumes inv: "bc_inv None k" and rdy: "fs_ready k" and dev: "dev \<noteq> 0"
  obtains b c where "b < NBUF"
    "bget dev n k = Ok b (k\<lparr>bcache_buf := (bcache_buf k)[b := c]\<rparr>)"
    "bc_inv (Some b) (k\<lparr>bcache_buf := (bcache_buf k)[b := c]\<rparr>)" "b_dev c = dev" "b_blockno c = n"
    "b_valid c \<Longrightarrow> b_data c = memdisk k n"
proof -
  have shape: "bc_shape k" and len: "length (bcache_buf k) = NBUF"
    and ok: "\<And>b. b < NBUF \<Longrightarrow> buf_ok False k (bcache_buf k ! b)"
    using inv by (simp_all add: bc_inv_def bc_shape_def)
  let ?P = "\<lambda>b. b_dev (bcache_buf k ! b) = dev \<and> b_blockno (bcache_buf k ! b) = n"
  show thesis
  proof (cases "find ?P (bcache_lru k)")
    case (Some b)
    have b: "b < NBUF" "?P b" using lru_find_Some [OF shape Some] by simp_all
    obtain l where l: "sl_locked l" "bget dev n k = Ok b (k\<lparr>bcache_buf := (bcache_buf k)[b :=
        (bcache_buf k ! b)\<lparr>b_refcnt := w32 (b_refcnt (bcache_buf k ! b) + 1), b_lock := l\<rparr>]\<rparr>)"
      using bget_cached [OF rdy refl _ _ Some] ok [OF b(1)] b(1) len by (auto simp: buf_ok_def)
    show thesis
      by (rule that [OF b(1) l(2) bc_inv_update [OF inv b(1)]])
        (use l(1) ok [OF b(1)] b(2) inv len b(1) in
          \<open>auto simp: buf_ok_def bc_inv_def bc_shape_def b_key_def intro!: bc_keys_same\<close>)
  next
    case None
    then obtain b where b: "b < NBUF"
        "find (\<lambda>b. b_refcnt (bcache_buf k ! b) = 0 \<and> \<not> b_dirty (bcache_buf k ! b))
           (rev (bcache_lru k)) = Some b"
      using lru_find_rev [OF shape, of "\<lambda>b. b_refcnt (bcache_buf k ! b) = 0 \<and>
                                               \<not> b_dirty (bcache_buf k ! b)"] ok
      by (auto simp: buf_ok_def)
    obtain l where l: "sl_locked l" "bget dev n k = Ok b (k\<lparr>bcache_buf := (bcache_buf k)[b :=
        (bcache_buf k ! b)\<lparr>b_dev := dev, b_blockno := n, b_valid := False, b_dirty := False,
          b_refcnt := 1, b_lock := l\<rparr>]\<rparr>)"
      using bget_recycled [OF rdy refl _ _ None b(2)] ok [OF b(1)] b(1) len
      by (auto simp: buf_ok_def)
    show thesis
      by (rule that [OF b(1) l(2) bc_inv_update [OF inv b(1)]])
        (use l(1) ok [OF b(1)] inv len b(1) None dev lru_find_None [OF shape, of ?P] in
          \<open>auto simp: buf_ok_def bc_inv_def bc_shape_def b_key_def intro!: bc_keys_update\<close>)
  qed
qed

lemma bc_inv_num_disk_reads [simp]: "bc_inv h (k\<lparr>num_disk_reads := n\<rparr>) = bc_inv h k"
  by (simp add: bc_inv_def bc_shape_def buf_ok_def)

lemma fs_ready_updates [simp]:
  "fs_ready (k\<lparr>num_disk_reads := n\<rparr>) = fs_ready k" "fs_ready (k\<lparr>bcache_buf := bs\<rparr>) = fs_ready k"
  "fs_ready (upd_buf b f k) = fs_ready k"
  by (simp_all add: fs_ready_def)

text \<open>The buffer that is out: its number, its block and its contents.\<close>

definition out_buf :: "nat \<Rightarrow> nat \<Rightarrow> byte list \<Rightarrow> kernel \<Rightarrow> bool" where
  "out_buf b n d k \<longleftrightarrow> b < NBUF \<and> bc_inv (Some b) k \<and> b_valid (bcache_buf k ! b) \<and>
     b_blockno (bcache_buf k ! b) = n \<and> b_data (bcache_buf k ! b) = d"

lemma bc_inv_length: "bc_inv h k \<Longrightarrow> length (bcache_buf k) = NBUF"
  by (simp add: bc_inv_def bc_shape_def)

lemma bc_inv_buf:
  "bc_inv h k \<Longrightarrow> b < NBUF \<Longrightarrow> buf_ok (h = Some b) k (bcache_buf k ! b)"
  by (simp add: bc_inv_def)

lemma iderw_read:
  assumes "bc_inv (Some b) k" "b < NBUF" "fs_ready k" "n < disksize k"
    "b_dev (bcache_buf k ! b) = 1" "b_blockno (bcache_buf k ! b) = n" "\<not> b_valid (bcache_buf k ! b)"
  shows "\<exists>k'. iderw b k = Ok () k' \<and> out_buf b n (memdisk k n) k' \<and> memdisk k' = memdisk k \<and>
           io_step k k'"
proof -
  let ?c = "(bcache_buf k ! b)\<lparr>b_data := memdisk k n, b_valid := True\<rparr>"
  let ?k = "k\<lparr>bcache_buf := (bcache_buf k)[b := ?c]\<rparr>"
  have len: "length (bcache_buf k) = NBUF" and dl: "length (memdisk k n) = BSIZE"
    and keys: "bc_keys (bcache_buf k)"
    using assms(1) by (simp_all add: bc_inv_def bc_shape_def)
  have ok: "buf_ok True k (bcache_buf k ! b)" using bc_inv_buf [OF assms(1,2)] by simp
  have "bc_inv (Some b) ?k"
    by (rule bc_inv_update [OF assms(1,2)])
       (use ok dl assms len keys in \<open>auto simp: buf_ok_def b_key_def intro!: bc_keys_same\<close>)
  moreover have "iderw b k = Ok () ?k"
    using assms ok by (simp add: iderw_def holdingsleep_eq fs_ready_def buf_ok_def upd_buf_def)
  moreover have "io_step k ?k" using io_step_updates(1) [of k b "\<lambda>_. ?c" k] by (simp add: upd_buf_def)
  ultimately show ?thesis using assms(2,6) len
    by (intro exI [of _ ?k]) (simp add: out_buf_def)
qed

lemma bread_ok:
  assumes "bc_inv None k" "fs_ready k" "n < disksize k"
  shows "\<exists>b k'. bread 1 n k = Ok b k' \<and> out_buf b n (memdisk k n) k' \<and> memdisk k' = memdisk k \<and>
           io_step k k'"
proof -
  let ?k0 = "k\<lparr>num_disk_reads := num_disk_reads k + 1\<rparr>"
  have "bc_inv None ?k0" "fs_ready ?k0" using assms by simp_all
  then obtain b c where b: "b < NBUF" and get: "bget 1 n ?k0 = Ok b (upd_buf b (\<lambda>_. c) ?k0)"
    and inv: "bc_inv (Some b) (upd_buf b (\<lambda>_. c) ?k0)" and dev: "b_dev c = 1" and blk: "b_blockno c = n"
    and val: "b_valid c \<Longrightarrow> b_data c = memdisk ?k0 n"
    unfolding upd_buf_def using bget_ok [of ?k0 1 n] by (metis one_neq_zero)
  let ?k1 = "upd_buf b (\<lambda>_. c) ?k0"
  have at: "bcache_buf ?k1 ! b = c" using bc_inv_length [OF inv] b by simp
  show ?thesis
  proof (cases "b_valid c")
    case True
    with get at have "bread 1 n k = Ok b ?k1" by (simp add: bread_def)
    moreover have "out_buf b n (memdisk k n) ?k1" using b inv at True blk val by (simp add: out_buf_def)
    ultimately show ?thesis by (intro exI [of _ b] exI [of _ ?k1]) simp
  next
    case False
    have "fs_ready ?k1" "n < disksize ?k1" using assms by simp_all
    from iderw_read [OF inv b this] at dev blk False
    obtain k' where k': "iderw b ?k1 = Ok () k'" "out_buf b n (memdisk k n) k'"
      "memdisk k' = memdisk k" "io_step ?k1 k'" by auto
    from k'(4) have "io_step k k'" using io_step_trans [of k ?k1 k'] by simp
    moreover have "bread 1 n k = Ok b k'" using get at False k'(1) by (simp add: bread_def)
    ultimately show ?thesis using k' by blast
  qed
qed

lemma out_bufD:
  assumes "out_buf b n d k"
  shows "b < NBUF" "b < length (bcache_buf k)" "bc_inv (Some b) k"
    "buf_ok True k (bcache_buf k ! b)" "b_blockno (bcache_buf k ! b) = n"
    "b_data (bcache_buf k ! b) = d" "b_valid (bcache_buf k ! b)" "bc_keys (bcache_buf k)"
    "length d = BSIZE" "b_dev (bcache_buf k ! b) = 1" "n < disksize k"
proof -
  show b: "b < NBUF" "bc_inv (Some b) k" "b_blockno (bcache_buf k ! b) = n"
    "b_data (bcache_buf k ! b) = d" "b_valid (bcache_buf k ! b)"
    using assms by (simp_all add: out_buf_def)
  show "b < length (bcache_buf k)" "bc_keys (bcache_buf k)"
    using b(1,2) by (simp_all add: bc_inv_def bc_shape_def)
  show ok: "buf_ok True k (bcache_buf k ! b)" using bc_inv_buf [OF b(2,1)] by simp
  show "length d = BSIZE" "b_dev (bcache_buf k ! b) = 1" "n < disksize k"
    using ok b by (simp_all add: buf_ok_def)
qed

lemma out_buf_data:
  assumes out: "out_buf b n d k" and "length d' = BSIZE"
  shows "out_buf b n d' (upd_buf b (\<lambda>c. c\<lparr>b_data := d'\<rparr>) k)"
proof -
  note o = out_bufD [OF out]
  have "bc_inv (Some b) (upd_buf b (\<lambda>c. c\<lparr>b_data := d'\<rparr>) k)"
    unfolding upd_buf_def
    by (rule bc_inv_update [OF o(3,1)])
       (use o assms(2) in \<open>auto simp: buf_ok_def b_key_def intro!: bc_keys_same\<close>)
  with o show ?thesis by (simp add: out_buf_def)
qed

lemma out_buf_disk:
  assumes out: "out_buf b n d k" and "length x = BSIZE"
  shows "out_buf b n d (k\<lparr>memdisk := (memdisk k)(n := x)\<rparr>)"
proof -
  note o = out_bufD [OF out]
  let ?k = "k\<lparr>memdisk := (memdisk k)(n := x)\<rparr>"
  have "buf_ok (Some b = Some i) ?k (bcache_buf k ! i)" if i: "i < NBUF" for i
  proof (cases "i = b")
    case True
    with o(4) show ?thesis by (simp add: buf_ok_def)
  next
    case False
    have ok: "buf_ok False k (bcache_buf k ! i)" using bc_inv_buf [OF o(3) i] False by simp
    have len: "length (bcache_buf k) = NBUF" using o(3) by (rule bc_inv_length)
    have "b_key (bcache_buf k ! b) \<noteq> b_key (bcache_buf k ! i)"
      using bc_keysD [OF o(8,2), of i] o(10) i len False by auto
    with ok o(5,10) False show ?thesis by (auto simp: buf_ok_def b_key_def)
  qed
  moreover have "bc_shape ?k" "\<forall>m. length (memdisk ?k m) = BSIZE"
    using o(3) assms(2) by (simp_all add: bc_inv_def bc_shape_def)
  ultimately have "bc_inv (Some b) ?k" by (simp add: bc_inv_def)
  with o show ?thesis by (simp add: out_buf_def)
qed

lemma iderw_write:
  assumes out: "out_buf b n d k" and "fs_ready k"
  shows "iderw b (upd_buf b (\<lambda>c. c\<lparr>b_dirty := True\<rparr>) k) = Ok () (k\<lparr>memdisk := (memdisk k)(n := d)\<rparr>)"
proof -
  note o = out_bufD [OF out]
  have "(bcache_buf k ! b)\<lparr>b_dirty := False, b_valid := True\<rparr> = bcache_buf k ! b"
    using o(4,7) by (intro buf.equality) (simp_all add: buf_ok_def)
  then have same: "upd_buf b (\<lambda>c. c\<lparr>b_dirty := False, b_valid := True\<rparr>) k' = k'"
    if "bcache_buf k' = bcache_buf k" for k'
    unfolding upd_buf_def using that by (intro kernel.equality) simp_all
  have "iderw b (upd_buf b (\<lambda>c. c\<lparr>b_dirty := True\<rparr>) k) =
      Ok () (upd_buf b (\<lambda>c. c\<lparr>b_dirty := False, b_valid := True\<rparr>)
        (k\<lparr>memdisk := (memdisk k)(n := d)\<rparr>))"
    using o(2,4,5,6,10,11) assms(2)
    by (simp add: iderw_def holdingsleep_eq fs_ready_def upd_buf_def buf_ok_def)
  then show ?thesis by (simp add: same)
qed

lemma bwrite_ok:
  assumes out: "out_buf b n d k" and rdy: "fs_ready k" and "\<not> crashn_enable k"
  shows "bwrite b k = Ok () (k\<lparr>memdisk := (memdisk k)(n := d)\<rparr>)"
  using iderw_write [OF out rdy] out_bufD [OF out] assms
  by (simp add: bwrite_def holdingsleep_eq fs_ready_def buf_ok_def)

lemma remove1_shape:
  "distinct l \<Longrightarrow> set l = {..< m} \<Longrightarrow> b < m \<Longrightarrow>
     distinct (b # remove1 b l) \<and> set (b # remove1 b l) = {..< m}"
  by auto

lemma wakeup1_fields [simp]:
  "bcache_buf (wakeup1 ch k) = bcache_buf k" "bcache_lru (wakeup1 ch k) = bcache_lru k"
  "memdisk (wakeup1 ch k) = memdisk k" "disksize (wakeup1 ch k) = disksize k"
  by (simp_all add: wakeup1_def)

lemma brelse_ok:
  assumes out: "out_buf b n d k" and rdy: "fs_ready k" and clean: "memdisk k n = d"
  shows "\<exists>k'. brelse b k = Ok () k' \<and> bc_inv None k' \<and> memdisk k' = memdisk k \<and> io_step k k'"
proof -
  note o = out_bufD [OF out]
  let ?l = "\<lparr>sl_locked = False, sl_pid = 0\<rparr>"
  let ?c = "(bcache_buf k ! b)\<lparr>b_lock := ?l, b_refcnt := 0\<rparr>"
  let ?k1 = "k\<lparr>bcache_buf := (bcache_buf k)[b := ?c]\<rparr>"
  let ?k2 = "(wakeup1 (ChSleeplock (SlBuf b)) ?k1)\<lparr>bcache_lru := b # remove1 b (bcache_lru k)\<rparr>"
  have inv1: "bc_inv None ?k1"
    by (rule bc_inv_update [OF o(3,1)])
       (use o clean in \<open>auto simp: buf_ok_def b_key_def intro!: bc_keys_same\<close>)
  then have "bc_inv None ?k2"
    using remove1_shape [of "bcache_lru k" NBUF b] o(1)
    by (simp add: bc_inv_def bc_shape_def buf_ok_def)
  moreover have "io_step k ?k2"
    using io_step_updates(1) [of k b "\<lambda>_. ?c" k] by (simp add: upd_buf_def)
  moreover have "brelse b k = Ok () ?k2"
    using o rdy
    by (simp add: brelse_def holdingsleep_eq releasesleep_eq fs_ready_def buf_ok_def upd_buf_def
        wakeup1_def)
  ultimately show ?thesis by (intro exI [of _ ?k2]) simp
qed

section \<open>The contract of a block device\<close>

locale block_device =
  fixes rd :: "nat \<Rightarrow> 's \<Rightarrow> ('s, byte list) res"
    and wr :: "nat \<Rightarrow> byte list \<Rightarrow> 's \<Rightarrow> ('s, unit) res"
    and disk :: "'s \<Rightarrow> nat \<Rightarrow> byte list"
    and nblk :: nat
    and inv :: "'s \<Rightarrow> bool"
  assumes rd_ok: "inv s \<Longrightarrow> n < nblk \<Longrightarrow>
      \<exists>s'. rd n s = Ok (disk s n) s' \<and> inv s' \<and> disk s' = disk s"
    and wr_ok: "inv s \<Longrightarrow> n < nblk \<Longrightarrow> length d = BSIZE \<Longrightarrow>
      \<exists>s'. wr n d s = Ok () s' \<and> inv s' \<and> disk s' = (disk s)(n := d)"
    and disk_len: "inv s \<Longrightarrow> n < nblk \<Longrightarrow> length (disk s n) = BSIZE"
begin

primrec rd_all :: "nat list \<Rightarrow> 's \<Rightarrow> ('s, byte list) res" where
  "rd_all [] s = Ok [] s"
| "rd_all (n # ns) s = bnd (rd n s) (\<lambda>d s. bnd (rd_all ns s) (\<lambda>ds s. Ok (d @ ds) s))"

primrec wr_all :: "(nat \<times> byte list) list \<Rightarrow> 's \<Rightarrow> ('s, unit) res" where
  "wr_all [] s = Ok () s"
| "wr_all (nd # nds) s = bnd (wr (fst nd) (snd nd) s) (\<lambda>_ s. wr_all nds s)"

lemma rd_all_ok:
  "inv s \<Longrightarrow> \<forall>n \<in> set ns. n < nblk \<Longrightarrow>
     \<exists>s'. rd_all ns s = Ok (concat (map (disk s) ns)) s' \<and> inv s' \<and> disk s' = disk s"
proof (induction ns arbitrary: s)
  case (Cons n ns)
  then obtain s1 where "rd n s = Ok (disk s n) s1" "inv s1" "disk s1 = disk s"
    using rd_ok [of s n] by auto
  with Cons.IH [of s1] Cons.prems show ?case by auto
qed simp

lemma wr_all_ok:
  "inv s \<Longrightarrow> \<forall>(n, d) \<in> set nds. n < nblk \<and> length d = BSIZE \<Longrightarrow>
     \<exists>s'. wr_all nds s = Ok () s' \<and> inv s' \<and> disk s' = fold (\<lambda>(n, d) m. m(n := d)) nds (disk s)"
proof (induction nds arbitrary: s)
  case (Cons nd nds)
  obtain n d where nd: "nd = (n, d)" by (cases nd)
  with Cons.prems obtain s1 where "wr n d s = Ok () s1" "inv s1" "disk s1 = (disk s)(n := d)"
    using wr_ok [of s n d] by auto
  with Cons.IH [of s1] Cons.prems nd show ?case by auto
qed simp

lemma fold_upd_map_of:
  "distinct (map fst nds) \<Longrightarrow>
     fold (\<lambda>(n, d) m. m(n := d)) nds f = (\<lambda>n. case map_of nds n of Some d \<Rightarrow> d | None \<Rightarrow> f n)"
proof (induction nds arbitrary: f)
  case (Cons nd nds)
  obtain n d where nd: "nd = (n, d)" by (cases nd)
  have "map_of nds n = None" using Cons.prems nd by (simp add: map_of_eq_None_iff)
  with Cons nd show ?case by (auto split: option.splits)
qed simp

text \<open>Blocks written one after the other and read back in any order.\<close>

lemma wr_rd_all:
  assumes "inv s" "distinct (map fst nds)" "\<forall>(n, d) \<in> set nds. n < nblk \<and> length d = BSIZE"
    and "\<forall>n \<in> set ns. n < nblk"
  shows "\<exists>s'. bnd (wr_all nds s) (\<lambda>_ s. rd_all ns s) =
    Ok (concat (map (\<lambda>n. case map_of nds n of Some d \<Rightarrow> d | None \<Rightarrow> disk s n) ns)) s' \<and> inv s'"
proof -
  obtain s1 where s1: "wr_all nds s = Ok () s1" "inv s1"
    "disk s1 = fold (\<lambda>(n, d) m. m(n := d)) nds (disk s)" using wr_all_ok [OF assms(1,3)] by blast
  obtain s2 where "rd_all ns s1 = Ok (concat (map (disk s1) ns)) s2" "inv s2"
    using rd_all_ok [OF s1(2) assms(4)] by blast
  with s1 fold_upd_map_of [OF assms(2)] show ?thesis by simp
qed

end

text \<open>The two sequences of calls the file system makes: take a block, copy its bytes out and give
  it back; take a block, replace bytes of it, write it and give it back.\<close>

definition rd_block :: "nat \<Rightarrow> kernel \<Rightarrow> (kernel, byte list) res" where
  "rd_block n k =
     bnd (bread ROOTDEV n k) (\<lambda>b k.
     let d = b_data (bcache_buf k ! b) in bnd (brelse b k) (\<lambda>_ k. Ok d k))"

definition upd_block :: "nat \<Rightarrow> (byte list \<Rightarrow> byte list) \<Rightarrow> kernel \<Rightarrow> (kernel, unit) res" where
  "upd_block n f k =
     bnd (bread ROOTDEV n k) (\<lambda>b k.
     bnd (bwrite b (upd_buf b (\<lambda>c. c\<lparr>b_data := f (b_data c)\<rparr>) k)) (\<lambda>_ k. brelse b k))"

definition disk_ready :: "kernel \<Rightarrow> bool" where
  "disk_ready k \<longleftrightarrow> bc_inv None k \<and> fs_ready k \<and> \<not> crashn_enable k"

lemma disk_ready_io:
  "disk_ready k \<Longrightarrow> io_step k k' \<Longrightarrow> bc_inv None k' \<Longrightarrow> disk_ready k'"
  by (simp add: disk_ready_def fs_ready_io io_stepD)

lemma rd_block_ok:
  assumes "disk_ready k" "n < disksize k"
  shows "\<exists>k'. rd_block n k = Ok (memdisk k n) k' \<and> disk_ready k' \<and> memdisk k' = memdisk k \<and>
           io_step k k'"
proof -
  have inv: "bc_inv None k" and rdy: "fs_ready k" using assms by (simp_all add: disk_ready_def)
  obtain b k1 where k1: "bread 1 n k = Ok b k1" "out_buf b n (memdisk k n) k1"
    "memdisk k1 = memdisk k" "io_step k k1" using bread_ok [OF inv rdy assms(2)] by blast
  have "fs_ready k1" "memdisk k1 n = memdisk k n" using k1 rdy by (simp_all add: fs_ready_io)
  from brelse_ok [OF k1(2) this] obtain k2 where k2: "brelse b k1 = Ok () k2" "bc_inv None k2"
    "memdisk k2 = memdisk k1" "io_step k1 k2" by blast
  have "io_step k k2" using k1(4) k2(4) by (rule io_step_trans)
  with k1 k2 out_bufD(6) [OF k1(2)] disk_ready_io [OF assms(1) _ k2(2)] show ?thesis
    by (simp add: rd_block_def)
qed

lemma upd_block_ok:
  assumes "disk_ready k" "n < disksize k" "length (f (memdisk k n)) = BSIZE"
  shows "\<exists>k'. upd_block n f k = Ok () k' \<and> disk_ready k' \<and>
           memdisk k' = (memdisk k)(n := f (memdisk k n)) \<and> io_step k k'"
proof -
  have inv: "bc_inv None k" and rdy: "fs_ready k" and cr: "\<not> crashn_enable k"
    using assms by (simp_all add: disk_ready_def)
  obtain b k1 where k1: "bread 1 n k = Ok b k1" "out_buf b n (memdisk k n) k1"
    "memdisk k1 = memdisk k" "io_step k k1" using bread_ok [OF inv rdy assms(2)] by blast
  let ?d = "f (memdisk k n)"
  let ?k2 = "upd_buf b (\<lambda>c. c\<lparr>b_data := ?d\<rparr>) k1"
  let ?k3 = "?k2\<lparr>memdisk := (memdisk ?k2)(n := ?d)\<rparr>"
  have eq: "upd_buf b (\<lambda>c. c\<lparr>b_data := f (b_data c)\<rparr>) k1 = ?k2"
    using out_bufD(6) [OF k1(2)] by (simp add: upd_buf_def)
  have o2: "out_buf b n ?d ?k2" by (rule out_buf_data [OF k1(2) assms(3)])
  have io3: "io_step k ?k3" "io_step k ?k2" using k1(4) by simp_all
  have "bwrite b ?k2 = Ok () ?k3"
    using bwrite_ok [OF o2] fs_ready_io [OF io3(2)] io_stepD(8) [OF io3(2)] rdy cr by simp
  moreover obtain k4 where k4: "brelse b ?k3 = Ok () k4" "bc_inv None k4"
    "memdisk k4 = memdisk ?k3" "io_step ?k3 k4"
    using brelse_ok [OF out_buf_disk [OF o2 assms(3)]] fs_ready_io [OF io3(1)] rdy by auto
  moreover have "io_step k k4" using io3(1) k4(4) by (rule io_step_trans)
  ultimately show ?thesis
    using k1 disk_ready_io [OF assms(1) _ k4(2)] by (simp add: upd_block_def eq)
qed

lemma rd_blockE:
  assumes "rd_block n k = Ok d k1"
  obtains b kb where "bread (Suc 0) n k = Ok b kb" "b_data (bcache_buf kb ! b) = d"
    "brelse b kb = Ok () k1"
  using assms by (auto simp: rd_block_def Let_def elim!: bnd_OkE)

lemma upd_blockE:
  assumes "upd_block n f k = Ok u k1"
  obtains b kb kw where "bread (Suc 0) n k = Ok b kb"
    "bwrite b (upd_buf b (\<lambda>c. c\<lparr>b_data := f (b_data c)\<rparr>) kb) = Ok () kw" "brelse b kw = Ok () k1"
  using assms by (auto simp: upd_block_def elim!: bnd_OkE)

interpretation bufcache: block_device rd_block "\<lambda>n d. upd_block n (\<lambda>_. d)" memdisk "disksize k0"
  "\<lambda>k. disk_ready k \<and> io_step k0 k" for k0
proof
  show "\<exists>s'. rd_block n s = Ok (memdisk s n) s' \<and> (disk_ready s' \<and> io_step k0 s') \<and>
          memdisk s' = memdisk s" if "disk_ready s \<and> io_step k0 s" "n < disksize k0" for s n
    using rd_block_ok [of s n] that io_stepD(3) [of k0 s] by (auto intro: io_step_trans)
  show "\<exists>s'. upd_block n (\<lambda>_. d) s = Ok () s' \<and> (disk_ready s' \<and> io_step k0 s') \<and>
          memdisk s' = (memdisk s)(n := d)"
    if "disk_ready s \<and> io_step k0 s" "n < disksize k0" "length d = BSIZE" for s n d
    using upd_block_ok [of s n "\<lambda>_. d"] that io_stepD(3) [of k0 s] by (auto intro: io_step_trans)
  show "length (memdisk s n) = BSIZE" if "disk_ready s \<and> io_step k0 s" "n < disksize k0" for s n
    using that by (simp add: disk_ready_def bc_inv_def)
qed

section \<open>Properties\<close>

text \<open>Programs over the cache: write the blocks of a list, read the blocks of a list.\<close>

primrec read_blocks :: "nat list \<Rightarrow> kernel \<Rightarrow> (kernel, byte list) res" where
  "read_blocks [] k = Ok [] k"
| "read_blocks (n # ns) k = bnd (rd_block n k) (\<lambda>d k. bnd (read_blocks ns k) (\<lambda>ds k. Ok (d @ ds) k))"

primrec write_blocks :: "(nat \<times> byte list) list \<Rightarrow> kernel \<Rightarrow> (kernel, unit) res" where
  "write_blocks [] k = Ok () k"
| "write_blocks (nd # nds) k = bnd (upd_block (fst nd) (\<lambda>_. snd nd) k) (\<lambda>_ k. write_blocks nds k)"

lemma read_blocks_eq: "read_blocks ns k = bufcache.rd_all ns k"
  by (induction ns arbitrary: k) simp_all

lemma write_blocks_eq: "write_blocks nds k = bufcache.wr_all nds k"
  by (induction nds arbitrary: k) simp_all

lemma disk_ready_k0: "disk_ready k0"
proof -
  have "bc_keys (replicate 30 buf0)" by (simp add: bc_keys_def buf0_def)
  moreover have "buf_ok False k0 buf0" by (simp add: buf_ok_def buf0_def free_sl_def)
  ultimately show ?thesis
    by (auto simp: disk_ready_def bc_inv_def bc_shape_def fs_ready_def k0_def buf_ok_def)
qed

text \<open>C10: The buffer cache is a store of blocks: whatever the state of its thirty buffers, blocks
  written through it and read back in any order, with any number of evictions in between, give
  for each block the bytes written last, or the bytes on disk if it was not written.\<close>

theorem bcache_is_block_store:
  assumes "disk_ready k" "distinct (map fst nds)"
    and "\<forall>(n, d) \<in> set nds. n < disksize k \<and> length d = BSIZE" "\<forall>n \<in> set ns. n < disksize k"
  shows "\<exists>k'. bnd (write_blocks nds k) (\<lambda>_ k. read_blocks ns k) =
      Ok (concat (map (\<lambda>n. case map_of nds n of Some d \<Rightarrow> d | None \<Rightarrow> memdisk k n) ns)) k' \<and>
    disk_ready k'"
  using bufcache.wr_rd_all [of k k nds ns] assms unfolding write_blocks_eq read_blocks_eq by auto

theorem bcache_is_block_store_witness:
  "\<exists>k'. bnd (write_blocks [(3, replicate 512 1), (5, replicate 512 2)] k0) (\<lambda>_ k. read_blocks [5, 4, 3] k) =
      Ok (replicate 512 2 @ replicate 512 0 @ replicate 512 1) k' \<and> disk_ready k'"
  using bcache_is_block_store [OF disk_ready_k0, of "[(3, replicate 512 1), (5, replicate 512 2)]" "[5, 4, 3]"]
  by (simp add: k0_def)

lemma out_buf_crashn [simp]: "out_buf b n d (k\<lparr>crashn := c\<rparr>) = out_buf b n d k"
  by (simp add: out_buf_def bc_inv_def bc_shape_def buf_ok_def)

lemma bwrite_crash:
  assumes out: "out_buf b n d k" and rdy: "fs_ready k" and "crashn_enable k"
  shows "bwrite b k = (if crashn k \<le> 0 then Reboots (k\<lparr>crashn := crashn k - 1\<rparr>)
     else Ok () (k\<lparr>crashn := crashn k - 1, memdisk := (memdisk k)(n := d)\<rparr>))"
proof -
  let ?k = "k\<lparr>crashn := crashn k - 1\<rparr>"
  have "out_buf b n d ?k" "fs_ready ?k"
    using out rdy by (simp_all add: fs_ready_def)
  from iderw_write [OF this] out_bufD [OF out] assms show ?thesis
    by (simp add: bwrite_def holdingsleep_eq fs_ready_def buf_ok_def)
qed

lemma upd_block_crash:
  assumes inv: "bc_inv None k" and rdy: "fs_ready k" and en: "crashn_enable k"
    and n: "n < disksize k" and len: "length d = BSIZE"
  shows "\<exists>k'. (if crashn k \<le> 0 then upd_block n (\<lambda>_. d) k = Reboots k' \<and> memdisk k' = memdisk k
    else upd_block n (\<lambda>_. d) k = Ok () k' \<and> memdisk k' = (memdisk k)(n := d) \<and> bc_inv None k' \<and>
      crashn k' = crashn k - 1 \<and> fs_ready k' \<and> crashn_enable k' \<and> disksize k' = disksize k)"
proof -
  obtain b k1 where k1: "bread 1 n k = Ok b k1" "out_buf b n (memdisk k n) k1"
    "memdisk k1 = memdisk k" "io_step k k1" using bread_ok [OF inv rdy n] by blast
  let ?k2 = "upd_buf b (\<lambda>c. c\<lparr>b_data := d\<rparr>) k1"
  have o2: "out_buf b n d ?k2" by (rule out_buf_data [OF k1(2) len])
  have io2: "io_step k ?k2" using k1(4) by simp
  note f2 = fs_ready_io [OF io2] io_stepD(3,8,9) [OF io2]
  have bw: "bwrite b ?k2 = (if crashn k \<le> 0 then Reboots (?k2\<lparr>crashn := crashn k - 1\<rparr>)
     else Ok () (?k2\<lparr>crashn := crashn k - 1, memdisk := (memdisk ?k2)(n := d)\<rparr>))"
    using bwrite_crash [OF o2] f2 rdy en by simp
  have m2: "memdisk ?k2 = memdisk k" using k1(3) by (simp add: upd_buf_def)
  show ?thesis
  proof (cases "crashn k \<le> 0")
    case True
    with bw k1(1) m2 show ?thesis by (simp add: upd_block_def)
  next
    case False
    let ?k3 = "?k2\<lparr>crashn := crashn k - 1, memdisk := (memdisk ?k2)(n := d)\<rparr>"
    have "out_buf b n d (?k2\<lparr>crashn := crashn k - 1\<rparr>)" using o2 by simp
    from out_buf_disk [OF this len] have o3: "out_buf b n d ?k3" by simp
    have "fs_ready ?k3" using f2 rdy by (simp add: fs_ready_def)
    from brelse_ok [OF o3 this] obtain k4 where k4: "brelse b ?k3 = Ok () k4" "bc_inv None k4"
      "memdisk k4 = memdisk ?k3" "io_step ?k3 k4" by auto
    have "fs_ready k4" using \<open>fs_ready ?k3\<close> fs_ready_io [OF k4(4)] by simp
    with False bw k1(1) m2 k4 f2 en io_stepD(3,8,9) [OF k4(4)] show ?thesis
      by (simp add: upd_block_def)
  qed
qed

text \<open>C11: The crash counter of \<open>bwrite\<close> (\<open>sys_crashn\<close>) gives crash consistency at block granularity:
  with the counter at \<open>c\<close>, a sequence of writes either completes or reboots with exactly its first
  \<open>c\<close> blocks on disk, every other block untouched.\<close>

theorem crash_keeps_prefix:
  assumes "bc_inv None k" "fs_ready k" "crashn_enable k" "0 \<le> crashn k"
    and "\<forall>(n, d) \<in> set nds. n < disksize k \<and> length d = BSIZE"
  shows "\<exists>k'. write_blocks nds k = (if crashn k < int (length nds) then Reboots k' else Ok () k') \<and>
    memdisk k' = fold (\<lambda>(n, d) m. m(n := d)) (take (nat (crashn k)) nds) (memdisk k)"
  using assms
proof (induction nds arbitrary: k)
  case (Cons nd nds)
  obtain n d where nd: "nd = (n, d)" by (cases nd)
  have "n < disksize k" "length d = BSIZE" using Cons.prems nd by auto
  note step = upd_block_crash [OF Cons.prems(1-3) this]
  show ?case
  proof (cases "crashn k \<le> 0")
    case True
    with step Cons.prems(4) nd show ?thesis by auto
  next
    case False
    with step obtain k1 where k1: "upd_block n (\<lambda>_. d) k = Ok () k1" "memdisk k1 = (memdisk k)(n := d)"
      "bc_inv None k1" "crashn k1 = crashn k - 1" "fs_ready k1" "crashn_enable k1" "disksize k1 = disksize k"
      by auto
    have t: "take (nat (crashn k)) (nd # nds) = nd # take (nat (crashn k1)) nds"
      using False k1(4) by (simp add: take_Cons' nat_diff_distrib)
    have le: "(crashn k < int (length (nd # nds))) = (crashn k1 < int (length nds))" using k1(4) by auto
    show ?thesis using Cons.IH [OF k1(3,5,6)] False Cons.prems(5) k1 nd unfolding t le by simp
  qed
qed simp

theorem crash_keeps_prefix_witness:
  "\<exists>k'. write_blocks [(3, replicate 512 1), (5, replicate 512 2)] (k0\<lparr>crashn_enable := True, crashn := 1\<rparr>) = Reboots k' \<and>
    memdisk k' = (memdisk k0)(3 := replicate 512 1)"
proof -
  let ?k = "k0\<lparr>crashn_enable := True, crashn := 1\<rparr>"
  have "bc_inv None ?k" "fs_ready ?k"
    using disk_ready_k0 by (simp_all add: disk_ready_def bc_inv_def bc_shape_def buf_ok_def fs_ready_def)
  from crash_keeps_prefix [OF this, of "[(3, replicate 512 1), (5, replicate 512 2)]"] show ?thesis
    by (simp add: k0_def)
qed

end
