(* ===== verification/Layout.thy ===== *)
theory Layout
  imports Kernel_State
begin

text \<open>
  The on-disk structs of \<open>inc/fs.h\<close> as byte strings: little-endian fields without padding. The
  kernel copies them with \<open>memmove\<close>; \<open>mkfs.c\<close> writes them. An extent takes 8 bytes, a \<open>dinode\<close> 64,
  a \<open>dirent\<close> 16 and the superblock 16.
\<close>

definition u16_of :: "int \<Rightarrow> nat" where
  "u16_of x = nat (x mod 65536)"

definition s16_of :: "nat \<Rightarrow> int" where
  "s16_of n = (if n < 32768 then int n else int n - 65536)"

definition enc_extent :: "extent \<Rightarrow> byte list" where
  "enc_extent e = le_bytes 4 (startblkno e) @ le_bytes 4 (nblocks e)"

definition dec_extent :: "byte list \<Rightarrow> extent" where
  "dec_extent bs = \<lparr>startblkno = le_nat (slice 0 4 bs), nblocks = le_nat (slice 4 4 bs)\<rparr>"

definition enc_dinode :: "dinode \<Rightarrow> byte list" where
  "enc_dinode d = le_bytes 2 (u16_of (di_type d)) @ le_bytes 2 (u16_of (di_devid d)) @
     le_bytes 4 (di_size d) @ concat (map enc_extent (di_data d))"

definition dec_dinode :: "byte list \<Rightarrow> dinode" where
  "dec_dinode bs =
     \<lparr>di_type = s16_of (le_nat (slice 0 2 bs)), di_devid = s16_of (le_nat (slice 2 2 bs)),
      di_size = le_nat (slice 4 4 bs),
      di_data = map (\<lambda>i. dec_extent (slice (8 + 8 * i) 8 bs)) [0 ..< EXTENT_N]\<rparr>"

definition enc_dirent :: "dirent \<Rightarrow> byte list" where
  "enc_dirent d = le_bytes 2 (de_inum d) @ de_name d"

definition dec_dirent :: "byte list \<Rightarrow> dirent" where
  "dec_dirent bs = \<lparr>de_inum = le_nat (slice 0 2 bs), de_name = slice 2 DIRSIZ bs\<rparr>"

definition enc_superblock :: "superblock \<Rightarrow> byte list" where
  "enc_superblock s = le_bytes 4 (sb_size s) @ le_bytes 4 (sb_nblocks s) @
     le_bytes 4 (bmapstart s) @ le_bytes 4 (inodestart s)"

definition dec_superblock :: "byte list \<Rightarrow> superblock" where
  "dec_superblock bs =
     \<lparr>sb_size = le_nat (slice 0 4 bs), sb_nblocks = le_nat (slice 4 4 bs),
      bmapstart = le_nat (slice 8 4 bs), inodestart = le_nat (slice 12 4 bs)\<rparr>"

section \<open>Values the fields can hold\<close>

definition extent_ok :: "extent \<Rightarrow> bool" where
  "extent_ok e \<longleftrightarrow> startblkno e < 4294967296 \<and> nblocks e < 4294967296"

definition short_ok :: "int \<Rightarrow> bool" where
  "short_ok x \<longleftrightarrow> - 32768 \<le> x \<and> x < 32768"

definition dinode_ok :: "dinode \<Rightarrow> bool" where
  "dinode_ok d \<longleftrightarrow> short_ok (di_type d) \<and> short_ok (di_devid d) \<and> di_size d < 4294967296 \<and>
     length (di_data d) = EXTENT_N \<and> (\<forall>e \<in> set (di_data d). extent_ok e)"

definition dirent_ok :: "dirent \<Rightarrow> bool" where
  "dirent_ok d \<longleftrightarrow> de_inum d < 65536 \<and> length (de_name d) = DIRSIZ"

definition superblock_ok :: "superblock \<Rightarrow> bool" where
  "superblock_ok s \<longleftrightarrow> sb_size s < 4294967296 \<and> sb_nblocks s < 4294967296 \<and>
     bmapstart s < 4294967296 \<and> inodestart s < 4294967296"

section \<open>Decoding what was encoded\<close>

lemma slice_append_hd: "n = length xs \<Longrightarrow> slice 0 n (xs @ ys) = xs"
  by (simp add: slice_def)

lemma slice_append_tl: "length xs \<le> i \<Longrightarrow> slice i n (xs @ ys) = slice (i - length xs) n ys"
  by (simp add: slice_def)

lemma slice_all: "n = length xs \<Longrightarrow> slice 0 n xs = xs"
  by (simp add: slice_def)

lemmas slice_append = slice_append_hd slice_append_tl slice_all

lemma le_nat_bytes_2: "x < 65536 \<Longrightarrow> le_nat (le_bytes 2 x) = x"
  by (simp add: le_nat_le_bytes)

lemma le_nat_bytes_4: "x < 4294967296 \<Longrightarrow> le_nat (le_bytes 4 x) = x"
  by (simp add: le_nat_le_bytes)

lemma u16_less: "u16_of x < 65536"
  by (simp add: u16_of_def nat_less_iff)

lemma s16_u16: "short_ok x \<Longrightarrow> s16_of (u16_of x) = x"
proof (cases "0 \<le> x")
  case False
  assume x: "short_ok x"
  with False have "x mod 65536 = x + 65536"
    by (subst mod_add_self2 [symmetric]) (rule mod_pos_pos_trivial; simp add: short_ok_def)
  with False x show ?thesis by (simp add: s16_of_def u16_of_def short_ok_def)
qed (simp add: s16_of_def u16_of_def short_ok_def)

lemma length_enc_extent [simp]: "length (enc_extent e) = 8"
  by (simp add: enc_extent_def)

lemma dec_enc_extent: "extent_ok e \<Longrightarrow> dec_extent (enc_extent e) = e"
  by (simp add: dec_extent_def enc_extent_def slice_append le_nat_bytes_4 extent_ok_def)

lemma length_concat_extents [simp]: "length (concat (map enc_extent es)) = 8 * length es"
  by (induction es) simp_all

lemma slice_concat_extents:
  "i < length es \<Longrightarrow> slice (8 * i) 8 (concat (map enc_extent es)) = enc_extent (es ! i)"
proof (induction es arbitrary: i)
  case (Cons e es)
  show ?case
  proof (cases i)
    case (Suc j)
    with Cons show ?thesis by (simp add: slice_append_tl)
  qed (simp add: slice_append_hd)
qed simp

lemma length_enc_dinode [simp]: "dinode_ok d \<Longrightarrow> length (enc_dinode d) = 64"
  by (simp add: enc_dinode_def dinode_ok_def)

lemma dec_enc_dinode:
  assumes "dinode_ok d"
  shows "dec_dinode (enc_dinode d) = d"
proof -
  let ?hd = "le_bytes 2 (u16_of (di_type d)) @ le_bytes 2 (u16_of (di_devid d)) @ le_bytes 4 (di_size d)"
  have enc: "enc_dinode d = ?hd @ concat (map enc_extent (di_data d))" by (simp add: enc_dinode_def)
  have ext: "slice (8 + 8 * i) 8 (enc_dinode d) = enc_extent (di_data d ! i)" if "i < 7" for i
  proof -
    have "length ?hd = 8" by simp
    then have "slice (8 + 8 * i) 8 (enc_dinode d) = slice (8 * i) 8 (concat (map enc_extent (di_data d)))"
      unfolding enc by (subst slice_append_tl) simp_all
    with that assms show ?thesis by (simp add: slice_concat_extents dinode_ok_def)
  qed
  have "map (\<lambda>i. dec_extent (slice (8 + 8 * i) 8 (enc_dinode d))) [0 ..< 7] = di_data d"
    by (rule nth_equalityI) (use assms in \<open>simp_all add: ext dec_enc_extent dinode_ok_def\<close>)
  moreover have "di_type (dec_dinode (enc_dinode d)) = di_type d"
    "di_devid (dec_dinode (enc_dinode d)) = di_devid d" "di_size (dec_dinode (enc_dinode d)) = di_size d"
    using assms u16_less
    by (simp_all add: dec_dinode_def enc_dinode_def slice_append le_nat_bytes_2 le_nat_bytes_4
        dinode_ok_def s16_u16)
  ultimately show ?thesis by (simp add: dec_dinode_def)
qed

lemma length_enc_dirent [simp]: "dirent_ok d \<Longrightarrow> length (enc_dirent d) = 16"
  by (simp add: enc_dirent_def dirent_ok_def)

lemma dec_enc_dirent: "dirent_ok d \<Longrightarrow> dec_dirent (enc_dirent d) = d"
  by (simp add: dec_dirent_def enc_dirent_def slice_append le_nat_bytes_2 dirent_ok_def)

lemma dec_enc_superblock: "superblock_ok s \<Longrightarrow> dec_superblock (enc_superblock s) = s"
  by (simp add: dec_superblock_def enc_superblock_def slice_append le_nat_bytes_4 superblock_ok_def)

text \<open>Any 64 bytes are an inode the kernel can hold.\<close>

lemma dinode_ok_dec: "length bs = 64 \<Longrightarrow> dinode_ok (dec_dinode bs)"
proof -
  assume len: "length bs = 64"
  have two: "le_nat (slice i 2 bs) < 65536" if "i + 2 \<le> 64" for i
    using le_nat_less [of "slice i 2 bs"] that len by simp
  have four: "le_nat (slice i 4 bs) < 4294967296" if "i + 4 \<le> 64" for i
    using le_nat_less [of "slice i 4 bs"] that len by simp
  have four': "le_nat (slice j 4 (slice i 8 bs)) < 4294967296" if "i + 8 \<le> 64" "j \<le> 4" for i j
    using le_nat_less [of "slice j 4 (slice i 8 bs)"] that len by simp
  show ?thesis
    using two [of 0] two [of 2] four [of 4] four'
    by (auto simp: dinode_ok_def dec_dinode_def short_ok_def s16_of_def extent_ok_def dec_extent_def)
qed

section \<open>Properties\<close>



end
