(* ===== verification/Console.thy ===== *)
theory Console
  imports Sched
begin

unbundle bit_operations_syntax

text \<open>
  \<open>kernel/console.c\<close>: number formatting, \<open>cprintf\<close>, output to the serial port and to the CGA
  screen, the input line discipline of \<open>consoleintr\<close>, and the device's \<open>consoleread\<close> and
  \<open>consolewrite\<close>. The bytes sent to the serial port are \<open>cons_out\<close>; the screen is the array \<open>crt\<close>
  with the cursor \<open>crt_pos\<close> that the CRT controller holds.
\<close>

section \<open>Formatting numbers\<close>

abbreviation (input) BACKSPACE :: int where "BACKSPACE \<equiv> 256"
abbreviation (input) INPUT_BUF :: nat where "INPUT_BUF \<equiv> 128"

definition digits_tab :: string where
  "digits_tab = ''0123456789abcdef''"

definition digit_char :: "nat \<Rightarrow> byte" where
  "digit_char d = of_char (digits_tab ! d)"

text \<open>\<open>do { buf[i++] = digits[x % base]; } while ((x /= base) != 0);\<close>, least significant digit
  first. With a base below 2 the C loop would not end.\<close>

function digits_of :: "nat \<Rightarrow> nat \<Rightarrow> byte list" where
  "digits_of base x =
     (if base < 2 then [] else digit_char (x mod base) #
       (if x div base = 0 then [] else digits_of base (x div base)))"
  by pat_completeness auto
termination
proof (relation "measure snd")
  fix base x :: nat
  assume "\<not> base < 2" "x div base \<noteq> 0"
  then show "((base, x div base), (base, x)) \<in> measure snd" by (cases "x = 0") simp_all
qed simp

declare digits_of.simps [simp del]

definition printint :: "int \<Rightarrow> nat \<Rightarrow> bool \<Rightarrow> byte list" where
  "printint xx base sign =
     (let neg = sign \<and> xx < 0;
          x = nat ((if neg then - xx else xx) mod 4294967296);
          buf = digits_of base x
      in rev (if neg then buf @ [45] else buf))"

definition printint64 :: "int \<Rightarrow> nat \<Rightarrow> bool \<Rightarrow> byte list" where
  "printint64 xx base sign =
     (let neg = sign \<and> xx < 0;
          x = nat ((if neg then - xx else xx) mod 18446744073709551616);
          buf = digits_of base x
      in rev (if neg then buf @ [45] else buf))"

section \<open>Characters to the serial port and to the screen\<close>

definition uartputc :: "int \<Rightarrow> kernel \<Rightarrow> kernel" where
  "uartputc c k = (if uart k then k\<lparr>cons_out := cons_out k @ [word_of_int c]\<rparr> else k)"

text \<open>\<open>cgaputc\<close> in its two steps: the character and the new cursor, then the scroll.\<close>

definition cga_place :: "int \<Rightarrow> kernel \<Rightarrow> (kernel, nat) res" where
  "cga_place c k =
     (if c = 10 then Ok (crt_pos k + 80 - crt_pos k mod 80) k
      else if c = BACKSPACE then Ok (if crt_pos k > 0 then crt_pos k - 1 else crt_pos k) k
      else if crt_pos k < length (crt k)
      then Ok (crt_pos k + 1) (k\<lparr>crt := (crt k)[crt_pos k := nat (c mod 256) OR 0x0700]\<rparr>)
      else Undef ''crt'')"

definition cga_scroll :: "nat \<Rightarrow> nat list \<Rightarrow> nat \<times> nat list" where
  "cga_scroll pos cells =
     (if pos div 80 \<ge> 24
      then (let cells = overwrite cells 0 (slice 80 (23 * 80) cells); pos = pos - 80
            in (pos, overwrite cells pos (replicate (24 * 80 - pos) 0)))
      else (pos, cells))"

definition cgaputc :: "int \<Rightarrow> kernel \<Rightarrow> (kernel, unit) res" where
  "cgaputc c k =
     bnd (cga_place c k) (\<lambda>pos k.
     if pos > 25 * 80 then Panic ''pos under/overflow''
     else (let (pos, cells) = cga_scroll pos (crt k)
           in if pos < length cells
              then Ok () (k\<lparr>crt := cells[pos := 0x0720], crt_pos := pos\<rparr>)
              else Undef ''crt''))"

definition consputc :: "int \<Rightarrow> kernel \<Rightarrow> (kernel, unit) res" where
  "consputc c k =
     cgaputc c (if c = BACKSPACE then uartputc 8 (uartputc 32 (uartputc 8 k)) else uartputc c k)"

fun consputs :: "int list \<Rightarrow> kernel \<Rightarrow> (kernel, unit) res" where
  "consputs [] k = Ok () k"
| "consputs (c # cs) k = bnd (consputc c k) (\<lambda>_ k. consputs cs k)"

section \<open>Formatted output\<close>

text \<open>The variable arguments of \<open>cprintf\<close>: an integer, or a string pointer that may be null.\<close>

datatype parg = PInt int | PStr "byte list option"

definition null_str :: "byte list" where
  "null_str = map of_char ''(null)''"

text \<open>The characters \<open>cprintf\<close> sends to \<open>consputc\<close> for a format without its NUL; \<open>None\<close> when the
  format asks for an argument that was not passed or of another kind. \<open>cfmt_spec\<close> is the
  \<open>reswitch\<close> label, entered after a percent sign.\<close>

fun cfmt :: "byte list \<Rightarrow> parg list \<Rightarrow> byte list option"
  and cfmt_spec :: "bool \<Rightarrow> byte list \<Rightarrow> parg list \<Rightarrow> byte list option" where
  "cfmt [] args = Some []"
| "cfmt (c # fmt) args =
     (if c \<noteq> 37 then map_option (Cons c) (cfmt fmt args) else cfmt_spec False fmt args)"
| "cfmt_spec l [] args = Some []"
| "cfmt_spec l (c # fmt) args =
     (if c = 100 then
        (case args of PInt x # args \<Rightarrow>
            map_option (append (if l then printint64 x 10 True else printint (i32 x) 10 True))
              (cfmt fmt args)
         | _ \<Rightarrow> None)
      else if c = 108 then cfmt_spec (\<not> l) fmt args
      else if c = 120 \<or> c = 112 then
        (case args of PInt x # args \<Rightarrow>
            map_option (append (if l then printint64 x 16 False else printint (i32 x) 16 False))
              (cfmt fmt args)
         | _ \<Rightarrow> None)
      else if c = 115 then
        (case args of PStr s # args \<Rightarrow>
            map_option (append (case s of None \<Rightarrow> null_str | Some b \<Rightarrow> b)) (cfmt fmt args)
         | _ \<Rightarrow> None)
      else if c = 37 then map_option (Cons 37) (cfmt fmt args)
      else map_option (append [37, c]) (cfmt fmt args))"

definition cprintf :: "byte list \<Rightarrow> parg list \<Rightarrow> kernel \<Rightarrow> (kernel, unit) res" where
  "cprintf fmt args k =
     bnd (if cons_locking k then acquire ConsLock k else Ok () k) (\<lambda>_ k.
     case cfmt fmt args of
       None \<Rightarrow> Undef ''va_arg''
     | Some out \<Rightarrow>
         bnd (consputs (map uint out) k) (\<lambda>_ k.
         if cons_locking k then release ConsLock k else Ok () k))"

section \<open>Input\<close>

definition ring_at :: "kernel \<Rightarrow> nat \<Rightarrow> byte" where
  "ring_at k i = in_buf k ! (i mod INPUT_BUF)"

text \<open>The loop of the kill-line character: at most \<open>INPUT_BUF\<close> characters are being edited, which
  is the fuel \<open>consoleintr\<close> gives it.\<close>

fun kill_line :: "nat \<Rightarrow> kernel \<Rightarrow> (kernel, unit) res" where
  "kill_line 0 k = OutOfFuel"
| "kill_line (Suc n) k =
     (if in_e k \<noteq> in_w k \<and> ring_at k (sub32 (in_e k) 1) \<noteq> 10
      then bnd (consputc BACKSPACE (k\<lparr>in_e := sub32 (in_e k) 1\<rparr>)) (\<lambda>_ k. kill_line n k)
      else Ok () k)"

definition consoleintr1 :: "int \<Rightarrow> kernel \<Rightarrow> (kernel, unit) res" where
  "consoleintr1 c k =
     (if c = 16 then Ok () k
      else if c = 21 then kill_line (INPUT_BUF + 1) k
      else if c = 8 \<or> c = 127 then
        (if in_e k \<noteq> in_w k then consputc BACKSPACE (k\<lparr>in_e := sub32 (in_e k) 1\<rparr>) else Ok () k)
      else if c \<noteq> 0 \<and> sub32 (in_e k) (in_r k) < INPUT_BUF then
        (let c = (if c = 13 then 10 else c);
             k = k\<lparr>in_buf := (in_buf k)[in_e k mod INPUT_BUF := word_of_int c],
                   in_e := w32 (in_e k + 1)\<rparr>
         in bnd (consputc c k) (\<lambda>_ k.
            if c = 10 \<or> c = 4 \<or> in_e k = w32 (in_r k + INPUT_BUF)
            then wakeup ChInput (k\<lparr>in_w := in_e k\<rparr>)
            else Ok () k))
      else Ok () k)"

fun consoleintr_loop :: "int list \<Rightarrow> kernel \<Rightarrow> (kernel, unit) res" where
  "consoleintr_loop [] k = Ok () k"
| "consoleintr_loop (c # cs) k =
     (if c < 0 then Ok () k else bnd (consoleintr1 c k) (\<lambda>_ k. consoleintr_loop cs k))"

text \<open>\<open>consoleintr\<close> on the values \<open>getc\<close> returns, one per call and negative at the end. The result
  tells whether \<open>procdump\<close> is called after the lock is released.\<close>

definition consoleintr :: "int list \<Rightarrow> kernel \<Rightarrow> (kernel, bool) res" where
  "consoleintr cs k =
     bnd (acquire ConsLock k) (\<lambda>_ k.
     bnd (consoleintr_loop cs k) (\<lambda>_ k.
     bnd (release ConsLock k) (\<lambda>_ k.
     Ok (16 \<in> set (takeWhile (\<lambda>c. 0 \<le> c) cs)) k)))"

text \<open>\<open>consoleread\<close>: the value returned and the bytes stored at \<open>dst\<close>. The loop waits at the inner
  \<open>while\<close> by sleeping; \<open>consoleread_wake\<close> goes on with the \<open>n\<close> bytes still to read.\<close>

fun consoleread_loop :: "nat \<Rightarrow> nat \<Rightarrow> kernel \<Rightarrow> (kernel, int \<times> byte list) res" where
  "consoleread_loop target 0 k =
     bnd (release ConsLock k) (\<lambda>_ k. Ok (int target, []) k)"
| "consoleread_loop target (Suc n) k =
     (if in_r k = in_w k then
        bnd (myproc k) (\<lambda>p k.
        if killed (ptable k ! p) then bnd (release ConsLock k) (\<lambda>_ k. Ok (-1, []) k)
        else bnd (sleep ChInput ConsLock k) (\<lambda>_ k. Undef ''sched returned''))
      else
        (let c = ring_at k (in_r k); k' = k\<lparr>in_r := w32 (in_r k + 1)\<rparr>
         in if c = 4 then
              bnd (release ConsLock (if Suc n < target then k else k'))
                (\<lambda>_ k. Ok (int target - int (Suc n), []) k)
            else if c = 10 then
              bnd (release ConsLock k') (\<lambda>_ k. Ok (int target - int n, [c]) k)
            else bnd (consoleread_loop target n k')
                   (\<lambda>(r, bs) k. Ok (r, c # bs) k)))"

definition consoleread :: "int \<Rightarrow> kernel \<Rightarrow> (kernel, int \<times> byte list) res" where
  "consoleread n k =
     bnd (acquire ConsLock k) (\<lambda>_ k.
     if n > 0 then consoleread_loop (nat n) (nat n) k
     else bnd (release ConsLock k) (\<lambda>_ k. Ok (0, []) k))"

definition consoleread_wake :: "nat \<Rightarrow> nat \<Rightarrow> kernel \<Rightarrow> (kernel, int \<times> byte list) res" where
  "consoleread_wake target n k =
     bnd (sleep_wake ConsLock k) (\<lambda>_ k. consoleread_loop target n k)"

definition consolewrite :: "byte list \<Rightarrow> int \<Rightarrow> kernel \<Rightarrow> (kernel, int) res" where
  "consolewrite buf n k =
     bnd (acquire ConsLock k) (\<lambda>_ k.
     if length buf < nat n then Undef ''buffer overrun''
     else bnd (consputs (map uint (take (nat n) buf)) k) (\<lambda>_ k.
          bnd (release ConsLock k) (\<lambda>_ k. Ok n k)))"

definition consoleinit :: "kernel \<Rightarrow> kernel" where
  "consoleinit k = k\<lparr>cons_locking := True\<rparr>"

section \<open>Output never panics\<close>

definition crt_ok :: "kernel \<Rightarrow> bool" where
  "crt_ok k \<longleftrightarrow> 25 * 80 \<le> length (crt k) \<and> crt_pos k < 24 * 80"

text \<open>What writing to the console may change.\<close>

definition cons_erase :: "kernel \<Rightarrow> kernel" where
  "cons_erase k = k\<lparr>cons_out := [], crt := [], crt_pos := 0\<rparr>"

definition cons_step :: "kernel \<Rightarrow> kernel \<Rightarrow> bool" where
  "cons_step k k' \<longleftrightarrow> cons_erase k' = cons_erase k"

lemma cons_step_refl [simp]: "cons_step k k"
  by (simp add: cons_step_def)

lemma cons_step_trans: "cons_step a b \<Longrightarrow> cons_step b c \<Longrightarrow> cons_step a c"
  by (simp add: cons_step_def)

lemma cons_step_uartputc [simp]: "cons_step k (uartputc c k') = cons_step k k'"
  by (simp add: cons_step_def cons_erase_def uartputc_def)

lemma cons_step_field:
  assumes "cons_step k k'" "\<And>k a b c. f (k\<lparr>cons_out := a, crt := b, crt_pos := c\<rparr>) = f k"
  shows "f k' = f k"
  using assms unfolding cons_step_def cons_erase_def by metis

lemma cons_stepD:
  assumes "cons_step k k'"
  shows "held k' = held k" "in_r k' = in_r k" "in_w k' = in_w k" "in_e k' = in_e k"
    "in_buf k' = in_buf k" "ptable k' = ptable k" "curproc k' = curproc k"
    "cons_locking k' = cons_locking k" "uart k' = uart k"
  by (rule cons_step_field [OF assms], simp)+

lemma crt_ok_uartputc [simp]: "crt_ok (uartputc c k) = crt_ok k"
  by (simp add: crt_ok_def uartputc_def)

lemma cons_out_uartputc: "cons_out (uartputc c k) = cons_out k @ (if uart k then [word_of_int c] else [])"
  by (simp add: uartputc_def)

lemma uart_uartputc [simp]: "uart (uartputc c k) = uart k"
  by (simp add: uartputc_def)

text \<open>Scrolling brings the cursor back onto the 24 lines in use.\<close>

lemma cga_scroll_ok:
  assumes "25 * 80 \<le> length cells" "pos \<le> 24 * 80" "cga_scroll pos cells = (pos', cells')"
  shows "pos' < 24 * 80 \<and> length cells' = length cells"
proof (cases "pos div 80 \<ge> 24")
  case True
  then have "24 * 80 \<le> pos" by (simp add: less_eq_div_iff_mult_less_eq)
  with assms(2) have pos: "pos = 1920" by simp
  define z :: "nat list" where "z = replicate (24 * 80 - (pos - 80)) 0"
  have r: "pos' = pos - 80" "cells' = overwrite (overwrite cells 0 (slice 80 (23 * 80) cells)) (pos - 80) z"
    using assms(3) True unfolding cga_scroll_def Let_def z_def if_P [OF True] prod.inject
    by blast+
  have "length z = 80" by (simp add: z_def pos)
  moreover have "length (overwrite cells 0 (slice 80 (23 * 80) cells)) = length cells"
    using assms(1) by simp
  ultimately have "length cells' = length cells" using assms(1) by (simp add: r pos)
  with r(1) show ?thesis by (simp add: pos)
next
  case False
  then have "pos < 24 * 80" by (simp add: not_le div_less_iff_less_mult)
  with assms(3) False show ?thesis by (simp add: cga_scroll_def)
qed

lemma cga_place_ok:
  assumes "crt_ok k"
  shows "\<exists>pos k'. cga_place c k = Ok pos k' \<and> pos \<le> 24 * 80 \<and> length (crt k') = length (crt k) \<and>
           cons_step k k' \<and> cons_out k' = cons_out k"
proof -
  have pos: "crt_pos k < 1920" "crt_pos k < length (crt k)" using assms by (auto simp: crt_ok_def)
  define q where "q = crt_pos k div 80"
  have "crt_pos k = 80 * q + crt_pos k mod 80" by (simp add: q_def)
  moreover have "q < 24" using pos(1) by (simp add: q_def less_mult_imp_div_less)
  ultimately have "crt_pos k + 80 - crt_pos k mod 80 \<le> 1920" by linarith
  with pos show ?thesis by (auto simp: cga_place_def cons_step_def cons_erase_def)
qed

lemma cgaputc_ok:
  assumes "crt_ok k"
  shows "\<exists>k'. cgaputc c k = Ok () k' \<and> crt_ok k' \<and> cons_step k k' \<and> cons_out k' = cons_out k"
proof -
  obtain pos k1 where k1: "cga_place c k = Ok pos k1" "pos \<le> 24 * 80"
    "length (crt k1) = length (crt k)" "cons_step k k1" "cons_out k1 = cons_out k"
    using cga_place_ok [OF assms] by blast
  have len: "25 * 80 \<le> length (crt k1)" using k1(3) assms by (simp add: crt_ok_def)
  obtain pos' cells where r: "cga_scroll pos (crt k1) = (pos', cells)" by fastforce
  have c: "pos' < 24 * 80" "length cells = length (crt k1)" using cga_scroll_ok [OF len k1(2) r] by auto
  let ?k = "k1\<lparr>crt := cells[pos' := 0x0720], crt_pos := pos'\<rparr>"
  have "cgaputc c k = Ok () ?k" using k1(1,2) r c len by (simp add: cgaputc_def)
  moreover have "crt_ok ?k" "cons_step k1 ?k" using c len
    by (simp_all add: crt_ok_def cons_step_def cons_erase_def)
  ultimately show ?thesis using k1 cons_step_trans [of k k1 ?k] by auto
qed

text \<open>The bytes a character sends to the serial port.\<close>

definition uart_bytes :: "int \<Rightarrow> byte list" where
  "uart_bytes c = (if c = BACKSPACE then [8, 32, 8] else [word_of_int c])"

lemma consputc_ok:
  assumes "crt_ok k"
  shows "\<exists>k'. consputc c k = Ok () k' \<and> crt_ok k' \<and> cons_step k k' \<and>
           cons_out k' = cons_out k @ (if uart k then uart_bytes c else [])"
proof -
  let ?k = "if c = BACKSPACE then uartputc 8 (uartputc 32 (uartputc 8 k)) else uartputc c k"
  have "crt_ok ?k" "cons_step k ?k" using assms by simp_all
  moreover have "cons_out ?k = cons_out k @ (if uart k then uart_bytes c else [])"
    by (simp add: cons_out_uartputc uart_bytes_def)
  moreover obtain k' where "cgaputc c ?k = Ok () k'" "crt_ok k'" "cons_step ?k k'"
    "cons_out k' = cons_out ?k" using cgaputc_ok [OF calculation(1)] by blast
  ultimately show ?thesis using cons_step_trans [of k ?k k'] by (simp add: consputc_def)
qed

lemma consputs_ok:
  "crt_ok k \<Longrightarrow> \<exists>k'. consputs cs k = Ok () k' \<and> crt_ok k' \<and> cons_step k k' \<and>
     cons_out k' = cons_out k @ (if uart k then concat (map uart_bytes cs) else [])"
proof (induction cs arbitrary: k)
  case (Cons c cs)
  obtain k1 where k1: "consputc c k = Ok () k1" "crt_ok k1" "cons_step k k1"
    "cons_out k1 = cons_out k @ (if uart k then uart_bytes c else [])"
    using consputc_ok [OF Cons.prems] by blast
  obtain k2 where k2: "consputs cs k1 = Ok () k2" "crt_ok k2" "cons_step k1 k2"
    "cons_out k2 = cons_out k1 @ (if uart k1 then concat (map uart_bytes cs) else [])"
    using Cons.IH [OF k1(2)] by blast
  have "cons_step k k2" using k1(3) k2(3) by (rule cons_step_trans)
  with k1 k2 cons_stepD(9) [OF k1(3)] show ?case by auto
qed simp

section \<open>The line discipline\<close>

text \<open>What the input ring represents: the bytes of finished lines, waiting to be read, and the line
  being edited. \<open>line_in\<close> is the effect of a character on them, \<open>read_line\<close> what a read of \<open>n\<close> bytes
  takes, with \<open>None\<close> when it has to wait.\<close>

definition line_in :: "int \<Rightarrow> byte list \<times> byte list \<Rightarrow> byte list \<times> byte list" where
  "line_in c ql = (case ql of (q, l) \<Rightarrow>
     if c = 16 then (q, l)
     else if c = 21 then (q, [])
     else if c = 8 \<or> c = 127 then (q, butlast l)
     else if c \<noteq> 0 \<and> length q + length l < INPUT_BUF then
       (let c = (if c = 13 then 10 else c); l = l @ [word_of_int c]
        in if c = 10 \<or> c = 4 \<or> length q + length l = INPUT_BUF then (q @ l, []) else (q, l))
     else (q, l))"

fun read_line :: "bool \<Rightarrow> nat \<Rightarrow> byte list \<Rightarrow> (byte list \<times> byte list) option" where
  "read_line started 0 q = Some ([], q)"
| "read_line started (Suc n) [] = None"
| "read_line started (Suc n) (c # q) =
     (if c = 4 then Some ([], if started then c # q else q)
      else if c = 10 then Some ([c], q)
      else map_option (\<lambda>(bs, r). (c # bs, r)) (read_line True n q))"

definition input_rel :: "kernel \<Rightarrow> byte list \<times> byte list \<Rightarrow> bool" where
  "input_rel k ql \<longleftrightarrow> (case ql of (q, l) \<Rightarrow>
     length (in_buf k) = INPUT_BUF \<and> in_r k < 4294967296 \<and>
     in_w k = w32 (in_r k + length q) \<and> in_e k = w32 (in_r k + (length q + length l)) \<and>
     length q + length l \<le> INPUT_BUF \<and> 10 \<notin> set l \<and>
     (\<forall>i < length q + length l. ring_at k (in_r k + i) = (q @ l) ! i))"

lemma ring_at_w32 [simp]: "ring_at k (w32 x) = ring_at k x"
proof -
  have "x mod 4294967296 mod 128 = x mod 128" by (rule mod_mod_cancel) simp
  then show ?thesis by (simp add: ring_at_def w32_def)
qed

lemma input_rel_cong:
  "in_buf k' = in_buf k \<Longrightarrow> in_r k' = in_r k \<Longrightarrow> in_w k' = in_w k \<Longrightarrow> in_e k' = in_e k \<Longrightarrow>
     input_rel k' ql = input_rel k ql"
  by (simp add: input_rel_def ring_at_def)

lemma input_relD:
  assumes "input_rel k (q, l)"
  shows "in_e k = in_w k \<longleftrightarrow> l = []" "sub32 (in_e k) (in_r k) = length q + length l"
    "in_r k = in_w k \<longleftrightarrow> q = []" "length q + length l \<le> 128"
proof -
  note a = assms [unfolded input_rel_def, simplified]
  have "in_e k = in_w k \<Longrightarrow> length q + length l = length q"
    by (rule w32_add_cancel [of "in_r k"]) (use a in auto)
  then show "in_e k = in_w k \<longleftrightarrow> l = []" using a by auto
  show "sub32 (in_e k) (in_r k) = length q + length l" using a sub32_w32_add by simp
  have "in_r k = in_w k \<Longrightarrow> 0 = length q"
    by (rule w32_add_cancel [of "in_r k"]) (use a in auto)
  then show "in_r k = in_w k \<longleftrightarrow> q = []" using a by auto
  show "length q + length l \<le> 128" using a by simp
qed

lemma input_rel_at:
  "input_rel k (q, l) \<Longrightarrow> i < length q + length l \<Longrightarrow> ring_at k (in_r k + i) = (q @ l) ! i"
  by (simp add: input_rel_def)

lemma input_rel_erase:
  assumes rel: "input_rel k (q, l)" and "l \<noteq> []"
  shows "input_rel (k\<lparr>in_e := sub32 (in_e k) 1\<rparr>) (q, butlast l)"
    "ring_at k (sub32 (in_e k) 1) = last l"
proof -
  note a = rel [unfolded input_rel_def, simplified]
  obtain m x where l: "l = m @ [x]" using assms(2) by (metis append_butlast_last_id)
  have e: "sub32 (in_e k) 1 = w32 (in_r k + (length q + length m))"
    using a sub32_1_w32 [of "in_r k + (length q + length l)"] l by simp
  show "ring_at k (sub32 (in_e k) 1) = last l"
    using input_rel_at [OF rel, of "length q + length m"] l unfolding e by (simp add: nth_append)
  have "ring_at k (in_r k + i) = (q @ m) ! i" if "i < length q + length m" for i
    using input_rel_at [OF rel, of i] nth_append_left [of i "q @ m" "[x]"] l that by simp
  then show "input_rel (k\<lparr>in_e := sub32 (in_e k) 1\<rparr>) (q, butlast l)"
    using a l by (simp add: input_rel_def e ring_at_def)
qed

lemma ring_index_distinct:
  assumes "i < n" "n < 128"
  shows "(a + i) mod 128 \<noteq> (a + n) mod (128::nat)"
proof
  assume "(a + i) mod 128 = (a + n) mod 128"
  then have "128 dvd n - i" using assms mod_eq_dvd_iff_nat [of "a + i" "a + n" 128] by simp
  with assms show False using dvd_imp_le [of 128 "n - i"] by linarith
qed

lemma input_rel_insert:
  assumes rel: "input_rel k (q, l)" and room: "length q + length l < 128" and b: "b \<noteq> 10"
  shows "input_rel (k\<lparr>in_buf := (in_buf k)[in_e k mod 128 := b], in_e := w32 (in_e k + 1)\<rparr>) (q, l @ [b])"
proof -
  note a = rel [unfolded input_rel_def, simplified]
  let ?n = "length q + length l"
  have e: "in_e k mod 128 = (in_r k + ?n) mod 128"
  proof -
    have "(in_r k + ?n) mod 4294967296 mod 128 = (in_r k + ?n) mod 128" by (rule mod_mod_cancel) simp
    with a show ?thesis by (simp add: w32_def)
  qed
  have "(in_buf k)[in_e k mod 128 := b] ! ((in_r k + i) mod 128) = (q @ l @ [b]) ! i" if "i \<le> ?n" for i
  proof (cases "i = ?n")
    case True
    then show ?thesis using a unfolding e by (simp add: nth_append)
  next
    case False
    with that have "(in_r k + i) mod 128 \<noteq> in_e k mod 128" and i: "i < ?n"
      unfolding e using ring_index_distinct [of i ?n "in_r k"] room by simp_all
    then show ?thesis using input_rel_at [OF rel i] nth_append_left [of i "q @ l" "[b]"] i
      by (simp add: ring_at_def)
  qed
  moreover have "w32 (in_e k + 1) = w32 (in_r k + (length q + length (l @ [b])))" using a by simp
  ultimately show ?thesis using a room b by (simp add: input_rel_def ring_at_def less_Suc_eq_le)
qed

lemma input_rel_commit:
  "input_rel k (q, l) \<Longrightarrow> input_rel (k\<lparr>in_w := in_e k\<rparr>) (q @ l, [])"
  by (simp add: input_rel_def ring_at_def)

text \<open>A newline ends the line it is typed on, so it is never part of the line being edited; for the
  intermediate state the relation is stated without that clause.\<close>

lemma input_rel_insert_commit:
  assumes rel: "input_rel k (q, l)" and room: "length q + length l < 128"
  shows "input_rel (k\<lparr>in_buf := (in_buf k)[in_e k mod 128 := b], in_e := w32 (in_e k + 1),
                      in_w := w32 (in_e k + 1)\<rparr>) (q @ l @ [b], [])"
proof (cases "b = 10")
  case False
  from input_rel_commit [OF input_rel_insert [OF rel room False]] show ?thesis by simp
next
  case True
  let ?f = "\<lambda>c. k\<lparr>in_buf := (in_buf k)[in_e k mod 128 := c], in_e := w32 (in_e k + 1),
                  in_w := w32 (in_e k + 1)\<rparr>"
  have zero: "input_rel (?f 0) (q @ l @ [0], [])"
    using input_rel_commit [OF input_rel_insert [OF rel room, of 0]] by simp
  let ?n = "length q + length l"
  have at0: "ring_at (?f 0) (in_r k + i) = (q @ l @ [0]) ! i" if "i \<le> ?n" for i
    using input_rel_at [OF zero, of i] that by simp
  have idx: "(in_r k + ?n) mod 128 = in_e k mod 128"
  proof -
    have "(in_r k + ?n) mod 4294967296 mod 128 = (in_r k + ?n) mod 128" by (rule mod_mod_cancel) simp
    with rel show ?thesis by (simp add: input_rel_def w32_def)
  qed
  have "ring_at (?f b) (in_r k + i) = (q @ l @ [b]) ! i" if "i \<le> ?n" for i
  proof (cases "i = ?n")
    case True
    then show ?thesis using rel idx by (simp add: ring_at_def nth_append input_rel_def)
  next
    case False
    then have ne: "(in_r k + i) mod 128 \<noteq> in_e k mod 128"
      using ring_index_distinct [of i ?n "in_r k"] that room idx by simp
    have "(q @ l @ [c]) ! i = (q @ l) ! i" for c
      using False that nth_append_left [of i "q @ l" "[c]"] by simp
    with at0 [OF that] ne show ?thesis by (simp add: ring_at_def)
  qed
  with zero show ?thesis by (simp add: input_rel_def less_Suc_eq_le)
qed

lemma consputc_rel:
  assumes "crt_ok k" "input_rel k ql"
  shows "\<exists>k'. consputc c k = Ok () k' \<and> crt_ok k' \<and> cons_step k k' \<and> input_rel k' ql"
proof -
  obtain k' where "consputc c k = Ok () k'" "crt_ok k'" "cons_step k k'"
    using consputc_ok [OF assms(1)] by blast
  with assms(2) show ?thesis using input_rel_cong [of k' k ql] cons_stepD [of k k'] by auto
qed

lemma crt_ok_in [simp]:
  "crt_ok (k\<lparr>in_e := e\<rparr>) = crt_ok k" "crt_ok (k\<lparr>in_w := e\<rparr>) = crt_ok k"
  "crt_ok (k\<lparr>in_buf := b\<rparr>) = crt_ok k" "crt_ok (wakeup1 ch k) = crt_ok k"
  by (simp_all add: crt_ok_def wakeup1_def)

lemma kill_line_ok:
  assumes "crt_ok k" "input_rel k (q, l)" "length l < n"
  shows "\<exists>k'. kill_line n k = Ok () k' \<and> crt_ok k' \<and> input_rel k' (q, []) \<and> held k' = held k"
  using assms
proof (induction n arbitrary: k l)
  case (Suc n)
  show ?case
  proof (cases "l = []")
    case True
    with Suc.prems input_relD(1) [OF Suc.prems(2)] show ?thesis by auto
  next
    case False
    let ?k = "k\<lparr>in_e := sub32 (in_e k) 1\<rparr>"
    have e: "in_e k \<noteq> in_w k" using False input_relD(1) [OF Suc.prems(2)] by simp
    have "last l \<noteq> 10" using Suc.prems(2) last_in_set [OF False] by (auto simp: input_rel_def)
    then have nl: "ring_at k (sub32 (in_e k) 1) \<noteq> 10"
      using input_rel_erase(2) [OF Suc.prems(2) False] by simp
    obtain k1 where k1: "consputc BACKSPACE ?k = Ok () k1" "crt_ok k1" "cons_step ?k k1"
      "input_rel k1 (q, butlast l)"
      using consputc_rel [of ?k "(q, butlast l)" BACKSPACE]
        input_rel_erase(1) [OF Suc.prems(2) False] Suc.prems(1) by auto
    have "length (butlast l) < n" using Suc.prems(3) False by (cases l) simp_all
    from Suc.IH [OF k1(2,4) this] obtain k2 where "kill_line n k1 = Ok () k2" "crt_ok k2"
      "input_rel k2 (q, [])" "held k2 = held k1" by blast
    with e nl k1(1) cons_stepD(1) [OF k1(3)] show ?thesis by simp
  qed
qed simp

lemma byte_of_int_eq:
  "0 \<le> c \<Longrightarrow> c < 256 \<Longrightarrow> 0 \<le> d \<Longrightarrow> d < 256 \<Longrightarrow> (word_of_int c = (word_of_int d :: byte)) \<longleftrightarrow> c = d"
  by (simp add: word_of_int_eq_iff take_bit_int_eq_self)

lemma input_rel_full:
  assumes "input_rel k (q, l)" "length q + length l < 128"
  shows "w32 (in_e k + 1) = w32 (in_r k + 128) \<longleftrightarrow> length q + length l + 1 = 128"
proof -
  let ?n = "length q + length l"
  have e: "w32 (in_e k + 1) = w32 (in_r k + (?n + 1))" using assms(1) by (simp add: input_rel_def)
  have "w32 (in_r k + (?n + 1)) = w32 (in_r k + 128) \<Longrightarrow> ?n + 1 = 128"
    by (rule w32_add_cancel) (use assms(2) in simp_all)
  then show ?thesis unfolding e by (auto simp: add.commute)
qed

lemma consoleintr1_insert:
  assumes ok: "crt_ok k" and rel: "input_rel k (q, l)" and lk: "PtableLock \<notin> held k"
    and c: "0 \<le> c" "c < 256" and room: "length q + length l < 128"
  defines "k1 \<equiv> k\<lparr>in_buf := (in_buf k)[in_e k mod 128 := word_of_int c], in_e := w32 (in_e k + 1)\<rparr>"
  shows "\<exists>k'. bnd (consputc c k1) (\<lambda>_ k. if c = 10 \<or> c = 4 \<or> in_e k = w32 (in_r k + 128)
              then wakeup ChInput (k\<lparr>in_w := in_e k\<rparr>) else Ok () k) = Ok () k' \<and>
           crt_ok k' \<and>
           input_rel k' (if c = 10 \<or> c = 4 \<or> length q + length l + 1 = 128
                         then (q @ l @ [word_of_int c], []) else (q, l @ [word_of_int c])) \<and>
           held k' = held k"
proof -
  let ?b = "word_of_int c :: byte"
  have "crt_ok k1" using ok by (simp add: k1_def)
  then obtain k2 where k2: "consputc c k1 = Ok () k2" "crt_ok k2" "cons_step k1 k2"
    using consputc_ok [of k1 c] by blast
  note st = cons_stepD [OF k2(3)]
  have eqs: "in_e k2 = w32 (in_e k + 1)" "in_r k2 = in_r k" "held k2 = held k"
    using st by (simp_all add: k1_def)
  note full = input_rel_full [OF rel room]
  show ?thesis
  proof (cases "c = 10 \<or> c = 4 \<or> length q + length l + 1 = 128")
    case True
    let ?k3 = "wakeup1 ChInput (k2\<lparr>in_w := in_e k2\<rparr>)"
    have "input_rel ?k3 (q @ l @ [?b], [])"
      using input_rel_insert_commit [OF rel room, of ?b] st
      by (subst input_rel_cong [of _ "k\<lparr>in_buf := (in_buf k)[in_e k mod 128 := ?b],
            in_e := w32 (in_e k + 1), in_w := w32 (in_e k + 1)\<rparr>"])
         (simp_all add: k1_def wakeup1_def)
    moreover have "wakeup ChInput (k2\<lparr>in_w := in_e k2\<rparr>) = Ok () ?k3"
      using lk eqs by (intro wakeup_eq) simp
    ultimately show ?thesis using True k2 eqs full by auto
  next
    case False
    have "?b \<noteq> 10" using byte_of_int_eq [of c 10] c False by simp
    from input_rel_insert [OF rel room this] have "input_rel k2 (q, l @ [?b])"
      using st by (subst input_rel_cong [of _ k1]) (simp_all add: k1_def)
    with False k2 eqs full show ?thesis by auto
  qed
qed

lemma consoleintr1_rel:
  assumes ok: "crt_ok k" and rel: "input_rel k (q, l)" and lk: "PtableLock \<notin> held k"
    and c: "0 \<le> c" "c < 256"
  shows "\<exists>k'. consoleintr1 c k = Ok () k' \<and> crt_ok k' \<and> input_rel k' (line_in c (q, l)) \<and>
           held k' = held k"
proof -
  note d = input_relD [OF rel]
  consider "c = 16" | "c = 21" | "c = 8 \<or> c = 127" | "c = 0 \<or> 128 \<le> length q + length l"
      "c \<noteq> 16" "c \<noteq> 21" "c \<noteq> 8" "c \<noteq> 127"
    | "c \<noteq> 0" "length q + length l < 128" "c \<noteq> 16" "c \<noteq> 21" "c \<noteq> 8" "c \<noteq> 127" by linarith
  then show ?thesis
  proof cases
    case 1
    with ok rel show ?thesis by (simp add: consoleintr1_def line_in_def)
  next
    case 2
    have "length l < 128 + 1" using d(4) by simp
    from kill_line_ok [OF ok rel this] 2 show ?thesis by (auto simp: consoleintr1_def line_in_def)
  next
    case 3
    show ?thesis
    proof (cases "l = []")
      case True
      with 3 ok rel d(1) show ?thesis by (auto simp: consoleintr1_def line_in_def)
    next
      case False
      let ?k = "k\<lparr>in_e := sub32 (in_e k) 1\<rparr>"
      obtain k1 where "consputc BACKSPACE ?k = Ok () k1" "crt_ok k1" "cons_step ?k k1"
        "input_rel k1 (q, butlast l)"
        using consputc_rel [of ?k "(q, butlast l)" BACKSPACE] input_rel_erase(1) [OF rel False] ok
        by auto
      with 3 False d(1) cons_stepD(1) [of ?k k1] show ?thesis
        by (auto simp: consoleintr1_def line_in_def)
    qed
  next
    case 4
    with ok rel d(2) show ?thesis by (auto simp: consoleintr1_def line_in_def)
  next
    case 5
    let ?c = "if c = 13 then 10 else c"
    have "0 \<le> ?c" "?c < 256" using c by auto
    from consoleintr1_insert [OF ok rel lk this 5(2)] 5 d(2) show ?thesis
      by (simp add: consoleintr1_def line_in_def Let_def split del: if_split)
  qed
qed

lemma consoleintr_loop_rel:
  assumes "crt_ok k" "input_rel k ql" "PtableLock \<notin> held k" "\<forall>c \<in> set cs. 0 \<le> c \<and> c < 256"
  shows "\<exists>k'. consoleintr_loop cs k = Ok () k' \<and> crt_ok k' \<and> input_rel k' (fold line_in cs ql) \<and>
           held k' = held k"
  using assms
proof (induction cs arbitrary: k ql)
  case (Cons c cs)
  obtain q l where ql: "ql = (q, l)" by fastforce
  obtain k1 where k1: "consoleintr1 c k = Ok () k1" "crt_ok k1" "input_rel k1 (line_in c ql)"
    "held k1 = held k"
    using consoleintr1_rel [of k q l c] Cons.prems unfolding ql by auto
  with Cons.IH [OF k1(2,3)] Cons.prems show ?case by auto
qed simp

section \<open>Reading a line\<close>

lemma input_rel_take:
  assumes "input_rel k (c # q, l)"
  shows "ring_at k (in_r k) = c" "input_rel (k\<lparr>in_r := w32 (in_r k + 1)\<rparr>) (q, l)" "in_r k \<noteq> in_w k"
proof -
  let ?k = "k\<lparr>in_r := w32 (in_r k + 1)\<rparr>"
  show "in_r k \<noteq> in_w k" using input_relD(3) [OF assms] by simp
  show "ring_at k (in_r k) = c" using input_rel_at [OF assms, of 0] by simp
  have "ring_at k (in_r k + Suc i) = (q @ l) ! i" if "i < length q + length l" for i
    using input_rel_at [OF assms, of "Suc i"] that by simp
  moreover have "ring_at ?k (in_r ?k + i) = ring_at k (in_r k + Suc i)" for i
  proof -
    have "ring_at k (w32 (in_r k + 1) + i) = ring_at k (w32 (w32 (in_r k + 1) + i))"
      by (rule ring_at_w32 [symmetric])
    also have "\<dots> = ring_at k (in_r k + Suc i)" using w32_add_left [of "in_r k + 1" i] by simp
    finally show ?thesis by (simp add: ring_at_def)
  qed
  ultimately show "input_rel ?k (q, l)"
    using assms w32_add_left [of "in_r k + 1"] by (simp add: input_rel_def)
qed

lemma input_rel_held [simp]: "input_rel (k\<lparr>held := h\<rparr>) ql = input_rel k ql"
  by (rule input_rel_cong) simp_all

lemma consoleread_loop_rel:
  assumes "input_rel k (q, l)" "ConsLock \<in> held k" "read_line (n < target) n q = Some (bs, q')" "n \<le> target"
  shows "\<exists>k'. consoleread_loop target n k = Ok (int target - int n + int (length bs), bs) k' \<and>
           input_rel k' (q', l) \<and> held k' = held k - {ConsLock}"
  using assms
proof (induction n arbitrary: k q bs)
  case (Suc n)
  show ?case
  proof (cases q)
    case (Cons c q1)
    note t = input_rel_take [OF Suc.prems(1) [unfolded Cons]]
    let ?k = "k\<lparr>in_r := w32 (in_r k + 1)\<rparr>"
    show ?thesis
    proof (cases "c = 4 \<or> c = 10")
      case True
      then show ?thesis using t Suc.prems Cons by (auto split: if_splits)
    next
      case False
      then obtain bs' where bs: "bs = c # bs'" "read_line True n q1 = Some (bs', q')"
        using Suc.prems(3) Cons by (auto split: if_splits)
      have "n < target" using Suc.prems(4) by simp
      with Suc.IH [OF t(2), of bs'] bs(2) Suc.prems(2) obtain k' where
        "consoleread_loop target n ?k = Ok (int target - int n + int (length bs'), bs') k'"
        "input_rel k' (q', l)" "held k' = held k - {ConsLock}" by auto
      with t(1,3) False bs(1) show ?thesis by auto
    qed
  qed (use Suc.prems in simp)
qed (auto)

section \<open>Properties\<close>

lemma k0_console: "crt_ok k0" "input_rel k0 ([], [])" "held k0 = {}"
  by (simp_all add: crt_ok_def input_rel_def k0_def w32_def)

text \<open>C26: The console is a line discipline over a ring buffer: whatever keys arrive (printable
  characters, backspace, kill-line, end of file, more than the ring holds), \<open>consoleintr\<close> returns with
  the locks as before and the 32-bit ring indices represent the pair of finished input and line being
  edited that the reference \<open>line_in\<close> computes from the keys; a following \<open>consoleread\<close> returns
  exactly the bytes \<open>read_line\<close> cuts off the finished input and leaves the rest.\<close>

theorem console_line_discipline:
  assumes "crt_ok k" "input_rel k ql" "held k = {}" "\<forall>c \<in> set cs. 0 \<le> c \<and> c < 256"
    and "fold line_in cs ql = (q, l)" "read_line False n q = Some (bs, q')" "0 < n"
  shows "\<exists>k1 k2. consoleintr cs k = Ok (16 \<in> set cs) k1 \<and> held k1 = {} \<and> crt_ok k1 \<and>
    input_rel k1 (q, l) \<and> consoleread (int n) k1 = Ok (int (length bs), bs) k2 \<and>
    input_rel k2 (q', l) \<and> held k2 = {}"
proof -
  let ?k = "k\<lparr>held := {ConsLock}\<rparr>"
  have "crt_ok ?k" "input_rel ?k ql" "PtableLock \<notin> held ?k" using assms(1,2) by (simp_all add: crt_ok_def)
  from consoleintr_loop_rel [OF this assms(4)] assms(5) obtain k1 where
    k1: "consoleintr_loop cs ?k = Ok () k1" "crt_ok k1" "input_rel k1 (q, l)" "held k1 = {ConsLock}" by auto
  have tw: "takeWhile ((\<le>) 0) cs = cs" using assms(4) by (simp add: takeWhile_eq_all_conv)
  have i: "consoleintr cs k = Ok (16 \<in> set cs) (k1\<lparr>held := {}\<rparr>)"
    using k1 assms(3) unfolding consoleintr_def tw by simp
  have "\<exists>k2. consoleread_loop n n k1 = Ok (int n - int n + int (length bs), bs) k2 \<and>
      input_rel k2 (q', l) \<and> held k2 = held k1 - {ConsLock}"
    by (rule consoleread_loop_rel) (use k1 assms(6) in simp_all)
  then obtain k2 where k2: "consoleread_loop n n k1 = Ok (int (length bs), bs) k2"
    "input_rel k2 (q', l)" "held k2 = {}" using k1(4) by auto
  have "(k1\<lparr>held := {}\<rparr>)\<lparr>held := insert ConsLock (held (k1\<lparr>held := {}\<rparr>))\<rparr> = k1" using k1(4) by simp
  then have "consoleread (int n) (k1\<lparr>held := {}\<rparr>) = Ok (int (length bs), bs) k2"
    using k2(1) assms(7) by (simp add: consoleread_def)
  with i k1 k2 show ?thesis by (intro exI [of _ "k1\<lparr>held := {}\<rparr>"] exI [of _ k2]) (simp add: crt_ok_def)
qed

text \<open>The keys \<open>a b BS c RETURN\<close>, then a read of up to ten bytes.\<close>

theorem console_line_discipline_witness:
  "\<exists>k1 k2. consoleintr [97, 98, 8, 99, 13] k0 = Ok False k1 \<and> held k1 = {} \<and> crt_ok k1 \<and>
    input_rel k1 ([97, 99, 10], []) \<and> consoleread 10 k1 = Ok (3, [97, 99, 10]) k2 \<and>
    input_rel k2 ([], []) \<and> held k2 = {}"
proof -
  have "fold line_in [97, 98, 8, 99, 13] ([], []) = ([97, 99, 10], [])"
    "read_line False 10 [97, 99, 10] = Some ([97, 99, 10], [])" by code_simp+
  from console_line_discipline [OF k0_console _ this] show ?thesis by simp
qed

text \<open>C27: Console output never fails: \<open>consolewrite\<close> on a whole buffer writes every byte to the serial
  port in order, keeps the cursor on the screen (the scroll and the bounds checks of \<open>cgaputc\<close>
  never let it panic), and gives the lock back.\<close>

theorem consolewrite_total:
  assumes "crt_ok k" "ConsLock \<notin> held k"
  shows "\<exists>k'. consolewrite buf (int (length buf)) k = Ok (int (length buf)) k' \<and> crt_ok k' \<and>
    held k' = held k \<and>
    cons_out k' = cons_out k @ (if uart k then concat (map (\<lambda>c. uart_bytes (uint c)) buf) else [])"
proof -
  let ?k = "k\<lparr>held := insert ConsLock (held k)\<rparr>"
  have "crt_ok ?k" using assms(1) by (simp add: crt_ok_def)
  from consputs_ok [OF this, of "map uint buf"] obtain k1 where
    k1: "consputs (map uint buf) ?k = Ok () k1" "crt_ok k1" "cons_step ?k k1"
    "cons_out k1 = cons_out k @ (if uart k then concat (map (\<lambda>c. uart_bytes (uint c)) buf) else [])"
    by (auto simp: comp_def)
  have "held k1 = insert ConsLock (held k)" using cons_stepD [OF k1(3)] by simp
  with k1 assms(2) show ?thesis by (simp add: consolewrite_def crt_ok_def)
qed

theorem consolewrite_total_witness:
  "\<exists>k'. consolewrite [104, 105, 10] 3 k0 = Ok 3 k' \<and> crt_ok k' \<and> held k' = {} \<and>
    cons_out k' = [104, 105, 10]"
  using consolewrite_total [OF k0_console(1), of "[104, 105, 10]"]
  by (simp add: k0_console(3)) (simp add: k0_def uart_bytes_def)

end
