(* ===== verification/Inode.thy ===== *)
theory Inode
  imports Bio Layout Console
begin

text \<open>
  The inode layer of \<open>kernel/fs.c\<close>: reading and writing the bytes of an inode through its extents,
  the allocation of extents from the bitmap, and the cache of in-memory inodes. A buffer the caller
  passes is the list of its bytes; \<open>readi\<close> returns the value of the C function and the bytes it
  stored. Running past \<open>data[EXTENT_N - 1]\<close> is \<open>Undef\<close>.
\<close>

section \<open>In-memory inodes\<close>

fun get_inode :: "iptr \<Rightarrow> kernel \<Rightarrow> inode" where
  "get_inode Inodefile k = icache_inodefile k"
| "get_inode (Icache i) k = icache_inode k ! i"

fun upd_inode :: "iptr \<Rightarrow> (inode \<Rightarrow> inode) \<Rightarrow> kernel \<Rightarrow> kernel" where
  "upd_inode Inodefile f k = k\<lparr>icache_inodefile := f (icache_inodefile k)\<rparr>"
| "upd_inode (Icache i) f k = k\<lparr>icache_inode := (icache_inode k)[i := f (icache_inode k ! i)]\<rparr>"

text \<open>\<open>devsw\<close> has one entry with functions, the console's (\<open>consoleinit\<close>).\<close>

definition devsw_ok :: "int \<Rightarrow> bool" where
  "devsw_ok devid \<longleftrightarrow> \<not> (devid < 0 \<or> devid \<ge> NDEV) \<and> devid = 1"

definition ext_bytes :: "extent \<Rightarrow> nat" where
  "ext_bytes e = w32 (nblocks e * BSIZE)"

definition getCapacity :: "iptr \<Rightarrow> kernel \<Rightarrow> nat" where
  "getCapacity ip k = fold (\<lambda>e c. w32 (c + ext_bytes e)) (i_data (get_inode ip k)) 0"

section \<open>Reading\<close>

text \<open>\<open>while (size + data->nblocks * BSIZE < off) { size += data->nblocks * BSIZE; data++; }\<close>, giving
  the extents from \<open>data\<close> on and \<open>size\<close>.\<close>

fun seek_extent :: "extent list \<Rightarrow> nat \<Rightarrow> nat \<Rightarrow> (extent list \<times> nat) option" where
  "seek_extent [] sz off = None"
| "seek_extent (e # es) sz off =
     (if w32 (sz + ext_bytes e) < off then seek_extent es (w32 (sz + ext_bytes e)) off
      else Some (e # es, sz))"

function readi_loop :: "nat \<Rightarrow> extent list \<Rightarrow> nat \<Rightarrow> nat \<Rightarrow> nat \<Rightarrow> kernel \<Rightarrow> (kernel, byte list) res" where
  "readi_loop dev es sz off left k =
     (if left = 0 then Ok [] k
      else case es of
        [] \<Rightarrow> Undef ''extent''
      | e # es' \<Rightarrow>
          if sz < ext_bytes e then
            bnd (bread dev (w32 (startblkno e + sz div BSIZE)) k) (\<lambda>b k.
            let m = min left (BSIZE - sz mod BSIZE);
                bs = slice (sz mod BSIZE) m (b_data (bcache_buf k ! b))
            in bnd (brelse b k) (\<lambda>_ k.
               bnd (readi_loop dev es (w32 (sz + m)) (w32 (off + m)) (left - m) k) (\<lambda>rest k.
               Ok (bs @ rest) k)))
          else readi_loop dev es' (sub32 off sz) off left k)"
  by pat_completeness auto
termination
  by (relation "measure (\<lambda>(dev, es, sz, off, left, k). left + length es)")
     (auto simp: min_def less_imp_diff_less)

declare readi_loop.simps [simp del]

definition readi :: "iptr \<Rightarrow> nat \<Rightarrow> nat \<Rightarrow> kernel \<Rightarrow> (kernel, int \<times> byte list) res" where
  "readi ip off n k =
     bnd (holdingsleep (SlInode ip) k) (\<lambda>h k.
     let i = get_inode ip k
     in if \<not> h then Panic ''not holding lock''
        else if i_type i = T_DEV then
          (if \<not> devsw_ok (i_devid i) then Ok (-1, []) k else consoleread (i32 (int n)) k)
        else if off > i_size i \<or> w32 (off + n) < off then Ok (-1, []) k
        else case seek_extent (i_data i) 0 off of
          None \<Rightarrow> Undef ''extent''
        | Some (es, sz) \<Rightarrow>
            bnd (readi_loop (i_dev i) es (sub32 off sz) off n k) (\<lambda>bs k.
            Ok (i32 (int n), bs) k))"

section \<open>Allocating an extent\<close>

text \<open>The loop over the bitmap blocks from \<open>inodestart - 1\<close> down to \<open>bmapstart\<close>; the fuel is the
  number of blocks below \<open>inodestart\<close>, enough unless \<open>bmapstart\<close> is 0 (then \<open>i\<close> wraps around).\<close>

primrec getfree_loop :: "nat \<Rightarrow> nat \<Rightarrow> nat \<Rightarrow> kernel \<Rightarrow> (kernel, nat) res" where
  "getfree_loop 0 dev i k = (if i \<ge> bmapstart (sb k) then OutOfFuel else Ok 0 k)"
| "getfree_loop (Suc fuel) dev i k =
     (if i \<ge> bmapstart (sb k) then
        bnd (bread dev i k) (\<lambda>b k.
        case find_index (\<lambda>x. x = 0) (b_data (bcache_buf k ! b)) of
          Some j \<Rightarrow>
            bnd (bwrite b (upd_buf b (\<lambda>c. c\<lparr>b_data := (b_data c)[j := 0xff]\<rparr>) k)) (\<lambda>_ k.
            bnd (brelse b k) (\<lambda>_ k.
            Ok (sub32 (sub32 (w32 (sb_nblocks (sb k) + inodestart (sb k)))
                         (w32 (sub32 (sub32 (inodestart (sb k)) 1) i * BSIZE)))
                  (w32 ((j + 1) * 8))) k))
        | None \<Rightarrow> bnd (brelse b k) (\<lambda>_ k. getfree_loop fuel dev (sub32 i 1) k))
      else Ok 0 k)"

definition getfreestartblkno :: "nat \<Rightarrow> kernel \<Rightarrow> (kernel, nat) res" where
  "getfreestartblkno dev k =
     getfree_loop (inodestart (sb k)) dev (sub32 (inodestart (sb k)) 1) k"

section \<open>Writing\<close>

text \<open>The bytes of the source buffer that follow \<open>src\<close>; reading beyond them is \<open>Undef\<close>.\<close>

definition copy_in :: "nat \<Rightarrow> nat \<Rightarrow> byte list \<Rightarrow> nat \<Rightarrow> kernel \<Rightarrow> (kernel, unit) res" where
  "copy_in b o' src m k =
     (if length src < m then Undef ''source overrun''
      else Ok () (upd_buf b (\<lambda>c. c\<lparr>b_data := overwrite (b_data c) o' (take m src)\<rparr>) k))"

function writei_loop :: "nat \<Rightarrow> extent list \<Rightarrow> nat \<Rightarrow> nat \<Rightarrow> nat \<Rightarrow> byte list \<Rightarrow> kernel \<Rightarrow>
    (kernel, byte list) res" where
  "writei_loop dev es sz off left src k =
     (if left = 0 then Ok src k
      else case es of
        [] \<Rightarrow> Undef ''extent''
      | e # es' \<Rightarrow>
          if sz < ext_bytes e then
            bnd (bread dev (w32 (startblkno e + off div BSIZE)) k) (\<lambda>b k.
            let m = min left (BSIZE - sz mod BSIZE)
            in bnd (copy_in b (sz mod BSIZE) src m k) (\<lambda>_ k.
               bnd (bwrite b k) (\<lambda>_ k.
               bnd (brelse b k) (\<lambda>_ k.
               writei_loop dev es (w32 (sz + m)) (w32 (off + m)) (left - m) (drop m src) k))))
          else writei_loop dev es' (sub32 off sz) off left src k)"
  by pat_completeness auto
termination
  by (relation "measure (\<lambda>(dev, es, sz, off, left, src, k). left + length es)")
     (auto simp: min_def less_imp_diff_less)

declare writei_loop.simps [simp del]

text \<open>\<open>appendi\<close>: \<open>d\<close> is the index of \<open>data\<close> in \<open>ip->data\<close>. The loop increments \<open>data\<close> in its head
  as well, so every round uses the next extent.\<close>

primrec appendi_loop :: "nat \<Rightarrow> iptr \<Rightarrow> nat \<Rightarrow> nat \<Rightarrow> nat \<Rightarrow> byte list \<Rightarrow> kernel \<Rightarrow> (kernel, unit) res" where
  "appendi_loop 0 ip d sz left src k = (if left = 0 then Ok () k else OutOfFuel)"
| "appendi_loop (Suc fuel) ip d sz left src k =
     (if left = 0 then Ok () k
      else if d \<ge> length (i_data (get_inode ip k)) then Undef ''extent''
      else
        bnd (if nblocks (i_data (get_inode ip k) ! d) = 0
             then bnd (getfreestartblkno (i_dev (get_inode ip k)) k) (\<lambda>s k.
                  Ok () (upd_inode ip
                    (\<lambda>i. i\<lparr>i_data := (i_data i)[d := \<lparr>startblkno = s, nblocks = 8\<rparr>]\<rparr>) k))
             else Ok () k) (\<lambda>_ k.
        let e = i_data (get_inode ip k) ! d
        in if sz < ext_bytes e then
             bnd (bread (i_dev (get_inode ip k)) (w32 (startblkno e + sz div BSIZE)) k) (\<lambda>b k.
             let m = min left (BSIZE - sz mod BSIZE)
             in bnd (copy_in b (sz mod BSIZE) src m k) (\<lambda>_ k.
                bnd (bwrite b k) (\<lambda>_ k.
                bnd (brelse b k) (\<lambda>_ k.
                appendi_loop fuel ip (d + 1) (w32 (sz + m)) (left - m) (drop m src) k))))
           else appendi_loop fuel ip (d + 2) 0 left src k))"

definition appendi :: "iptr \<Rightarrow> byte list \<Rightarrow> nat \<Rightarrow> kernel \<Rightarrow> (kernel, int) res" where
  "appendi ip src n k =
     (case find_index (\<lambda>e. nblocks e = 0) (i_data (get_inode ip k)) of
        None \<Rightarrow> Undef ''extent''
      | Some d \<Rightarrow> bnd (appendi_loop (EXTENT_N + 1) ip d 0 n src k) (\<lambda>_ k. Ok (i32 (int n)) k))"

definition writei :: "iptr \<Rightarrow> byte list \<Rightarrow> nat \<Rightarrow> nat \<Rightarrow> kernel \<Rightarrow> (kernel, int) res" where
  "writei ip src off n k =
     bnd (holdingsleep (SlInode ip) k) (\<lambda>h k.
     let i = get_inode ip k; capacity = getCapacity ip k
     in if \<not> h then Panic ''not holding lock''
        else if i_type i = T_DEV then
          (if \<not> devsw_ok (i_devid i) then Ok (-1) k else consolewrite src (i32 (int n)) k)
        else if w32 (off + n) < off then Ok (-1) k
        else
          (let (append, n) = (if w32 (off + n) > capacity
                              then (sub32 (w32 (off + n)) capacity, sub32 capacity off)
                              else (0, n))
           in case seek_extent (i_data i) 0 off of
                None \<Rightarrow> Undef ''extent''
              | Some (es, sz) \<Rightarrow>
                  bnd (writei_loop (i_dev i) es (sub32 off sz) off n src k) (\<lambda>src k.
                  if append > 0
                  then bnd (appendi ip src append k) (\<lambda>r k. Ok (i32 (int n + r)) k)
                  else Ok (i32 (int n)) k)))"

section \<open>The contents of a file\<close>

text \<open>The bytes of an extent and of a list of extents on a disk.\<close>

definition ext_content :: "(nat \<Rightarrow> byte list) \<Rightarrow> extent \<Rightarrow> byte list" where
  "ext_content d e = concat (map d [startblkno e ..< startblkno e + nblocks e])"

definition ext_ok :: "kernel \<Rightarrow> extent \<Rightarrow> bool" where
  "ext_ok k e \<longleftrightarrow> startblkno e + nblocks e \<le> disksize k \<and> disksize k < 4294967296 \<and>
     nblocks e * BSIZE < 4294967296"

lemma ext_bytes_ok: "ext_ok k e \<Longrightarrow> ext_bytes e = nblocks e * 512"
  by (simp add: ext_ok_def ext_bytes_def)

lemma ext_ok_io: "io_step k k' \<Longrightarrow> ext_ok k' e = ext_ok k e"
  by (simp add: ext_ok_def io_stepD)

lemma length_blocks:
  "(\<And>n. length (d n) = 512) \<Longrightarrow> length (concat (map d ns)) = 512 * length ns"
  by (induction ns) simp_all

lemma length_ext_content:
  "(\<And>n. length (d n) = 512) \<Longrightarrow> length (ext_content d e) = 512 * nblocks e"
  by (simp add: ext_content_def length_blocks)

lemma slice_blocks:
  assumes len: "\<And>n. length (d n) = 512" and "j < length ns" "o' + m \<le> 512"
  shows "slice (512 * j + o') m (concat (map d ns)) = slice o' m (d (ns ! j))"
  using assms(2)
proof (induction ns arbitrary: j)
  case (Cons n ns)
  show ?case
  proof (cases j)
    case 0
    then show ?thesis using assms(3) len [of n] by (simp add: slice_def)
  next
    case (Suc i)
    then have "slice (512 * j + o') m (concat (map d (n # ns))) =
        slice (512 * i + o') m (concat (map d ns))"
      using len [of n] by (simp add: slice_def)
    with Cons Suc show ?thesis by simp
  qed
qed simp

lemma slice_ext_content:
  assumes "\<And>n. length (d n) = 512" "sz < 512 * nblocks e" "m \<le> 512 - sz mod 512"
  shows "slice sz m (ext_content d e) = slice (sz mod 512) m (d (startblkno e + sz div 512))"
proof -
  have j: "sz div 512 < nblocks e" using assms(2) by (simp add: div_less_iff_less_mult mult.commute)
  have "512 * (sz div 512) + sz mod 512 = sz" by simp
  then show ?thesis
    using slice_blocks [of d "sz div 512" "[startblkno e ..< startblkno e + nblocks e]" "sz mod 512" m]
      assms j by (simp add: ext_content_def)
qed

lemma slice_append_slice:
  "i + m + n \<le> length xs \<Longrightarrow> slice i m xs @ slice (i + m) n xs = slice i (m + n) xs"
  by (simp add: slice_def take_add add.commute)

lemma slice_0 [simp]: "slice i 0 xs = []"
  by (simp add: slice_def)

section \<open>Reading gives the contents\<close>

lemma chunk_le:
  assumes "sz < nb * (512::nat)" "0 < left"
  shows "min left (512 - sz mod 512) \<le> min left (nb * 512 - sz)" "0 < min left (512 - sz mod 512)"
proof -
  have "sz div 512 < nb" using assms(1) by (simp add: div_less_iff_less_mult)
  then have "512 * (sz div 512) + 512 \<le> nb * 512" by linarith
  moreover have "sz = 512 * (sz div 512) + sz mod 512" by simp
  ultimately show "min left (512 - sz mod 512) \<le> min left (nb * 512 - sz)" by linarith
  show "0 < min left (512 - sz mod 512)" using assms(2) by simp
qed

lemma readi_loop_extent:
  assumes "disk_ready k" "ext_ok k e" "sz \<le> nblocks e * 512" "off + left < 4294967296"
    and "c = min left (nblocks e * 512 - sz)"
  shows "\<exists>k'. disk_ready k' \<and> memdisk k' = memdisk k \<and> io_step k k' \<and>
    readi_loop 1 (e # es) sz off left k =
      bnd (readi_loop 1 (e # es) (sz + c) (off + c) (left - c) k')
        (\<lambda>rest k''. Ok (slice sz c (ext_content (memdisk k) e) @ rest) k'')"
  using assms
proof (induction left arbitrary: sz off k c rule: less_induct)
  case (less left)
  have len: "\<And>n. length (memdisk k n) = 512"
    using less.prems(1) by (simp add: disk_ready_def bc_inv_def)
  have ret: "bnd r (\<lambda>rest k. Ok rest k) = r" for r :: "(kernel, byte list) res" by (cases r) simp_all
  show ?case
  proof (cases "c = 0")
    case True
    then show ?thesis using less.prems by (intro exI [of _ k]) (simp add: ret)
  next
    case False
    then have left: "0 < left" and sz: "sz < nblocks e * 512" using less.prems(5) by auto
    define m where "m = min left (512 - sz mod 512)"
    note m = chunk_le [OF sz left, folded m_def]
    have blk: "startblkno e + sz div 512 < disksize k" "disksize k < 4294967296"
      using less.prems(2) sz by (auto simp: ext_ok_def div_less_iff_less_mult
          intro: less_le_trans [of _ "startblkno e + nblocks e"])
    obtain k1 where k1: "rd_block (startblkno e + sz div 512) k = Ok (memdisk k (startblkno e + sz div 512)) k1"
      "disk_ready k1" "memdisk k1 = memdisk k" "io_step k k1"
      using rd_block_ok [OF less.prems(1) blk(1)] by blast
    have small: "sz + m < 4294967296" "off + m < 4294967296" "sz + m \<le> nblocks e * 512"
      "off + m + (left - m) < 4294967296" "left - m < left"
      using m less.prems(2,4,5) sz left unfolding m_def by (auto simp: ext_ok_def)
    have chunk: "slice (sz mod 512) m (memdisk k (startblkno e + sz div 512)) = slice sz m (ext_content (memdisk k) e)"
      by (rule slice_ext_content [symmetric]) (use len sz in \<open>auto simp: m_def\<close>)
    have step: "readi_loop 1 (e # es) sz off left k =
        bnd (readi_loop 1 (e # es) (sz + m) (off + m) (left - m) k1)
          (\<lambda>rest k'. Ok (slice sz m (ext_content (memdisk k) e) @ rest) k')"
    proof -
      from k1(1) obtain b kb where "bread (Suc 0) (startblkno e + sz div 512) k = Ok b kb"
        "b_data (bcache_buf kb ! b) = memdisk k (startblkno e + sz div 512)" "brelse b kb = Ok () k1"
        by (rule rd_blockE)
      with left sz blk small chunk show ?thesis
        by (subst readi_loop.simps)
           (simp add: ext_bytes_ok [OF less.prems(2)] Let_def m_def [symmetric])
    qed
    let ?c = "min (left - m) (nblocks e * 512 - (sz + m))"
    obtain k2 where k2: "disk_ready k2" "memdisk k2 = memdisk k1" "io_step k1 k2"
      "readi_loop 1 (e # es) (sz + m) (off + m) (left - m) k1 =
        bnd (readi_loop 1 (e # es) (sz + m + ?c) (off + m + ?c) (left - m - ?c) k2)
          (\<lambda>rest k''. Ok (slice (sz + m) ?c (ext_content (memdisk k1) e) @ rest) k'')"
      using less.IH [OF small(5) k1(2) _ small(3,4) refl] ext_ok_io [OF k1(4)] less.prems(2) by auto
    have c: "m + ?c = c" using m less.prems(5) sz by auto
    have "slice sz m (ext_content (memdisk k) e) @ slice (sz + m) ?c (ext_content (memdisk k) e) =
        slice sz c (ext_content (memdisk k) e)"
      using slice_append_slice [of sz m ?c "ext_content (memdisk k) e"] length_ext_content [of "memdisk k" e, OF len]
        c small(3) by (simp add: mult.commute)
    then have "readi_loop 1 (e # es) sz off left k =
        bnd (readi_loop 1 (e # es) (sz + c) (off + c) (left - c) k2)
          (\<lambda>rest k''. Ok (slice sz c (ext_content (memdisk k) e) @ rest) k'')"
      unfolding step k2(4) using c k1(3)
      by (simp add: bnd_assoc add.assoc diff_diff_left flip: append_assoc)
    then show ?thesis using k1(3) k2(1,2) io_step_trans [OF k1(4) k2(3)] by auto
  qed
qed

lemma readi_loop_0 [simp]: "readi_loop dev es sz off 0 k = Ok [] k"
  by (subst readi_loop.simps) simp

lemma readi_loop_one:
  assumes "disk_ready k" "ext_ok k e" "sz + left \<le> nblocks e * 512" "off + left < 4294967296"
  shows "\<exists>k'. readi_loop 1 (e # es) sz off left k = Ok (slice sz left (ext_content (memdisk k) e)) k' \<and>
           disk_ready k' \<and> memdisk k' = memdisk k \<and> io_step k k'"
proof -
  have "left = min left (nblocks e * 512 - sz)" "sz \<le> nblocks e * 512" using assms(3) by auto
  from readi_loop_extent [OF assms(1,2) this(2) assms(4) this(1)] show ?thesis by auto
qed

lemma readi_loop_two:
  assumes "disk_ready k" "ext_ok k e0" "ext_ok k e1" "sz \<le> nblocks e0 * 512"
    "nblocks e0 * 512 < sz + left" "sz + left \<le> nblocks e0 * 512 + nblocks e1 * 512"
    "sz + left < 4294967296"
  shows "\<exists>k'. readi_loop 1 (e0 # e1 # es) sz sz left k =
           Ok (slice sz left (ext_content (memdisk k) e0 @ ext_content (memdisk k) e1)) k' \<and>
           disk_ready k' \<and> memdisk k' = memdisk k \<and> io_step k k'"
proof -
  let ?S = "nblocks e0 * 512"
  define c where "c = ?S - sz"
  have c: "c = min left (?S - sz)" "sz + c = ?S" using assms(4,5) by (auto simp: c_def)
  obtain k1 where k1: "disk_ready k1" "memdisk k1 = memdisk k" "io_step k k1"
    "readi_loop 1 (e0 # e1 # es) sz sz left k =
      bnd (readi_loop 1 (e0 # e1 # es) (sz + c) (sz + c) (left - c) k1)
        (\<lambda>rest k''. Ok (slice sz c (ext_content (memdisk k) e0) @ rest) k'')"
    using readi_loop_extent [OF assms(1,2,4,7) c(1)] by blast
  have next1: "readi_loop 1 (e0 # e1 # es) (sz + c) (sz + c) (left - c) k1 =
      readi_loop 1 (e1 # es) 0 ?S (left - c) k1"
    using c assms(5,2) by (subst readi_loop.simps) (simp add: ext_bytes_ok ext_ok_def ext_bytes_def)
  obtain k2 where k2: "readi_loop 1 (e1 # es) 0 ?S (left - c) k1 =
      Ok (slice 0 (left - c) (ext_content (memdisk k1) e1)) k2"
    "disk_ready k2" "memdisk k2 = memdisk k1" "io_step k1 k2"
  proof -
    have "ext_ok k1 e1" "0 + (left - c) \<le> nblocks e1 * 512" "?S + (left - c) < 4294967296"
      using assms(3,5,6,7) c(2) ext_ok_io [OF k1(3)] by auto
    from readi_loop_one [OF k1(1) this, of es] that show thesis by blast
  qed
  have len: "\<And>n. length (memdisk k n) = 512" using assms(1) by (simp add: disk_ready_def bc_inv_def)
  have "slice sz c (ext_content (memdisk k) e0) @ slice 0 (left - c) (ext_content (memdisk k) e1) =
      slice sz left (ext_content (memdisk k) e0 @ ext_content (memdisk k) e1)"
    using length_ext_content [of "memdisk k" e0, OF len] assms(4,5) c by (simp add: slice_def mult.commute)
  then have "readi_loop 1 (e0 # e1 # es) sz sz left k =
      Ok (slice sz left (ext_content (memdisk k) e0 @ ext_content (memdisk k) e1)) k2"
    unfolding k1(4) next1 using k2(1) k1(2) by simp
  then show ?thesis using k1(2) k2(2,3) io_step_trans [OF k1(3) k2(4)] by auto
qed

text \<open>An inode whose data the running call can reach: locked, on the disk, not a device.\<close>

definition data_inode :: "iptr \<Rightarrow> kernel \<Rightarrow> bool" where
  "data_inode ip k \<longleftrightarrow> sl_locked (get_sl (SlInode ip) k) \<and> i_dev (get_inode ip k) = ROOTDEV \<and>
     i_type (get_inode ip k) \<noteq> T_DEV"

lemma readi_eq:
  assumes "fs_ready k" "data_inode ip k" "off \<le> i_size (get_inode ip k)" "off + n < 4294967296"
    "seek_extent (i_data (get_inode ip k)) 0 off = Some (es, st)" "st \<le> off" "n < 2147483648"
  shows "readi ip off n k =
    bnd (readi_loop 1 es (off - st) off n k) (\<lambda>bs k. Ok (int n, bs) k)"
  using assms by (simp add: readi_def holdingsleep_eq fs_ready_def data_inode_def)

lemma readi_two:
  assumes rdy: "disk_ready k" and ip: "data_inode ip k" "off \<le> i_size (get_inode ip k)"
    and ext: "i_data (get_inode ip k) = e0 # e1 # es" "ext_ok k e0" "ext_ok k e1"
    and bnds: "off + n \<le> nblocks e0 * 512 + nblocks e1 * 512" "n < 2147483648"
      "nblocks e0 * 512 + nblocks e1 * 512 < 4294967296"
  shows "\<exists>k'. readi ip off n k =
           Ok (int n, slice off n (ext_content (memdisk k) e0 @ ext_content (memdisk k) e1)) k' \<and>
           disk_ready k' \<and> memdisk k' = memdisk k \<and> io_step k k'"
proof -
  have fr: "fs_ready k" using rdy by (simp add: disk_ready_def)
  have on: "off + n < 4294967296" using bnds by linarith
  have len: "\<And>n. length (memdisk k n) = 512" using rdy by (simp add: disk_ready_def bc_inv_def)
  note sz0 = length_ext_content [of "memdisk k" e0, OF len]
  show ?thesis
  proof (cases "off \<le> nblocks e0 * 512")
    case True
    have "seek_extent (i_data (get_inode ip k)) 0 off = Some (e0 # e1 # es, 0)"
      using True ext by (simp add: ext_bytes_ok ext_ok_def ext_bytes_def)
    note eq = readi_eq [OF fr ip on this _ bnds(2), simplified]
    show ?thesis
    proof (cases "off + n \<le> nblocks e0 * 512")
      case inside: True
      have "slice off n (ext_content (memdisk k) e0 @ ext_content (memdisk k) e1) =
          slice off n (ext_content (memdisk k) e0)"
        using sz0 inside by (simp add: slice_def mult.commute)
      with readi_loop_one [OF rdy ext(2) inside on, of "e1 # es"] show ?thesis unfolding eq by auto
    next
      case False
      with readi_loop_two [OF rdy ext(2,3) True _ bnds(1) on, of es] show ?thesis unfolding eq by auto
    qed
  next
    case False
    have S0: "ext_bytes e0 = nblocks e0 * 512" "w32 (nblocks e0 * 512) = nblocks e0 * 512"
      "ext_bytes e1 = nblocks e1 * 512"
      using ext bnds by (auto simp: ext_bytes_ok)
    have "seek_extent (i_data (get_inode ip k)) 0 off = Some (e1 # es, nblocks e0 * 512)"
      using False ext(1) S0 bnds by simp
    note eq = readi_eq [OF fr ip on this _ bnds(2)]
    have "slice off n (ext_content (memdisk k) e0 @ ext_content (memdisk k) e1) =
        slice (off - nblocks e0 * 512) n (ext_content (memdisk k) e1)"
      using sz0 False by (simp add: slice_def mult.commute)
    moreover have "off - nblocks e0 * 512 + n \<le> nblocks e1 * 512" using False bnds by linarith
    ultimately show ?thesis using readi_loop_one [OF rdy ext(3) _ on, of "off - nblocks e0 * 512" es]
        eq False by auto
  qed
qed

section \<open>Writing inside the first extent\<close>

lemma overwrite_append_left:
  "i + length x \<le> length xs \<Longrightarrow> overwrite (xs @ ys) i x = overwrite xs i x @ ys"
  by (simp add: overwrite_def)

lemma overwrite_append_right:
  "length xs \<le> i \<Longrightarrow> overwrite (xs @ ys) i x = xs @ overwrite ys (i - length xs) x"
  by (simp add: overwrite_def)

lemma overwrite_overwrite:
  assumes "i + length x + length y \<le> length xs"
  shows "overwrite (overwrite xs i x) (i + length x) y = overwrite xs i (x @ y)"
  using assms by (simp add: overwrite_def take_add ac_simps)

lemma blocks_overwrite:
  assumes "\<And>n. length (d n) = 512" "distinct ns" "j < length ns" "o' + length x \<le> 512"
  shows "concat (map (d(ns ! j := overwrite (d (ns ! j)) o' x)) ns) =
    overwrite (concat (map d ns)) (512 * j + o') x"
  using assms(2,3)
proof (induction ns arbitrary: j)
  case (Cons n ns)
  show ?case
  proof (cases j)
    case 0
    have "map (d(n := overwrite (d n) o' x)) ns = map d ns" using Cons.prems(1) by auto
    then have "concat (map (d(n := overwrite (d n) o' x)) (n # ns)) =
        overwrite (d n) o' x @ concat (map d ns)" by (simp only: list.map concat.simps fun_upd_same)
    with 0 show ?thesis using assms(1) [of n] assms(4) overwrite_append_left [of o' x "d n"]
      by (simp del: fun_upd_apply)
  next
    case (Suc i)
    then have "ns ! i \<noteq> n" using Cons.prems by auto
    then show ?thesis using Cons.IH [of i] Cons.prems Suc assms(1) [of n]
      by (simp add: overwrite_append_right)
  qed
qed simp

lemma ext_content_overwrite:
  assumes "\<And>n. length (d n) = 512" "sz < 512 * nblocks e" "length x \<le> 512 - sz mod 512"
  defines "b \<equiv> startblkno e + sz div 512"
  shows "ext_content (d(b := overwrite (d b) (sz mod 512) x)) e = overwrite (ext_content d e) sz x"
proof -
  have j: "sz div 512 < nblocks e" using assms(2) by (simp add: div_less_iff_less_mult mult.commute)
  let ?ns = "[startblkno e ..< startblkno e + nblocks e]"
  have "?ns ! (sz div 512) = b" using j by (simp add: b_def)
  moreover have "512 * (sz div 512) + sz mod 512 = sz" by simp
  ultimately show ?thesis
    using blocks_overwrite [of d ?ns "sz div 512" "sz mod 512" x] assms(1,3) j
    by (simp add: ext_content_def)
qed

definition ext_span :: "extent \<Rightarrow> nat set" where
  "ext_span e = {startblkno e ..< startblkno e + nblocks e}"

lemma writei_loop_step:
  assumes "disk_ready k" "ext_ok k e" "0 < left" "off + left \<le> nblocks e * 512" "left \<le> length src"
  defines "m \<equiv> min left (512 - off mod 512)" and "b \<equiv> startblkno e + off div 512"
  shows "\<exists>k1. writei_loop 1 (e # es) off off left src k =
      writei_loop 1 (e # es) (off + m) (off + m) (left - m) (drop m src) k1 \<and>
      disk_ready k1 \<and> io_step k k1 \<and>
      memdisk k1 = (memdisk k)(b := overwrite (memdisk k b) (off mod 512) (take m src))"
proof -
  have sz: "off < nblocks e * 512" using assms(3,4) by linarith
  note m = chunk_le [OF sz assms(3), folded m_def]
  have blk: "b < disksize k" "disksize k < 4294967296"
    using assms(2) sz by (auto simp: b_def ext_ok_def div_less_iff_less_mult
        intro: less_le_trans [of _ "startblkno e + nblocks e"])
  let ?f = "\<lambda>d. overwrite d (off mod 512) (take m src)"
  have len: "length (memdisk k b) = 512" using assms(1) by (simp add: disk_ready_def bc_inv_def)
  have ml: "m \<le> length src" using assms(5) by (simp add: m_def)
  have "length (?f (memdisk k b)) = 512" using len ml by (simp add: m_def)
  from upd_block_ok [of k b ?f, OF assms(1) blk(1) this] obtain k1 where k1: "upd_block b ?f k = Ok () k1"
    "disk_ready k1" "memdisk k1 = (memdisk k)(b := ?f (memdisk k b))" "io_step k k1" by auto
  from k1(1) obtain c kb kw where "bread (Suc 0) b k = Ok c kb"
    "bwrite c (upd_buf c (\<lambda>d. d\<lparr>b_data := ?f (b_data d)\<rparr>) kb) = Ok () kw" "brelse c kw = Ok () k1"
    by (rule upd_blockE)
  moreover have "off + m < 4294967296" using m(1) sz assms(2) by (auto simp: ext_ok_def)
  ultimately have "writei_loop 1 (e # es) off off left src k =
      writei_loop 1 (e # es) (off + m) (off + m) (left - m) (drop m src) k1"
    using assms(3) sz blk ml
    by (subst writei_loop.simps)
       (simp add: ext_bytes_ok [OF assms(2)] Let_def m_def [symmetric] b_def [symmetric] copy_in_def)
  with k1 show ?thesis by auto
qed

lemma writei_loop_one:
  assumes "disk_ready k" "ext_ok k e" "off + left \<le> nblocks e * 512" "left \<le> length src"
  shows "\<exists>k'. writei_loop 1 (e # es) off off left src k = Ok (drop left src) k' \<and> disk_ready k' \<and>
    io_step k k' \<and> ext_content (memdisk k') e = overwrite (ext_content (memdisk k) e) off (take left src) \<and>
    (\<forall>n. n \<notin> ext_span e \<longrightarrow> memdisk k' n = memdisk k n)"
  using assms
proof (induction left arbitrary: off src k rule: less_induct)
  case (less left)
  show ?case
  proof (cases "left = 0")
    case True
    then show ?thesis using less.prems
      by (intro exI [of _ k]) (subst writei_loop.simps, simp add: overwrite_def)
  next
    case False
    then have left: "0 < left" by simp
    define m where "m = min left (512 - off mod 512)"
    define b where "b = startblkno e + off div 512"
    have sz: "off < nblocks e * 512" using left less.prems(3) by linarith
    note m = chunk_le [OF sz left, folded m_def]
    have len: "\<And>n. length (memdisk k n) = 512"
      using less.prems(1) by (simp add: disk_ready_def bc_inv_def)
    obtain k1 where k1: "writei_loop 1 (e # es) off off left src k =
        writei_loop 1 (e # es) (off + m) (off + m) (left - m) (drop m src) k1"
      "disk_ready k1" "io_step k k1"
      "memdisk k1 = (memdisk k)(b := overwrite (memdisk k b) (off mod 512) (take m src))"
      using writei_loop_step [OF less.prems(1,2) left less.prems(3,4)] unfolding m_def b_def by blast
    have c1: "ext_content (memdisk k1) e = overwrite (ext_content (memdisk k) e) off (take m src)"
      unfolding k1(4) b_def
      by (rule ext_content_overwrite) (use len sz less.prems(4) in \<open>auto simp: m_def\<close>)
    have "left - m < left" "off + m + (left - m) \<le> nblocks e * 512" "left - m \<le> length (drop m src)"
      using m left less.prems(3,4) by (auto simp: m_def)
    from less.IH [OF this(1) k1(2) _ this(2,3)] ext_ok_io [OF k1(3)] less.prems(2)
    obtain k2 where k2: "writei_loop 1 (e # es) (off + m) (off + m) (left - m) (drop m src) k1 =
        Ok (drop (left - m) (drop m src)) k2" "disk_ready k2" "io_step k1 k2"
      "ext_content (memdisk k2) e = overwrite (ext_content (memdisk k1) e) (off + m) (take (left - m) (drop m src))"
      "\<forall>n. n \<notin> ext_span e \<longrightarrow> memdisk k2 n = memdisk k1 n" by auto
    have "m \<le> left" by (simp add: m_def)
    then have joins: "take m src @ take (left - m) (drop m src) = take left src"
      "drop (left - m) (drop m src) = drop left src"
      by (simp_all flip: take_add)
    have "ext_content (memdisk k2) e = overwrite (ext_content (memdisk k) e) off (take left src)"
      using k2(4) c1 joins(1) \<open>m \<le> left\<close> less.prems(3,4) length_ext_content [of "memdisk k" e, OF len]
        overwrite_overwrite [of off "take m src" "take (left - m) (drop m src)" "ext_content (memdisk k) e"]
      by (simp add: mult.commute)
    moreover have "b \<in> ext_span e" using sz by (simp add: ext_span_def b_def div_less_iff_less_mult)
    ultimately show ?thesis using k1 k2 joins(2) io_step_trans [OF k1(3) k2(3)]
      by (intro exI [of _ k2]) auto
  qed
qed

lemma fold_capacity:
  "c + sum_list (map (\<lambda>e. nblocks e * 512) es) < 4294967296 \<Longrightarrow>
     fold (\<lambda>e c. w32 (c + ext_bytes e)) es c = c + sum_list (map (\<lambda>e. nblocks e * 512) es)"
proof (induction es arbitrary: c)
  case (Cons e es)
  then have "ext_bytes e = nblocks e * 512" "w32 (c + nblocks e * 512) = c + nblocks e * 512"
    by (simp_all add: ext_bytes_def)
  with Cons show ?case by (simp add: add.assoc)
qed simp

definition total_bytes :: "extent list \<Rightarrow> nat" where
  "total_bytes es = sum_list (map (\<lambda>e. nblocks e * BSIZE) es)"

lemma getCapacity_eq:
  "total_bytes (i_data (get_inode ip k)) < 4294967296 \<Longrightarrow>
     getCapacity ip k = total_bytes (i_data (get_inode ip k))"
  using fold_capacity [of 0 "i_data (get_inode ip k)"] by (simp add: getCapacity_def total_bytes_def)

lemma writei_eq:
  assumes "fs_ready k" "data_inode ip k" "off + n \<le> total_bytes (i_data (get_inode ip k))"
    "total_bytes (i_data (get_inode ip k)) < 4294967296" "n < 2147483648"
    "seek_extent (i_data (get_inode ip k)) 0 off = Some (es, st)" "st \<le> off"
  shows "writei ip src off n k =
    bnd (writei_loop 1 es (off - st) off n src k) (\<lambda>_ k. Ok (int n) k)"
  using assms by (simp add: writei_def holdingsleep_eq fs_ready_def data_inode_def getCapacity_eq)

lemma writei_one:
  assumes rdy: "disk_ready k" and ip: "data_inode ip k" and ext: "i_data (get_inode ip k) = e0 # es"
    "ext_ok k e0" "total_bytes (e0 # es) < 4294967296"
    and bnds: "off + n \<le> nblocks e0 * 512" "n < 2147483648" and src: "length src = n"
  shows "\<exists>k'. writei ip src off n k = Ok (int n) k' \<and> disk_ready k' \<and> io_step k k' \<and>
    ext_content (memdisk k') e0 = overwrite (ext_content (memdisk k) e0) off src \<and>
    (\<forall>b. b \<notin> ext_span e0 \<longrightarrow> memdisk k' b = memdisk k b)"
proof -
  have fr: "fs_ready k" using rdy by (simp add: disk_ready_def)
  have "seek_extent (i_data (get_inode ip k)) 0 off = Some (e0 # es, 0)"
    using bnds(1) ext by (simp add: ext_bytes_ok ext_ok_def ext_bytes_def)
  moreover have "off + n \<le> total_bytes (i_data (get_inode ip k))"
    using bnds(1) ext(1) by (simp add: total_bytes_def)
  ultimately have eq: "writei ip src off n k =
      bnd (writei_loop 1 (e0 # es) off off n src k) (\<lambda>_ k. Ok (int n) k)"
    using writei_eq [OF fr ip, of off n "e0 # es" 0] ext bnds(2) by simp
  from writei_loop_one [OF rdy ext(2) bnds(1), of src es] src
  show ?thesis unfolding eq by auto
qed

text \<open>In the second extent the block written is computed from the offset in the file, not in the
  extent: it lies as many blocks too far as the first extent has.\<close>

lemma writei_second_extent:
  assumes rdy: "disk_ready k" and ip: "data_inode ip k" and ext: "i_data (get_inode ip k) = e0 # e1 # es"
    "ext_ok k e0" "ext_ok k e1" "total_bytes (e0 # e1 # es) < 4294967296"
    and off: "off = nblocks e0 * 512 + x" "0 < x" "x + n \<le> nblocks e1 * 512" "0 < n" "n \<le> 512 - x mod 512"
    and src: "length src = n"
  defines "b \<equiv> startblkno e1 + nblocks e0 + x div 512"
  assumes b: "b < disksize k"
  shows "\<exists>k'. writei ip src off n k = Ok (int n) k' \<and> disk_ready k' \<and> io_step k k' \<and>
    memdisk k' = (memdisk k)(b := overwrite (memdisk k b) (x mod 512) src)"
proof -
  have fr: "fs_ready k" using rdy by (simp add: disk_ready_def)
  have S: "ext_bytes e0 = nblocks e0 * 512" "ext_bytes e1 = nblocks e1 * 512"
    using ext by (simp_all add: ext_bytes_ok)
  have tot: "nblocks e0 * 512 + nblocks e1 * 512 < 4294967296" using ext(4) by (simp add: total_bytes_def)
  have "seek_extent (i_data (get_inode ip k)) 0 off = Some (e1 # es, nblocks e0 * 512)"
    using off ext(1) S tot by simp
  moreover have "off + n \<le> total_bytes (i_data (get_inode ip k))"
    using off ext(1) by (simp add: total_bytes_def)
  moreover have n31: "n < 2147483648" using off(5) by (simp add: le_less_trans)
  ultimately have eq: "writei ip src off n k =
      bnd (writei_loop 1 (e1 # es) x off n src k) (\<lambda>_ k. Ok (int n) k)"
    using writei_eq [OF fr ip, of off n "e1 # es" "nblocks e0 * 512"] ext off(1) by simp
  have div: "off div 512 = nblocks e0 + x div 512" using off(1) by simp
  have small: "startblkno e1 + (nblocks e0 + x div 512) < 4294967296" "disksize k < 4294967296"
    using b ext(2) by (auto simp: b_def ext_ok_def)
  let ?f = "\<lambda>d. overwrite d (x mod 512) src"
  have len: "length (memdisk k b) = 512" using rdy by (simp add: disk_ready_def bc_inv_def)
  have "length (?f (memdisk k b)) = 512" using len off(5) src by simp
  from upd_block_ok [of k b ?f, OF rdy b this] obtain k1 where k1: "upd_block b ?f k = Ok () k1"
    "disk_ready k1" "memdisk k1 = (memdisk k)(b := ?f (memdisk k b))" "io_step k k1" by auto
  from k1(1) obtain c kb kw where "bread (Suc 0) b k = Ok c kb"
    "bwrite c (upd_buf c (\<lambda>d. d\<lparr>b_data := ?f (b_data d)\<rparr>) kb) = Ok () kw" "brelse c kw = Ok () k1"
    by (rule upd_blockE)
  moreover have "min n (512 - x mod 512) = n" using off(5) by simp
  ultimately have "writei_loop 1 (e1 # es) x off n src k = Ok [] k1"
    using off(3,4) S src small div
    by (subst writei_loop.simps, simp add: Let_def copy_in_def b_def [symmetric] add.assoc [symmetric])
       (subst writei_loop.simps, simp)
  with k1 show ?thesis unfolding eq by auto
qed

section \<open>The bitmap\<close>

text \<open>The extent a bitmap byte stands for: byte \<open>j\<close> of bitmap block \<open>i\<close>.\<close>

definition bit_extent :: "superblock \<Rightarrow> nat \<Rightarrow> nat \<Rightarrow> nat" where
  "bit_extent s i j = sub32 (sub32 (w32 (sb_nblocks s + inodestart s))
      (w32 (sub32 (sub32 (inodestart s) 1) i * BSIZE))) (w32 ((j + 1) * 8))"

abbreviation (input) free_byte :: "byte list \<Rightarrow> nat option" where
  "free_byte bs \<equiv> find_index (\<lambda>x. x = 0) bs"

lemma getfree_found:
  assumes "disk_ready k" "bmapstart (sb k) \<le> i" "i < disksize k" "free_byte (memdisk k i) = Some j"
  shows "\<exists>k'. getfree_loop (Suc fuel) 1 i k = Ok (bit_extent (sb k) i j) k' \<and> disk_ready k' \<and>
    io_step k k' \<and> memdisk k' = (memdisk k)(i := (memdisk k i)[j := 0xff])"
proof -
  let ?f = "\<lambda>d. d[j := 0xff]"
  have "length (?f (memdisk k i)) = 512" using assms(1) by (simp add: disk_ready_def bc_inv_def)
  from upd_block_ok [of k i ?f, OF assms(1,3) this] obtain k1 where k1: "upd_block i ?f k = Ok () k1"
    "disk_ready k1" "memdisk k1 = (memdisk k)(i := ?f (memdisk k i))" "io_step k k1" by auto
  from k1(1) obtain b kb kw where b: "bread (Suc 0) i k = Ok b kb"
    "bwrite b (upd_buf b (\<lambda>d. d\<lparr>b_data := ?f (b_data d)\<rparr>) kb) = Ok () kw" "brelse b kw = Ok () k1"
    by (rule upd_blockE)
  from rd_block_ok [OF assms(1,3)] obtain k2 where "rd_block i k = Ok (memdisk k i) k2" by blast
  then have "b_data (bcache_buf kb ! b) = memdisk k i" using b(1) by (elim rd_blockE) simp
  then have "getfree_loop (Suc fuel) 1 i k = Ok (bit_extent (sb k) i j) k1"
    using assms(2,4) b io_stepD(4) [OF k1(4)] by (simp add: bit_extent_def)
  with k1 show ?thesis by auto
qed

lemma getfree_full:
  assumes "disk_ready k" "bmapstart (sb k) \<le> i" "i < disksize k" "free_byte (memdisk k i) = None"
  shows "\<exists>k'. getfree_loop (Suc fuel) 1 i k = getfree_loop fuel 1 (sub32 i 1) k' \<and> disk_ready k' \<and>
    io_step k k' \<and> memdisk k' = memdisk k"
proof -
  from rd_block_ok [OF assms(1,3)] obtain k1 where k1: "rd_block i k = Ok (memdisk k i) k1"
    "disk_ready k1" "memdisk k1 = memdisk k" "io_step k k1" by blast
  from k1(1) obtain b kb where "bread (Suc 0) i k = Ok b kb" "b_data (bcache_buf kb ! b) = memdisk k i"
    "brelse b kb = Ok () k1" by (rule rd_blockE)
  with assms(2,4) k1 show ?thesis by auto
qed

text \<open>The bytes of the bitmap in the order they are tried: from the last bitmap block down.\<close>

lemma getfree_skip:
  assumes "disk_ready k" "bmapstart (sb k) \<le> i" "0 < bmapstart (sb k)" "i + d < disksize k"
    and "\<And>n. i < n \<Longrightarrow> n \<le> i + d \<Longrightarrow> free_byte (memdisk k n) = None"
  shows "\<exists>k'. getfree_loop (fuel + d) 1 (i + d) k = getfree_loop fuel 1 i k' \<and> disk_ready k' \<and>
    io_step k k' \<and> memdisk k' = memdisk k"
  using assms
proof (induction d arbitrary: k)
  case 0
  then show ?case by (intro exI [of _ k]) simp
next
  case (Suc d)
  from getfree_full [of k "i + Suc d" "fuel + d"] Suc.prems obtain k1 where
    k1: "getfree_loop (Suc (fuel + d)) 1 (i + Suc d) k = getfree_loop (fuel + d) 1 (i + d) k1"
    "disk_ready k1" "io_step k k1" "memdisk k1 = memdisk k" by fastforce
  note io = io_stepD [OF k1(3)]
  from Suc.IH [OF k1(2)] Suc.prems k1(4) io(3,4) obtain k2 where
    "getfree_loop (fuel + d) 1 (i + d) k1 = getfree_loop fuel 1 i k2" "disk_ready k2"
    "io_step k1 k2" "memdisk k2 = memdisk k1" by auto
  with k1 io_step_trans [OF k1(3)] show ?case by auto
qed

definition sb_ok :: "kernel \<Rightarrow> bool" where
  "sb_ok k \<longleftrightarrow> 0 < bmapstart (sb k) \<and> bmapstart (sb k) < inodestart (sb k) \<and>
     inodestart (sb k) \<le> disksize k"

lemma getfreestartblkno_found:
  assumes "disk_ready k" "sb_ok k" "bmapstart (sb k) \<le> i" "i < inodestart (sb k)"
    and "\<And>n. i < n \<Longrightarrow> n < inodestart (sb k) \<Longrightarrow> free_byte (memdisk k n) = None"
    and "free_byte (memdisk k i) = Some j"
  shows "\<exists>k'. getfreestartblkno 1 k = Ok (bit_extent (sb k) i j) k' \<and> disk_ready k' \<and>
    io_step k k' \<and> memdisk k' = (memdisk k)(i := (memdisk k i)[j := 0xff])"
proof -
  define d where "d = inodestart (sb k) - 1 - i"
  have start: "sub32 (inodestart (sb k)) 1 = i + d" "inodestart (sb k) = Suc i + d"
    using assms(2,4) by (auto simp: d_def sb_ok_def)
  from getfree_skip [OF assms(1,3), of d "Suc i"] assms start(2) obtain k1 where
    k1: "getfree_loop (Suc i + d) 1 (i + d) k = getfree_loop (Suc i) 1 i k1" "disk_ready k1"
    "io_step k k1" "memdisk k1 = memdisk k" by (auto simp: sb_ok_def)
  note io = io_stepD [OF k1(3)]
  from getfree_found [OF k1(2), of i j i] assms(2,3,4,6) k1(4) io(3,4) obtain k2 where
    "getfree_loop (Suc i) 1 i k1 = Ok (bit_extent (sb k) i j) k2" "disk_ready k2" "io_step k1 k2"
    "memdisk k2 = (memdisk k)(i := (memdisk k i)[j := 0xff])" by (auto simp: sb_ok_def)
  with k1 start io_step_trans [OF k1(3)] show ?thesis by (auto simp: getfreestartblkno_def)
qed

lemma getfreestartblkno_full:
  assumes "disk_ready k" "sb_ok k"
    and "\<And>n. bmapstart (sb k) \<le> n \<Longrightarrow> n < inodestart (sb k) \<Longrightarrow> free_byte (memdisk k n) = None"
  shows "\<exists>k'. getfreestartblkno 1 k = Ok 0 k' \<and> disk_ready k' \<and> io_step k k' \<and> memdisk k' = memdisk k"
proof -
  let ?i = "bmapstart (sb k)"
  define d where "d = inodestart (sb k) - 1 - ?i"
  have start: "sub32 (inodestart (sb k)) 1 = ?i + d" "inodestart (sb k) = Suc ?i + d"
    using assms(2) by (auto simp: d_def sb_ok_def)
  from getfree_skip [OF assms(1) order_refl, of d "Suc ?i"] assms start(2) obtain k1 where
    k1: "getfree_loop (Suc ?i + d) 1 (?i + d) k = getfree_loop (Suc ?i) 1 ?i k1" "disk_ready k1"
    "io_step k k1" "memdisk k1 = memdisk k" by (auto simp: sb_ok_def)
  note io = io_stepD [OF k1(3)]
  from getfree_full [OF k1(2), of ?i ?i] assms k1(4) io(3,4) obtain k2 where
    k2: "getfree_loop (Suc ?i) 1 ?i k1 = getfree_loop ?i 1 (sub32 ?i 1) k2" "disk_ready k2"
    "io_step k1 k2" "memdisk k2 = memdisk k1" by (auto simp: sb_ok_def)
  have "getfree_loop ?i 1 (sub32 ?i 1) k2 = Ok 0 k2"
    using assms(2) io(4) io_stepD(4) [OF k2(3)] by (cases ?i) (auto simp: sb_ok_def)
  with k1 k2 start io_step_trans [OF k1(3) k2(3)] show ?thesis by (auto simp: getfreestartblkno_def)
qed

lemma bit_extent_eq:
  assumes "i < inodestart s" "(inodestart s - 1 - i) * 512 + (j + 1) * 8 \<le> sb_nblocks s + inodestart s"
    "sb_nblocks s + inodestart s < 4294967296"
  shows "bit_extent s i j = sb_nblocks s + inodestart s - ((inodestart s - 1 - i) * 512 + (j + 1) * 8)"
proof -
  have "w32 ((inodestart s - 1 - i) * 512) = (inodestart s - 1 - i) * 512"
    "w32 ((j + 1) * 8) = (j + 1) * 8" using assms(2,3) by (simp_all only: w32_id)
  then show ?thesis using assms by (simp add: bit_extent_def)
qed

section \<open>Appending\<close>

fun ip_valid :: "iptr \<Rightarrow> kernel \<Rightarrow> bool" where
  "ip_valid Inodefile k = True"
| "ip_valid (Icache i) k = (i < length (icache_inode k))"

lemma get_upd_inode [simp]: "ip_valid ip k \<Longrightarrow> get_inode ip (upd_inode ip f k) = f (get_inode ip k)"
  by (cases ip) simp_all

lemma upd_inode_frame [simp]:
  "memdisk (upd_inode ip f k) = memdisk k" "sb (upd_inode ip f k) = sb k"
  "disksize (upd_inode ip f k) = disksize k" "held (upd_inode ip f k) = held k"
  "curproc (upd_inode ip f k) = curproc k" "ptable (upd_inode ip f k) = ptable k"
  "bcache_buf (upd_inode ip f k) = bcache_buf k" "bcache_lru (upd_inode ip f k) = bcache_lru k"
  "crashn_enable (upd_inode ip f k) = crashn_enable k" "ip_valid ip' (upd_inode ip f k) = ip_valid ip' k"
  by (cases ip; cases ip'; simp)+

lemma disk_ready_upd_inode [simp]: "disk_ready (upd_inode ip f k) = disk_ready k"
  by (simp add: disk_ready_def bc_inv_def bc_shape_def buf_ok_def fs_ready_def)

lemma get_inode_io: "io_step k k' \<Longrightarrow> get_inode ip k' = get_inode ip k"
  by (cases ip) (simp_all add: io_stepD)

lemma ip_valid_io: "io_step k k' \<Longrightarrow> ip_valid ip k' = ip_valid ip k"
  by (cases ip) (simp_all add: io_stepD)

lemma appendi_chunk:
  assumes rdy: "disk_ready k" and ip: "ip_valid ip k" "i_dev (get_inode ip k) = 1"
    and d: "find_index (\<lambda>e. nblocks e = 0) (i_data (get_inode ip k)) = Some d"
    and free: "getfreestartblkno 1 k = Ok s k1" "disk_ready k1" "io_step k k1"
    and s: "s < disksize k" "disksize k < 4294967296" and n: "length src = n" "0 < n" "n \<le> 512"
  shows "\<exists>k'. appendi ip src n k = Ok (int n) k' \<and> disk_ready k' \<and>
    memdisk k' = (memdisk k1)(s := overwrite (memdisk k1 s) 0 src) \<and>
    i_data (get_inode ip k') = (i_data (get_inode ip k))[d := \<lparr>startblkno = s, nblocks = 8\<rparr>] \<and>
    io_step (upd_inode ip (\<lambda>i. i\<lparr>i_data := (i_data i)[d := \<lparr>startblkno = s, nblocks = 8\<rparr>]\<rparr>) k1) k'"
proof -
  let ?e = "\<lparr>startblkno = s, nblocks = 8\<rparr> :: extent"
  let ?k2 = "upd_inode ip (\<lambda>i. i\<lparr>i_data := (i_data i)[d := ?e]\<rparr>) k1"
  have dl: "d < length (i_data (get_inode ip k))" "nblocks (i_data (get_inode ip k) ! d) = 0"
    using find_index_Some [OF d] by auto
  have in1: "get_inode ip k1 = get_inode ip k" "ip_valid ip k1"
    using free(3) ip(1) by (simp_all add: get_inode_io ip_valid_io)
  then have in2: "get_inode ip ?k2 = (get_inode ip k)\<lparr>i_data := (i_data (get_inode ip k))[d := ?e]\<rparr>" by simp
  have s1: "s < disksize ?k2" using s(1) io_stepD(3) [OF free(3)] by simp
  let ?f = "\<lambda>b. overwrite b 0 src"
  have "length (?f (memdisk ?k2 s)) = 512" using free(2) n by (simp add: disk_ready_def bc_inv_def)
  from upd_block_ok [of ?k2 s ?f, OF _ s1 this] free(2) obtain k3 where k3: "upd_block s ?f ?k2 = Ok () k3"
    "disk_ready k3" "memdisk k3 = (memdisk k1)(s := ?f (memdisk k1 s))" "io_step ?k2 k3" by auto
  from k3(1) obtain c kb kw where w: "bread (Suc 0) s ?k2 = Ok c kb"
    "bwrite c (upd_buf c (\<lambda>d. d\<lparr>b_data := ?f (b_data d)\<rparr>) kb) = Ok () kw" "brelse c kw = Ok () k3"
    by (rule upd_blockE)
  have "min n 512 = n" using n(3) by simp
  with w in1 in2 dl free(1) ip(2) n s
  have "appendi_loop (Suc (Suc f)) ip d 0 n src k = Ok () k3" for f
    by (simp add: ext_bytes_def copy_in_def Let_def)
  from this [of 6] have "appendi ip src n k = Ok (int n) k3" using d n by (simp add: appendi_def)
  with k3 in2 get_inode_io [OF k3(4), of ip] show ?thesis by auto
qed

lemma writei_empty:
  assumes rdy: "disk_ready k" and ip: "ip_valid ip k" "data_inode ip k"
    and empty: "i_data (get_inode ip k) = e0 # es" "total_bytes (e0 # es) = 0"
    and free: "getfreestartblkno 1 k = Ok s k1" "disk_ready k1" "io_step k k1"
    and s: "s < disksize k" "disksize k < 4294967296" and n: "length src = n" "0 < n" "n \<le> 512"
  shows "\<exists>k'. writei ip src 0 n k = Ok (int n) k' \<and> disk_ready k' \<and>
    memdisk k' = (memdisk k1)(s := overwrite (memdisk k1 s) 0 src) \<and>
    get_inode ip k' = (get_inode ip k)\<lparr>i_data := \<lparr>startblkno = s, nblocks = 8\<rparr> # es\<rparr> \<and>
    sl_locked (get_sl (SlInode ip) k') \<and> disksize k' = disksize k"
proof -
  let ?e = "\<lparr>startblkno = s, nblocks = 8\<rparr> :: extent"
  have dev: "i_dev (get_inode ip k) = 1" using ip(2) by (simp add: data_inode_def)
  have e0: "nblocks e0 = 0" using empty(2) by (simp add: total_bytes_def)
  have fr: "fs_ready k" using rdy by (simp add: disk_ready_def)
  have "find_index (\<lambda>e. nblocks e = 0) (i_data (get_inode ip k)) = Some 0" using empty(1) e0 by simp
  from appendi_chunk [OF rdy ip(1) dev this free s n] obtain k' where
    k': "appendi ip src n k = Ok (int n) k'" "disk_ready k'"
    "memdisk k' = (memdisk k1)(s := overwrite (memdisk k1 s) 0 src)"
    "io_step (upd_inode ip (\<lambda>i. i\<lparr>i_data := (i_data i)[0 := ?e]\<rparr>) k1) k'" by blast
  have "seek_extent (i_data (get_inode ip k)) 0 0 = Some (e0 # es, 0)" using empty(1) by simp
  moreover have "getCapacity ip k = 0" using getCapacity_eq [of ip k] empty by simp
  ultimately have "writei ip src 0 n k = bnd (writei_loop 1 (e0 # es) 0 0 0 src k) (\<lambda>src k.
      bnd (appendi ip src n k) (\<lambda>r k. Ok (i32 r) k))"
    using ip(2) n fr by (simp add: writei_def holdingsleep_eq fs_ready_def data_inode_def)
  then have w: "writei ip src 0 n k = Ok (int n) k'"
    using k'(1) n by (subst (asm) writei_loop.simps) simp
  have g: "get_inode ip k' = (get_inode ip k)\<lparr>i_data := ?e # es\<rparr>"
    using get_inode_io [OF k'(4), of ip] get_inode_io [OF free(3), of ip] ip_valid_io [OF free(3), of ip]
      ip(1) empty(1) by simp
  have "sl_locked (get_sl (SlInode ip) k')"
    using g ip(2) by (cases ip) (simp_all add: data_inode_def)
  moreover have "disksize k' = disksize k" using io_stepD(3) [OF k'(4)] io_stepD(3) [OF free(3)] by simp
  ultimately show ?thesis using w k' g by auto
qed

section \<open>Properties\<close>


definition file_inode :: inode where
  "file_inode = inode0\<lparr>i_dev := 1, i_type := 2, i_size := 2000,
     i_lock := \<lparr>sl_locked = True, sl_pid = 1\<rparr>,
     i_data := \<lparr>startblkno = 20, nblocks = 2\<rparr> # \<lparr>startblkno = 30, nblocks = 3\<rparr> # replicate 5 no_extent\<rparr>"

definition k0_file :: kernel where
  "k0_file = k0\<lparr>icache_inode := file_inode # replicate 49 inode0\<rparr>"

lemma disk_ready_icache [simp]: "disk_ready (k\<lparr>icache_inode := is\<rparr>) = disk_ready k"
  by (simp add: disk_ready_def bc_inv_def bc_shape_def buf_ok_def fs_ready_def)

lemma k0_file_ready: "disk_ready k0_file" "data_inode (Icache 0) k0_file"
  "icache_inode k0_file ! 0 = file_inode" "disksize k0_file = 64" "sb k0_file = sb k0"
  "memdisk k0_file = memdisk k0"
  using disk_ready_k0 by (simp_all add: k0_file_def data_inode_def file_inode_def) (simp add: k0_def)





definition k0_empty :: kernel where
  "k0_empty = k0\<lparr>icache_inode := file_inode\<lparr>i_data := replicate 7 no_extent, i_size := 0\<rparr> # replicate 49 inode0\<rparr>"

lemma k0_empty_ready: "disk_ready k0_empty" "data_inode (Icache 0) k0_empty" "sb_ok k0_empty"
  "ip_valid (Icache 0) k0_empty" "disksize k0_empty = 64" "sb k0_empty = sb0"
  "i_data (get_inode (Icache 0) k0_empty) = no_extent # no_extent # replicate 5 no_extent"
  "memdisk k0_empty = (\<lambda>_. replicate 512 0)"
proof -
  show "disk_ready k0_empty" using disk_ready_k0 by (simp add: k0_empty_def)
  show "i_data (get_inode (Icache 0) k0_empty) = no_extent # no_extent # replicate 5 no_extent"
    by (simp add: k0_empty_def file_inode_def numeral_eq_Suc)
qed (simp_all add: k0_empty_def data_inode_def file_inode_def sb_ok_def k0_def sb0_def)


text \<open>C35: The allocator gives the same blocks out twice. Each byte of the bitmap stands for eight blocks,
  so a bitmap block stands for 4096 blocks, but \<open>getfreestartblkno\<close> moves only \<open>BSIZE\<close> (512) blocks
  down per bitmap block: when the last bitmap block has only byte \<open>j + 64\<close> left and the one before
  it has byte \<open>j\<close> first free, two calls in a row return the same start block.\<close>

theorem getfreestartblkno_duplicates:
  assumes "disk_ready k" "sb_ok k" "bmapstart (sb k) < inodestart (sb k) - 1"
    and "free_byte (memdisk k (inodestart (sb k) - 1)) = Some (j + 64)"
      "free_byte ((memdisk k (inodestart (sb k) - 1))[j + 64 := 0xff]) = None"
      "free_byte (memdisk k (inodestart (sb k) - 2)) = Some j"
    and "512 + (j + 1) * 8 \<le> sb_nblocks (sb k) + inodestart (sb k)"
      "sb_nblocks (sb k) + inodestart (sb k) < 4294967296"
  shows "\<exists>s k1 k2. getfreestartblkno 1 k = Ok s k1 \<and> getfreestartblkno 1 k1 = Ok s k2"
proof -
  let ?i = "inodestart (sb k) - 1"
  have ino: "2 \<le> inodestart (sb k)" "?i < inodestart (sb k)" using assms(3) by linarith+
  have "bmapstart (sb k) \<le> ?i" using assms(3) by simp
  from getfreestartblkno_found [OF assms(1,2) this ino(2) _ assms(4)] obtain k1 where
    k1: "getfreestartblkno 1 k = Ok (bit_extent (sb k) ?i (j + 64)) k1" "disk_ready k1" "io_step k k1"
    "memdisk k1 = (memdisk k)(?i := (memdisk k ?i)[j + 64 := 0xff])" by fastforce
  note io = io_stepD [OF k1(3)]
  have full: "free_byte (memdisk k1 n) = None" if "inodestart (sb k) - 2 < n" "n < inodestart (sb k)" for n
  proof -
    have "n = ?i" using that by linarith
    with k1(4) assms(5) show ?thesis by simp
  qed
  have j: "free_byte (memdisk k1 (inodestart (sb k) - 2)) = Some j" using k1(4) assms(6) ino by auto
  have "sb_ok k1" "bmapstart (sb k1) \<le> inodestart (sb k) - 2" "inodestart (sb k) - 2 < inodestart (sb k1)"
    using assms(2,3) ino io by (auto simp: sb_ok_def)
  from getfreestartblkno_found [OF k1(2) this _ j] full io(4) obtain k2 where
    k2: "getfreestartblkno 1 k1 = Ok (bit_extent (sb k) (inodestart (sb k) - 2) j) k2" by auto
  have "bit_extent (sb k) ?i (j + 64) = bit_extent (sb k) (inodestart (sb k) - 2) j"
    using assms(7,8) ino by (subst (1 2) bit_extent_eq) (simp_all add: algebra_simps)
  with k1(1) k2 show ?thesis by auto
qed

text \<open>C36: On a full disk \<open>getfreestartblkno\<close> returns 0, which \<open>appendi\<close> does not check: a write to an empty
  file reports success, makes block 0 the file's first extent and overwrites the boot block.\<close>

theorem full_disk_overwrites_block_0:
  assumes "disk_ready k" "sb_ok k" "ip_valid ip k" "data_inode ip k"
    and "i_data (get_inode ip k) = e0 # es" "total_bytes (e0 # es) = 0"
    and "\<forall>n. bmapstart (sb k) \<le> n \<and> n < inodestart (sb k) \<longrightarrow> free_byte (memdisk k n) = None"
    and "disksize k < 4294967296" "0 < length src" "length src \<le> 512"
  shows "\<exists>k'. writei ip src 0 (length src) k = Ok (int (length src)) k' \<and>
    memdisk k' = (memdisk k)(0 := overwrite (memdisk k 0) 0 src) \<and>
    i_data (get_inode ip k') = \<lparr>startblkno = 0, nblocks = 8\<rparr> # es"
proof -
  obtain kf where kf: "getfreestartblkno 1 k = Ok 0 kf" "disk_ready kf" "io_step k kf" "memdisk kf = memdisk k"
    using getfreestartblkno_full [OF assms(1,2)] assms(7) by blast
  have "0 < disksize k" using assms(2) by (simp add: sb_ok_def)
  from writei_empty [OF assms(1,3,4,5,6) kf(1-3) this assms(8) refl assms(9,10)] kf(4) show ?thesis by auto
qed

text \<open>Disks for the two findings: a bitmap of two blocks with one byte left in the last, and a bitmap
  without a free byte.\<close>

lemma disk_ready_variant:
  "(\<And>n. length (m n) = 512) \<Longrightarrow>
     disk_ready (k0\<lparr>memdisk := m, sb := s, disksize := d, icache_inode := is\<rparr>)"
  using disk_ready_k0
  by (simp add: disk_ready_def bc_inv_def bc_shape_def fs_ready_def k0_def buf_ok_def buf0_def)

definition k0_dup :: kernel where
  "k0_dup = k0\<lparr>memdisk := (\<lambda>n. if n = 3 then replicate 64 255 @ 0 # replicate 447 255 else replicate 512 0),
     sb := sb0\<lparr>sb_nblocks := 20000\<rparr>, disksize := 20100, icache_inode := []\<rparr>"

theorem getfreestartblkno_duplicates_witness:
  "\<exists>s k1 k2. getfreestartblkno 1 k0_dup = Ok s k1 \<and> getfreestartblkno 1 k1 = Ok s k2"
proof (rule getfreestartblkno_duplicates [where j = 0])
  let ?bs = "replicate 64 255 @ 0 # replicate 447 255 :: byte list"
  have m: "memdisk k0_dup 3 = ?bs" "memdisk k0_dup 2 = replicate 512 0" "sb k0_dup = sb0\<lparr>sb_nblocks := 20000\<rparr>"
    by (simp_all add: k0_dup_def)
  show "disk_ready k0_dup" unfolding k0_dup_def by (rule disk_ready_variant) simp
  show "free_byte (memdisk k0_dup (inodestart (sb k0_dup) - 1)) = Some (0 + 64)"
    by (rule find_index_first) (auto simp: m sb0_def nth_append)
  show "free_byte ((memdisk k0_dup (inodestart (sb k0_dup) - 1))[0 + 64 := 0xff]) = None"
    by (simp add: m sb0_def list_update_append find_index_None)
  show "free_byte (memdisk k0_dup (inodestart (sb k0_dup) - 2)) = Some 0"
    by (rule find_index_first) (auto simp: m sb0_def)
qed (simp_all add: k0_dup_def sb0_def sb_ok_def)

definition k0_full :: kernel where
  "k0_full = k0\<lparr>memdisk := (\<lambda>_. replicate 512 255), sb := sb0, disksize := 64,
     icache_inode := icache_inode k0_empty\<rparr>"

theorem full_disk_overwrites_block_0_witness:
  "\<exists>k'. writei (Icache 0) [1, 2] 0 2 k0_full = Ok 2 k' \<and>
    memdisk k' = (memdisk k0_full)(0 := overwrite (memdisk k0_full 0) 0 [1, 2]) \<and>
    i_data (get_inode (Icache 0) k') = \<lparr>startblkno = 0, nblocks = 8\<rparr> # replicate 6 no_extent"
proof -
  have "disk_ready k0_full" unfolding k0_full_def by (rule disk_ready_variant) simp
  moreover have "sb_ok k0_full" "ip_valid (Icache 0) k0_full" "data_inode (Icache 0) k0_full" "disksize k0_full < 4294967296"
    by (simp_all add: k0_full_def k0_empty_def sb_ok_def sb0_def data_inode_def file_inode_def)
  moreover have "i_data (get_inode (Icache 0) k0_full) = no_extent # replicate 6 no_extent"
    by (simp add: k0_full_def k0_empty_def file_inode_def numeral_eq_Suc)
  moreover have "total_bytes (no_extent # replicate 6 no_extent) = 0"
    by (simp add: total_bytes_def no_extent_def sum_list_replicate)
  moreover have "\<forall>n. bmapstart (sb k0_full) \<le> n \<and> n < inodestart (sb k0_full) \<longrightarrow> free_byte (memdisk k0_full n) = None"
    by (simp add: k0_full_def find_index_None)
  ultimately have "\<exists>k'. writei (Icache 0) [1, 2] 0 (length [1, 2 :: byte]) k0_full = Ok (int (length [1, 2 :: byte])) k' \<and>
    memdisk k' = (memdisk k0_full)(0 := overwrite (memdisk k0_full 0) 0 [1, 2]) \<and>
    i_data (get_inode (Icache 0) k') = \<lparr>startblkno = 0, nblocks = 8\<rparr> # replicate 6 no_extent"
    by (intro full_disk_overwrites_block_0) simp_all
  then show ?thesis by (simp del: get_inode.simps flip: numeral_2_eq_2)
qed

text \<open>C38: A write that starts inside the second extent goes to the wrong blocks: \<open>writei\<close> adds the block number
  of the file offset, not of the offset within the extent, to the extent's start, so the bytes land
  as many blocks too far as the first extent is long. \<open>readi\<close> of the same range does not see them.\<close>

theorem writei_second_extent_misplaced:
  assumes "disk_ready k" "data_inode ip k" "i_data (get_inode ip k) = e0 # e1 # es"
    "ext_ok k e0" "ext_ok k e1" "total_bytes (e0 # e1 # es) < 4294967296"
    and "0 < x" "x + length src \<le> nblocks e1 * 512" "0 < length src" "length src \<le> 512 - x mod 512"
    and "startblkno e1 + nblocks e0 + x div 512 < disksize k"
  shows "\<exists>k'. writei ip src (nblocks e0 * 512 + x) (length src) k = Ok (int (length src)) k' \<and>
    memdisk k' = (memdisk k)(startblkno e1 + nblocks e0 + x div 512 :=
      overwrite (memdisk k (startblkno e1 + nblocks e0 + x div 512)) (x mod 512) src)"
  using writei_second_extent [OF assms(1-6) refl assms(7-10) refl assms(11)] by blast

theorem writei_second_extent_misplaced_witness:
  "\<exists>k'. writei (Icache 0) [1, 2] (2 * 512 + 1) 2 k0_file = Ok 2 k' \<and>
    memdisk k' = (memdisk k0_file)(32 := overwrite (memdisk k0_file 32) 1 [1, 2])"
proof -
  let ?e0 = "\<lparr>startblkno = 20, nblocks = 2\<rparr>" and ?e1 = "\<lparr>startblkno = 30, nblocks = 3\<rparr>"
  have d: "i_data (get_inode (Icache 0) k0_file) = ?e0 # ?e1 # replicate 5 no_extent"
    by (simp add: k0_file_ready(3)) (simp add: file_inode_def)
  show ?thesis
    using writei_second_extent_misplaced [OF k0_file_ready(1,2) d, of 1 "[1, 2]"]
    by (simp add: k0_file_ready(4) ext_ok_def total_bytes_def no_extent_def sum_list_replicate
        flip: numeral_2_eq_2)
qed

end
