(* ===== verification/Icache.thy ===== *)
theory Icache
  imports Inode
begin

text \<open>
  The cache of in-memory inodes of \<open>kernel/fs.c\<close>: \<open>iget\<close>, \<open>idup\<close>, \<open>irelease\<close>, \<open>locki\<close>, \<open>unlocki\<close>,
  \<open>read_dinode\<close>, \<open>stati\<close> and the \<open>concurrent_\<close> variants, and the boot-time \<open>iinit\<close>. A pointer to
  an inode that may be null is an \<open>iptr option\<close>; \<open>iget\<close> returns the index of an entry of
  \<open>icache.inode\<close>. The predicate \<open>ic_inv\<close> is the invariant of the cache.
\<close>

section \<open>Reading an inode from the inode file\<close>

definition INODEOFF :: "nat \<Rightarrow> nat" where
  "INODEOFF inum = w32 (inum * 64)"

text \<open>The copy of the fields of a \<open>dinode\<close> into an inode.\<close>

definition fill_inode :: "dinode \<Rightarrow> inode \<Rightarrow> inode" where
  "fill_inode d i = i\<lparr>i_type := di_type d, i_devid := di_devid d, i_size := di_size d, i_data := di_data d\<rparr>"

text \<open>\<open>readi(&icache.inodefile, dip, INODEOFF(inum), sizeof(*dip))\<close>: when \<open>readi\<close> stores fewer bytes
  than a \<open>dinode\<close> has, the caller goes on with uninitialised memory.\<close>

definition read_dinode_locked :: "nat \<Rightarrow> kernel \<Rightarrow> (kernel, dinode) res" where
  "read_dinode_locked inum k =
     bnd (readi Inodefile (INODEOFF inum) 64 k) (\<lambda>(r, bs) k.
     if length bs = 64 then Ok (dec_dinode bs) k else Undef ''uninitialised dinode'')"

definition unlocki :: "iptr option \<Rightarrow> kernel \<Rightarrow> (kernel, unit) res" where
  "unlocki p k =
     (case p of
        None \<Rightarrow> Panic ''unlocki''
      | Some ip \<Rightarrow>
          bnd (holdingsleep (SlInode ip) k) (\<lambda>h k.
          if \<not> h \<or> i_ref (get_inode ip k) < 1 then Panic ''unlocki''
          else releasesleep (SlInode ip) k))"

text \<open>\<open>locki(&icache.inodefile)\<close>: an inode file that is not valid is read through itself, under the
  lock that has just been taken.\<close>

definition locki_inodefile :: "kernel \<Rightarrow> (kernel, unit) res" where
  "locki_inodefile k =
     (if i_ref (icache_inodefile k) < 1 then Panic ''locki''
      else bnd (acquiresleep (SlInode Inodefile) k) (\<lambda>_ k.
        if i_valid (icache_inodefile k) then Ok () k
        else bnd (read_dinode_locked (i_inum (icache_inodefile k)) k) (\<lambda>d k.
          let k = upd_inode Inodefile (\<lambda>i. (fill_inode d i)\<lparr>i_valid := True\<rparr>) k
          in if i_type (icache_inodefile k) = 0 then Panic ''iget: no type'' else Ok () k)))"

definition read_dinode :: "nat \<Rightarrow> kernel \<Rightarrow> (kernel, dinode) res" where
  "read_dinode inum k =
     bnd (holdingsleep (SlInode Inodefile) k) (\<lambda>h k.
     bnd (if \<not> h then locki_inodefile k else Ok () k) (\<lambda>_ k.
     bnd (read_dinode_locked inum k) (\<lambda>d k.
     bnd (if \<not> h then unlocki (Some Inodefile) k else Ok () k) (\<lambda>_ k. Ok d k))))"

definition locki :: "iptr option \<Rightarrow> kernel \<Rightarrow> (kernel, unit) res" where
  "locki p k =
     (case p of
        None \<Rightarrow> Panic ''locki''
      | Some Inodefile \<Rightarrow> locki_inodefile k
      | Some (Icache j) \<Rightarrow>
          if i_ref (icache_inode k ! j) < 1 then Panic ''locki''
          else bnd (acquiresleep (SlInode (Icache j)) k) (\<lambda>_ k.
            if i_valid (icache_inode k ! j) then Ok () k
            else bnd (locki_inodefile k) (\<lambda>_ k.
                 bnd (read_dinode (i_inum (icache_inode k ! j)) k) (\<lambda>d k.
                 bnd (unlocki (Some Inodefile) k) (\<lambda>_ k.
                 let k = upd_inode (Icache j) (\<lambda>i. (fill_inode d i)\<lparr>i_valid := True\<rparr>) k
                 in if i_type (icache_inode k ! j) = 0 then Panic ''iget: no type'' else Ok () k)))))"

section \<open>References\<close>

definition iget :: "nat \<Rightarrow> nat \<Rightarrow> kernel \<Rightarrow> (kernel, nat) res" where
  "iget dev inum k =
     bnd (acquire IcacheLock k) (\<lambda>_ k.
     case find_index (\<lambda>i. i_ref i > 0 \<and> i_dev i = dev \<and> i_inum i = inum) (icache_inode k) of
       Some j \<Rightarrow>
         bnd (release IcacheLock (upd_inode (Icache j) (\<lambda>i. i\<lparr>i_ref := i32 (i_ref i + 1)\<rparr>) k)) (\<lambda>_ k.
         Ok j k)
     | None \<Rightarrow>
         (case find_index (\<lambda>i. i_ref i = 0) (icache_inode k) of
            None \<Rightarrow> Panic ''iget: no inodes''
          | Some j \<Rightarrow>
              bnd (release IcacheLock (upd_inode (Icache j)
                     (\<lambda>i. i\<lparr>i_ref := 1, i_valid := False, i_dev := dev, i_inum := inum\<rparr>) k)) (\<lambda>_ k.
              bnd (read_dinode inum k) (\<lambda>d k.
              let k = upd_inode (Icache j) (fill_inode d) k
              in if i_type (icache_inode k ! j) = 0 then Panic ''iget: no type'' else Ok j k))))"

definition idup :: "iptr \<Rightarrow> kernel \<Rightarrow> (kernel, iptr) res" where
  "idup ip k =
     bnd (acquire IcacheLock k) (\<lambda>_ k.
     bnd (release IcacheLock (upd_inode ip (\<lambda>i. i\<lparr>i_ref := i32 (i_ref i + 1)\<rparr>) k)) (\<lambda>_ k. Ok ip k))"

definition irelease :: "iptr \<Rightarrow> kernel \<Rightarrow> (kernel, unit) res" where
  "irelease ip k =
     bnd (acquire IcacheLock k) (\<lambda>_ k.
     let k = (if i_ref (get_inode ip k) = 1 then upd_inode ip (\<lambda>i. i\<lparr>i_type := 0\<rparr>) k else k)
     in release IcacheLock (upd_inode ip (\<lambda>i. i\<lparr>i_ref := i32 (i_ref i - 1)\<rparr>) k))"

section \<open>Whole operations under the inode's lock\<close>

definition stati :: "iptr \<Rightarrow> kernel \<Rightarrow> (kernel, stat) res" where
  "stati ip k =
     bnd (holdingsleep (SlInode ip) k) (\<lambda>h k.
     if \<not> h then Panic ''not holding lock''
     else let i = get_inode ip k
          in Ok \<lparr>st_type = i_type i, st_dev = i_dev i, st_ino = i_inum i, st_size = i_size i\<rparr> k)"

definition concurrent_stati :: "iptr option \<Rightarrow> kernel \<Rightarrow> (kernel, stat) res" where
  "concurrent_stati p k =
     bnd (locki p k) (\<lambda>_ k.
     bnd (stati (the p) k) (\<lambda>st k.
     bnd (unlocki p k) (\<lambda>_ k. Ok st k)))"

definition concurrent_readi :: "iptr option \<Rightarrow> nat \<Rightarrow> nat \<Rightarrow> kernel \<Rightarrow> (kernel, int \<times> byte list) res" where
  "concurrent_readi p off n k =
     bnd (locki p k) (\<lambda>_ k.
     bnd (readi (the p) off n k) (\<lambda>r k.
     bnd (unlocki p k) (\<lambda>_ k. Ok r k)))"

definition concurrent_writei :: "iptr option \<Rightarrow> byte list \<Rightarrow> nat \<Rightarrow> nat \<Rightarrow> kernel \<Rightarrow> (kernel, int) res" where
  "concurrent_writei p src off n k =
     bnd (locki p k) (\<lambda>_ k.
     bnd (writei (the p) src off n k) (\<lambda>r k.
     bnd (unlocki p k) (\<lambda>_ k. Ok r k)))"

section \<open>Boot\<close>

definition readsb :: "nat \<Rightarrow> kernel \<Rightarrow> (kernel, unit) res" where
  "readsb dev k =
     bnd (bread dev 1 k) (\<lambda>b k.
     brelse b (k\<lparr>sb := dec_superblock (slice 0 16 (b_data (bcache_buf k ! b)))\<rparr>))"

definition init_inodefile :: "nat \<Rightarrow> kernel \<Rightarrow> (kernel, unit) res" where
  "init_inodefile dev k =
     bnd (bread dev (inodestart (sb k)) k) (\<lambda>b k.
     let di = dec_dinode (slice 0 64 (b_data (bcache_buf k ! b)))
     in brelse b (upd_inode Inodefile (\<lambda>i. i\<lparr>i_inum := INODEFILEINO, i_dev := dev, i_type := di_type di,
          i_valid := True, i_ref := 1, i_devid := di_devid di, i_size := di_size di,
          i_data := hd (di_data di) # replicate (EXTENT_N - 1) \<lparr>startblkno = 0, nblocks = 0\<rparr>\<rparr>) k))"

definition iinit :: "nat \<Rightarrow> kernel \<Rightarrow> (kernel, unit) res" where
  "iinit dev k =
     (let k = fold (\<lambda>j. initsleeplock (SlInode (Icache j))) [0 ..< NINODE] k;
          k = initsleeplock (SlInode Inodefile) k
      in bnd (readsb dev k) (\<lambda>_ k.
         bnd (cprintf (map of_char ''sb: size %d nblocks %d bmap start %d inodestart %d'' @ [10])
                [PInt (int (sb_size (sb k))), PInt (int (sb_nblocks (sb k))), PInt (int (bmapstart (sb k))),
                 PInt (int (inodestart (sb k)))] k) (\<lambda>_ k.
         init_inodefile dev k)))"

section \<open>The inode file\<close>

text \<open>The state in which inodes can be read: the inode file is loaded, nobody holds its lock, and its
  first two extents lie on the disk.\<close>

definition inodefile_ok :: "kernel \<Rightarrow> bool" where
  "inodefile_ok k \<longleftrightarrow> (let i = icache_inodefile k in
     1 \<le> i_ref i \<and> i_valid i \<and> i_dev i = ROOTDEV \<and> i_type i \<noteq> T_DEV \<and>
     i_lock i = \<lparr>sl_locked = False, sl_pid = 0\<rparr> \<and> 2 \<le> length (i_data i) \<and>
     ext_ok k (i_data i ! 0) \<and> ext_ok k (i_data i ! 1) \<and>
     nblocks (i_data i ! 0) * 512 + nblocks (i_data i ! 1) * 512 < 4294967296)"

definition inodefile_bytes :: "kernel \<Rightarrow> byte list" where
  "inodefile_bytes k = ext_content (memdisk k) (i_data (icache_inodefile k) ! 0) @
     ext_content (memdisk k) (i_data (icache_inodefile k) ! 1)"

definition has_dinode :: "nat \<Rightarrow> kernel \<Rightarrow> bool" where
  "has_dinode inum k \<longleftrightarrow> inum * 64 \<le> i_size (icache_inodefile k) \<and>
     inum * 64 + 64 \<le> nblocks (i_data (icache_inodefile k) ! 0) * 512 + nblocks (i_data (icache_inodefile k) ! 1) * 512"

definition dinode_at :: "nat \<Rightarrow> kernel \<Rightarrow> dinode" where
  "dinode_at inum k = dec_dinode (slice (inum * 64) 64 (inodefile_bytes k))"

abbreviation free_sleeplock :: sleeplock where
  "free_sleeplock \<equiv> \<lparr>sl_locked = False, sl_pid = 0\<rparr>"

lemma set_sl_set_sl [simp]: "set_sl l v (set_sl l w k) = set_sl l v k"
proof (cases "(l, k)" rule: sl_valid.cases)
  case (2 i k')
  then show ?thesis by (cases "i < length (icache_inode k)") (simp_all add: not_less list_update_beyond)
next
  case (3 b k')
  then show ?thesis by (cases "b < length (bcache_buf k)") (simp_all add: not_less list_update_beyond)
qed simp

lemma set_sl_same: "get_sl l k = v \<Longrightarrow> set_sl l v k = k"
  by (cases "(l, k)" rule: sl_valid.cases) auto

lemma io_step_set_sl:
  assumes "io_step k k'"
  shows "io_step (set_sl (SlInode ip) v k) (set_sl (SlInode ip) v k')"
proof -
  have "io_erase (set_sl (SlInode ip) v k) = set_sl (SlInode ip) v (io_erase k)" for k
    by (cases ip) (simp_all add: io_erase_def)
  with assms show ?thesis by (simp add: io_step_def)
qed

lemma io_step_icache:
  assumes "io_step k k'"
  shows "io_step (k\<lparr>icache_inode := is\<rparr>) (k'\<lparr>icache_inode := is\<rparr>)"
proof -
  have "io_erase (k\<lparr>icache_inode := is\<rparr>) = (io_erase k)\<lparr>icache_inode := is\<rparr>" for k
    by (simp add: io_erase_def)
  with assms show ?thesis by (simp add: io_step_def)
qed

text \<open>Taking a free lock, doing block input and output, and releasing it.\<close>

lemma io_step_lock_cycle:
  assumes "io_step (set_sl (SlInode ip) v k) k'" "get_sl (SlInode ip) k = free_sleeplock"
  shows "io_step k (wakeup1 ch (set_sl (SlInode ip) free_sleeplock k'))"
proof -
  have "set_sl (SlInode ip) free_sleeplock (set_sl (SlInode ip) v k) = k"
    using set_sl_same [OF assms(2)] by (simp only: set_sl_set_sl)
  then show ?thesis using io_step_set_sl [OF assms(1), of ip free_sleeplock] by (simp only: io_step_updates)
qed

lemma disk_ready_set_sl [simp]: "disk_ready (set_sl (SlInode ip) v k) = disk_ready k"
  by (cases ip) (simp_all add: disk_ready_def bc_inv_def bc_shape_def buf_ok_def fs_ready_def)

lemma disk_ready_inodefile [simp]: "disk_ready (k\<lparr>icache_inodefile := i\<rparr>) = disk_ready k"
  by (simp add: disk_ready_def bc_inv_def bc_shape_def buf_ok_def fs_ready_def)

lemma ext_ok_inodes [simp]: "ext_ok (k\<lparr>icache_inodefile := i\<rparr>) e = ext_ok k e"
  "ext_ok (k\<lparr>icache_inode := is\<rparr>) e = ext_ok k e"
  by (simp_all add: ext_ok_def)

lemma disk_ready_wakeup1 [simp]: "disk_ready (wakeup1 ch k) = disk_ready k"
  by (simp add: disk_ready_def bc_inv_def bc_shape_def buf_ok_def fs_ready_def wakeup1_def)

lemma inode_lock_frame [simp]:
  "memdisk (set_sl (SlInode ip) v k) = memdisk k" "disksize (set_sl (SlInode ip) v k) = disksize k"
  "memdisk (wakeup1 ch k) = memdisk k" "sb (set_sl (SlInode ip) v k) = sb k"
  "ext_ok (set_sl (SlInode ip) v k) e = ext_ok k e"
  by (cases ip; simp add: wakeup1_def ext_ok_def)+

lemma disk_readyD: "disk_ready k \<Longrightarrow> held k = {}" "disk_ready k \<Longrightarrow> \<exists>p. curproc k = Some p"
  by (auto simp: disk_ready_def fs_ready_def)

text \<open>Lock the inode file, read the inode, unlock: the three calls both \<open>read_dinode\<close> and \<open>locki\<close> make.\<close>

lemma inodefile_section:
  assumes rdy: "disk_ready k" and ok: "inodefile_ok k" and has: "has_dinode inum k"
  shows "\<exists>k1 k2 k3. locki_inodefile k = Ok () k1 \<and> held k1 = {} \<and> sl_locked (i_lock (icache_inodefile k1)) \<and>
    icache_inode k1 = icache_inode k \<and> read_dinode_locked inum k1 = Ok (dinode_at inum k) k2 \<and>
    unlocki (Some Inodefile) k2 = Ok () k3 \<and> disk_ready k3 \<and> memdisk k3 = memdisk k \<and> io_step k k3"
proof -
  let ?l = "SlInode Inodefile" and ?i = "icache_inodefile k"
  obtain p where h: "held k = {}" and p: "curproc k = Some p" using disk_readyD [OF rdy] by blast
  obtain e0 e1 es where es: "i_data ?i = e0 # e1 # es"
    using ok by (cases "i_data ?i"; cases "tl (i_data ?i)") (auto simp: inodefile_ok_def Let_def)
  note o = ok [unfolded inodefile_ok_def Let_def es nth_Cons_0, simplified]
  define k1 where "k1 = set_sl ?l \<lparr>sl_locked = True, sl_pid = pid (ptable k ! p)\<rparr> k"
  have lk: "locki_inodefile k = Ok () k1"
    using acquiresleep_free [of ?l k p] h p o by (simp add: locki_inodefile_def k1_def)
  have k1: "disk_ready k1" "memdisk k1 = memdisk k" "ext_ok k1 e = ext_ok k e" "sl_locked (i_lock (icache_inodefile k1))"
    "icache_inodefile k1 = ?i\<lparr>i_lock := i_lock (icache_inodefile k1)\<rparr>" for e
    using rdy unfolding k1_def by simp_all
  have bound: "inum * 64 + 64 \<le> nblocks e0 * 512 + nblocks e1 * 512" "inum * 64 \<le> i_size ?i"
    using has es by (simp_all add: has_dinode_def)
  then have off: "INODEOFF inum = inum * 64" using o by (simp add: INODEOFF_def)
  have i1: "i_size (icache_inodefile k1) = i_size ?i" "i_data (icache_inodefile k1) = e0 # e1 # es"
    "i_dev (icache_inodefile k1) = 1" "i_type (icache_inodefile k1) \<noteq> 3" "i_ref (icache_inodefile k1) = i_ref ?i"
    using o es by (simp_all add: k1_def)
  have d1: "data_inode Inodefile k1" using i1 k1 by (simp add: data_inode_def)
  have "\<exists>k2. readi Inodefile (inum * 64) 64 k1 =
      Ok (int 64, slice (inum * 64) 64 (ext_content (memdisk k1) e0 @ ext_content (memdisk k1) e1)) k2 \<and>
      disk_ready k2 \<and> memdisk k2 = memdisk k1 \<and> io_step k1 k2"
    by (rule readi_two [OF k1(1) d1]) (use i1 k1 o bound in simp_all)
  then obtain k2 where
    k2: "readi Inodefile (inum * 64) 64 k1 = Ok (64, slice (inum * 64) 64 (inodefile_bytes k)) k2"
    "disk_ready k2" "memdisk k2 = memdisk k" "io_step k1 k2"
    unfolding inodefile_bytes_def es k1(2) by auto
  have len: "length (slice (inum * 64) 64 (inodefile_bytes k)) = 64"
    using bound length_ext_content [of "memdisk k"] rdy
    by (simp add: inodefile_bytes_def es disk_ready_def bc_inv_def)
  let ?k3 = "wakeup1 (ChSleeplock ?l) (set_sl ?l free_sleeplock k2)"
  have "sl_locked (i_lock (icache_inodefile k2))" "i_ref (icache_inodefile k2) = i_ref ?i"
    using io_stepD(6) [OF k2(4)] k1(4) i1 by simp_all
  then have "unlocki (Some Inodefile) k2 = Ok () ?k3"
    using disk_readyD(1) [OF k2(2)] o by (simp add: unlocki_def holdingsleep_eq releasesleep_eq)
  moreover have "read_dinode_locked inum k1 = Ok (dinode_at inum k) k2"
    using k2(1) len off by (simp add: read_dinode_locked_def dinode_at_def)
  moreover have "io_step k ?k3" using o by (intro io_step_lock_cycle [OF k2(4) [unfolded k1_def]]) simp
  moreover have "disk_ready ?k3" "memdisk ?k3 = memdisk k" "held k1 = {}" "icache_inode k1 = icache_inode k"
    using k2(2,3) h by (simp_all add: k1_def)
  ultimately show ?thesis using lk k1(4) by blast
qed

lemma read_dinode_ok:
  assumes "disk_ready k" "inodefile_ok k" "has_dinode inum k"
  shows "\<exists>k'. read_dinode inum k = Ok (dinode_at inum k) k' \<and> disk_ready k' \<and>
    memdisk k' = memdisk k \<and> io_step k k'"
proof -
  have "\<not> sl_locked (i_lock (icache_inodefile k))" using assms(2) by (simp add: inodefile_ok_def Let_def)
  then have "read_dinode inum k = bnd (locki_inodefile k) (\<lambda>_ k. bnd (read_dinode_locked inum k) (\<lambda>d k.
      bnd (unlocki (Some Inodefile) k) (\<lambda>_ k. Ok d k)))"
    using disk_readyD(1) [OF assms(1)] by (simp add: read_dinode_def holdingsleep_eq)
  then show ?thesis using inodefile_section [OF assms] by auto
qed

section \<open>The cache\<close>

text \<open>Reference counts are not negative and no two entries in use stand for the same inode.\<close>

definition ic_uniq :: "inode list \<Rightarrow> bool" where
  "ic_uniq is \<longleftrightarrow> (\<forall>i < length is. \<forall>j < length is. 0 < i_ref (is ! i) \<longrightarrow> 0 < i_ref (is ! j) \<longrightarrow>
     i_dev (is ! i) = i_dev (is ! j) \<longrightarrow> i_inum (is ! i) = i_inum (is ! j) \<longrightarrow> i = j)"

definition ic_inv :: "kernel \<Rightarrow> bool" where
  "ic_inv k \<longleftrightarrow> length (icache_inode k) = NINODE \<and> (\<forall>i \<in> set (icache_inode k). 0 \<le> i_ref i) \<and>
     ic_uniq (icache_inode k)"

definition cached :: "nat \<Rightarrow> nat \<Rightarrow> kernel \<Rightarrow> nat option" where
  "cached dev inum k = find_index (\<lambda>i. i_ref i > 0 \<and> i_dev i = dev \<and> i_inum i = inum) (icache_inode k)"

lemma ic_inv_ref: "ic_inv k \<Longrightarrow> j < NINODE \<Longrightarrow> 0 \<le> i_ref (icache_inode k ! j)"
  by (simp add: ic_inv_def)

lemma ic_inv_io: "io_step k k' \<Longrightarrow> ic_inv k' = ic_inv k"
  by (simp add: ic_inv_def io_stepD)

lemma cached_io: "io_step k k' \<Longrightarrow> cached dev inum k' = cached dev inum k"
  by (simp add: cached_def io_stepD)

lemma ic_uniqD:
  assumes "ic_inv k" "a < NINODE" "b < NINODE" "0 < i_ref (icache_inode k ! a)" "0 < i_ref (icache_inode k ! b)"
    "i_dev (icache_inode k ! a) = i_dev (icache_inode k ! b)" "i_inum (icache_inode k ! a) = i_inum (icache_inode k ! b)"
  shows "a = b"
proof -
  have "ic_uniq (icache_inode k)" "length (icache_inode k) = NINODE" using assms(1) by (simp_all add: ic_inv_def)
  then show ?thesis using assms(2-) unfolding ic_uniq_def by simp
qed

lemma ic_inv_upd:
  assumes inv: "ic_inv k" and j: "j < NINODE" and r: "0 \<le> i_ref i'"
    and key: "0 < i_ref i' \<Longrightarrow> 0 < i_ref (icache_inode k ! j) \<and> i_dev i' = i_dev (icache_inode k ! j) \<and>
                i_inum i' = i_inum (icache_inode k ! j) \<or> cached (i_dev i') (i_inum i') k = None"
  shows "ic_inv (k\<lparr>icache_inode := (icache_inode k)[j := i']\<rparr>)"
proof -
  let ?is = "icache_inode k"
  let ?f = "\<lambda>a. if a = j then i' else ?is ! a"
  have len: "length ?is = NINODE" and ref: "\<forall>i \<in> set ?is. 0 \<le> i_ref i"
    using inv by (simp_all add: ic_inv_def)
  note uniq = ic_uniqD [OF inv]
  have other: "a = j" if a: "a < NINODE" "0 < i_ref (?is ! a)" "i_dev (?is ! a) = i_dev i'"
      "i_inum (?is ! a) = i_inum i'" "0 < i_ref i'" for a
    using key [OF a(5)]
  proof
    assume "cached (i_dev i') (i_inum i') k = None"
    moreover have "?is ! a \<in> set ?is" using a(1) len by simp
    ultimately have "\<not> (0 < i_ref (?is ! a) \<and> i_dev (?is ! a) = i_dev i' \<and> i_inum (?is ! a) = i_inum i')"
      unfolding cached_def find_index_None by blast
    with a show ?thesis by simp
  next
    assume "0 < i_ref (?is ! j) \<and> i_dev i' = i_dev (?is ! j) \<and> i_inum i' = i_inum (?is ! j)"
    then show ?thesis using uniq [OF a(1) j a(2)] a(3,4) by simp
  qed
  have ab: "a = b" if "a < NINODE" "b < NINODE" "0 < i_ref (?f a)" "0 < i_ref (?f b)"
      "i_dev (?f a) = i_dev (?f b)" "i_inum (?f a) = i_inum (?f b)" for a b
  proof (cases "a = j")
    case True
    then show ?thesis using that other [OF that(2)] by (cases "b = j") simp_all
  next
    case False
    then show ?thesis using that other [OF that(1)] uniq [OF that(1,2)] by (cases "b = j") simp_all
  qed
  have f: "?is[j := i'] ! a = ?f a" if "a < NINODE" for a using that len j by (simp add: nth_list_update)
  have "ic_uniq (?is[j := i'])"
    unfolding ic_uniq_def length_list_update len
  proof (intro allI impI)
    fix a b assume a: "a < NINODE" and b: "b < NINODE"
    assume "0 < i_ref (?is[j := i'] ! a)" "0 < i_ref (?is[j := i'] ! b)"
      "i_dev (?is[j := i'] ! a) = i_dev (?is[j := i'] ! b)" "i_inum (?is[j := i'] ! a) = i_inum (?is[j := i'] ! b)"
    then show "a = b" unfolding f [OF a] f [OF b] by (rule ab [OF a b])
  qed
  moreover have "\<forall>i \<in> set (?is[j := i']). 0 \<le> i_ref i" using ref r set_update_subset_insert [of ?is j i'] by auto
  ultimately show ?thesis by (simp add: ic_inv_def len)
qed

lemma iget_hit:
  assumes "IcacheLock \<notin> held k" "cached dev inum k = Some j"
  shows "iget dev inum k = Ok j (upd_inode (Icache j) (\<lambda>i. i\<lparr>i_ref := i32 (i_ref i + 1)\<rparr>) k)"
  using assms by (simp add: iget_def cached_def)

lemma inodefile_ok_icache [simp]:
  "inodefile_ok (k\<lparr>icache_inode := is\<rparr>) = inodefile_ok k" "has_dinode n (k\<lparr>icache_inode := is\<rparr>) = has_dinode n k"
  "dinode_at n (k\<lparr>icache_inode := is\<rparr>) = dinode_at n k"
  by (simp_all add: inodefile_ok_def has_dinode_def dinode_at_def inodefile_bytes_def)

lemma iget_miss:
  assumes rdy: "disk_ready k" and ok: "inodefile_ok k" and has: "has_dinode inum k"
    and none: "cached dev inum k = None" and empty: "find_index (\<lambda>i. i_ref i = 0) (icache_inode k) = Some j"
    and type: "di_type (dinode_at inum k) \<noteq> 0"
  shows "\<exists>k'. iget dev inum k = Ok j k' \<and> disk_ready k' \<and> memdisk k' = memdisk k \<and>
    io_step (k\<lparr>icache_inode := (icache_inode k)[j := fill_inode (dinode_at inum k)
       ((icache_inode k ! j)\<lparr>i_ref := 1, i_valid := False, i_dev := dev, i_inum := inum\<rparr>)]\<rparr>) k'"
proof -
  let ?i = "(icache_inode k ! j)\<lparr>i_ref := 1, i_valid := False, i_dev := dev, i_inum := inum\<rparr>"
  let ?k1 = "k\<lparr>icache_inode := (icache_inode k)[j := ?i]\<rparr>"
  have j: "j < length (icache_inode k)" using find_index_lessD [OF empty] .
  obtain k2 where k2: "read_dinode inum ?k1 = Ok (dinode_at inum k) k2" "disk_ready k2"
    "memdisk k2 = memdisk k" "io_step ?k1 k2"
    using read_dinode_ok [of ?k1 inum] rdy ok has by auto
  have i2: "icache_inode k2 = (icache_inode k)[j := ?i]" using io_stepD(5) [OF k2(4)] by simp
  let ?k3 = "k2\<lparr>icache_inode := (icache_inode k)[j := fill_inode (dinode_at inum k) ?i]\<rparr>"
  have "iget dev inum k = Ok j ?k3"
    using none empty k2(1) i2 j type disk_readyD(1) [OF rdy]
    by (simp add: iget_def cached_def fill_inode_def)
  moreover have "io_step (k\<lparr>icache_inode := (icache_inode k)[j := fill_inode (dinode_at inum k) ?i]\<rparr>) ?k3"
    using io_step_icache [OF k2(4), of "(icache_inode k)[j := fill_inode (dinode_at inum k) ?i]"] by simp
  moreover have "disk_ready ?k3" "memdisk ?k3 = memdisk k" using k2(2,3) by simp_all
  ultimately show ?thesis by blast
qed

text \<open>The entry \<open>iget\<close> leaves behind: one more reference on a hit, the inode read from disk on a miss.\<close>

definition iget_entry :: "nat \<Rightarrow> nat \<Rightarrow> nat \<Rightarrow> kernel \<Rightarrow> inode" where
  "iget_entry dev inum j k =
     (if cached dev inum k = None
      then fill_inode (dinode_at inum k)
             ((icache_inode k ! j)\<lparr>i_ref := 1, i_valid := False, i_dev := dev, i_inum := inum\<rparr>)
      else (icache_inode k ! j)\<lparr>i_ref := i_ref (icache_inode k ! j) + 1\<rparr>)"

definition can_iget :: "nat \<Rightarrow> kernel \<Rightarrow> bool" where
  "can_iget inum k \<longleftrightarrow> inodefile_ok k \<and> ic_inv k \<and> (\<forall>i \<in> set (icache_inode k). i_ref i < 2147483647) \<and>
     (cached ROOTDEV inum k = None \<longrightarrow> has_dinode inum k \<and> di_type (dinode_at inum k) \<noteq> 0 \<and>
        (\<exists>i \<in> set (icache_inode k). i_ref i = 0))"

lemma iget_entry_simps [simp]:
  "i_ref (iget_entry dev inum j k) = (if cached dev inum k = None then 1 else i_ref (icache_inode k ! j) + 1)"
  "cached dev inum k = Some j \<Longrightarrow> i_dev (iget_entry dev inum j k) = dev \<and> i_inum (iget_entry dev inum j k) = inum"
  "cached dev inum k = None \<Longrightarrow> i_dev (iget_entry dev inum j k) = dev \<and> i_inum (iget_entry dev inum j k) = inum"
  by (auto simp: iget_entry_def fill_inode_def cached_def dest: find_index_holdsD)

lemma iget_ok:
  assumes rdy: "disk_ready k" and can: "can_iget inum k"
  shows "\<exists>j k'. iget ROOTDEV inum k = Ok j k' \<and> j < NINODE \<and> disk_ready k' \<and> memdisk k' = memdisk k \<and>
    io_step (k\<lparr>icache_inode := (icache_inode k)[j := iget_entry ROOTDEV inum j k]\<rparr>) k' \<and>
    (cached ROOTDEV inum k = Some j \<or> cached ROOTDEV inum k = None \<and> i_ref (icache_inode k ! j) = 0)"
proof (cases "cached ROOTDEV inum k")
  case None
  then obtain j where j: "find_index (\<lambda>i. i_ref i = 0) (icache_inode k) = Some j"
    using can find_index_None [of "\<lambda>i. i_ref i = 0" "icache_inode k"] by (auto simp: can_iget_def)
  from None can have "inodefile_ok k" "has_dinode inum k" "di_type (dinode_at inum k) \<noteq> 0"
    and len: "length (icache_inode k) = NINODE" by (simp_all add: can_iget_def ic_inv_def)
  from iget_miss [OF rdy this(1,2) None j this(3)] show ?thesis
    using None find_index_lessD [OF j] find_index_holdsD [OF j] len by (auto simp: iget_entry_def)
next
  case (Some j)
  have j: "j < NINODE" "0 \<le> i_ref (icache_inode k ! j)" "i_ref (icache_inode k ! j) < 2147483647"
    using Some can find_index_lessD [of _ "icache_inode k" j] find_index_holdsD [of _ "icache_inode k" j]
    by (auto simp: can_iget_def ic_inv_def cached_def)
  have "i32 (i_ref (icache_inode k ! j) + 1) = i_ref (icache_inode k ! j) + 1" using j by (intro i32_id) auto
  with iget_hit [OF _ Some] disk_readyD(1) [OF rdy] rdy j Some show ?thesis by (simp add: iget_entry_def)
qed

lemma cached_unique:
  assumes "ic_inv k" "j < NINODE" "0 < i_ref (icache_inode k ! j)"
    "i_dev (icache_inode k ! j) = dev" "i_inum (icache_inode k ! j) = inum"
  shows "cached dev inum k = Some j"
  unfolding cached_def
proof (rule find_index_first)
  show "j < length (icache_inode k)" using assms by (simp add: ic_inv_def)
  fix i assume "i < j"
  then show "\<not> (0 < i_ref (icache_inode k ! i) \<and> i_dev (icache_inode k ! i) = dev \<and> i_inum (icache_inode k ! i) = inum)"
    using ic_uniqD [OF assms(1), of i j] assms(2-) by auto
qed (use assms in simp)

lemma iget_keeps_inv:
  assumes can: "can_iget inum k" and j: "j < NINODE"
    and at: "cached ROOTDEV inum k = Some j \<or> cached ROOTDEV inum k = None \<and> i_ref (icache_inode k ! j) = 0"
  shows "ic_inv (k\<lparr>icache_inode := (icache_inode k)[j := iget_entry ROOTDEV inum j k]\<rparr>)"
proof (rule ic_inv_upd)
  show inv: "ic_inv k" using can by (simp add: can_iget_def)
  show "0 \<le> i_ref (iget_entry ROOTDEV inum j k)" using ic_inv_ref [OF inv j] by simp
  show "0 < i_ref (icache_inode k ! j) \<and>
      i_dev (iget_entry ROOTDEV inum j k) = i_dev (icache_inode k ! j) \<and>
      i_inum (iget_entry ROOTDEV inum j k) = i_inum (icache_inode k ! j) \<or>
      cached (i_dev (iget_entry ROOTDEV inum j k)) (i_inum (iget_entry ROOTDEV inum j k)) k = None"
    using at
  proof
    assume c: "cached ROOTDEV inum k = Some j"
    from find_index_holdsD [OF c [unfolded cached_def]] show ?thesis using iget_entry_simps(2) [OF c] by simp
  qed simp
qed (rule j)

section \<open>Properties\<close>

lemma irelease_eq:
  assumes "IcacheLock \<notin> held k" "j < length (icache_inode k)" "1 < i_ref (icache_inode k ! j)"
    "i_ref (icache_inode k ! j) < 2147483648"
  shows "irelease (Icache j) k =
    Ok () (k\<lparr>icache_inode := (icache_inode k)[j := (icache_inode k ! j)\<lparr>i_ref := i_ref (icache_inode k ! j) - 1\<rparr>]\<rparr>)"
proof -
  have "i32 (i_ref (icache_inode k ! j) - 1) = i_ref (icache_inode k ! j) - 1"
    using assms by (intro i32_id) auto
  with assms show ?thesis by (simp add: irelease_def)
qed


text \<open>A disk with a file system: the inode file in block 4, the root directory (inode 1) in block 8 and
  a file (inode 2) of five bytes in block 9.\<close>

definition blk :: "byte list \<Rightarrow> byte list" where
  "blk bs = bs @ replicate (512 - length bs) 0"

definition dinode0 :: "int \<Rightarrow> nat \<Rightarrow> nat \<Rightarrow> dinode" where
  "dinode0 t s b = \<lparr>di_type = t, di_devid = 0, di_size = s,
     di_data = \<lparr>startblkno = b, nblocks = 1\<rparr> # replicate 6 no_extent\<rparr>"

definition dirent0 :: "nat \<Rightarrow> byte list \<Rightarrow> dirent" where
  "dirent0 n bs = \<lparr>de_inum = n, de_name = bs @ replicate (14 - length bs) 0\<rparr>"

definition fs_disk :: "nat \<Rightarrow> byte list" where
  "fs_disk n = (if n = 4 then blk (enc_dinode (dinode0 2 192 4) @ enc_dinode (dinode0 1 32 8) @ enc_dinode (dinode0 2 5 9))
     else if n = 8 then blk (enc_dirent (dirent0 1 [46]) @ enc_dirent (dirent0 2 [102]))
     else if n = 9 then blk [104, 101, 108, 108, 111] else blk [])"

definition k0_fs :: kernel where
  "k0_fs = (k0\<lparr>memdisk := fs_disk, sb := sb0, disksize := 64, icache_inode := replicate 50 inode0\<rparr>)
     \<lparr>icache_inodefile := inode0\<lparr>i_ref := 1, i_valid := True, i_dev := 1, i_type := 2, i_size := 192,
        i_data := \<lparr>startblkno = 4, nblocks = 1\<rparr> # replicate 6 no_extent\<rparr>\<rparr>"

lemma dinode0_ok: "- 32768 \<le> t \<Longrightarrow> t < 32768 \<Longrightarrow> s < 4294967296 \<Longrightarrow> b < 4294967296 \<Longrightarrow> dinode_ok (dinode0 t s b)"
  by (simp add: dinode_ok_def dinode0_def short_ok_def extent_ok_def no_extent_def)

lemma length_enc_dinode0 [simp]: "length (enc_dinode (dinode0 t s b)) = 64"
  by (simp add: enc_dinode_def dinode0_def length_concat sum_list_replicate)

lemma length_enc_dirent0 [simp]: "length bs \<le> 14 \<Longrightarrow> length (enc_dirent (dirent0 n bs)) = 16"
  by (simp add: enc_dirent_def dirent0_def)

lemma length_fs_disk [simp]: "length (fs_disk n) = 512"
  by (simp add: fs_disk_def blk_def)

lemma k0_fs_ready: "disk_ready k0_fs" "inodefile_ok k0_fs" "ic_inv k0_fs"
proof -
  have "disk_ready (k0\<lparr>memdisk := fs_disk, sb := sb0, disksize := 64, icache_inode := replicate 50 inode0\<rparr>)"
    by (rule disk_ready_variant) simp
  then show "disk_ready k0_fs" by (simp add: k0_fs_def)
  show "inodefile_ok k0_fs"
    by (simp add: inodefile_ok_def k0_fs_def ext_ok_def no_extent_def inode0_def free_sl_def Let_def)
  show "ic_inv k0_fs" by (simp add: ic_inv_def ic_uniq_def k0_fs_def inode0_def)
qed

lemma k0_fs_dinodes:
  "has_dinode 1 k0_fs" "dinode_at 1 k0_fs = dinode0 1 32 8"
  "has_dinode 2 k0_fs" "dinode_at 2 k0_fs = dinode0 2 5 9"
proof -
  have b: "inodefile_bytes k0_fs =
      blk (enc_dinode (dinode0 2 192 4) @ enc_dinode (dinode0 1 32 8) @ enc_dinode (dinode0 2 5 9))"
    by (simp add: inodefile_bytes_def k0_fs_def ext_content_def fs_disk_def no_extent_def)
  show "dinode_at 1 k0_fs = dinode0 1 32 8" "dinode_at 2 k0_fs = dinode0 2 5 9"
    unfolding dinode_at_def b by (simp_all add: blk_def slice_def dec_enc_dinode dinode0_ok)
qed (simp_all add: has_dinode_def k0_fs_def no_extent_def)

lemma can_iget_k0_fs: "can_iget 1 k0_fs" "can_iget 2 k0_fs"
proof -
  have i: "icache_inode k0_fs = replicate 50 inode0" by (simp add: k0_fs_def)
  have c: "cached d n k0_fs = None" for d n by (simp add: cached_def i find_index_None inode0_def)
  show "can_iget 1 k0_fs" "can_iget 2 k0_fs"
    using k0_fs_ready k0_fs_dinodes by (simp_all add: can_iget_def c i inode0_def dinode0_def)
qed


end
