(* ===== verification/CString.thy ===== *)
theory CString
  imports Prelude
begin

unbundle bit_operations_syntax

text \<open>
  The string and memory routines: \<open>kernel/string.c\<close> and their user-space counterparts in
  \<open>user/ulib.c\<close> (prefixed with \<open>u_\<close> where both define the name). Memory is a function from
  addresses to bytes; a routine that only reads takes, for each pointer, the bytes seen from it.
  Loops that stop at a NUL byte are \<open>partial_function (option)\<close>: on an unterminated string they
  do not return.
\<close>

type_synonym mem = "nat \<Rightarrow> byte"

section \<open>Filling memory\<close>

text \<open>\<open>rep stosb\<close> and \<open>rep stosl\<close> (\<open>inc/x86_64.h\<close>).\<close>

fun stosb :: "nat \<Rightarrow> byte \<Rightarrow> nat \<Rightarrow> mem \<Rightarrow> mem" where
  "stosb a c 0 m = m"
| "stosb a c (Suc n) m = stosb (a + 1) c n (m(a := c))"

fun stosl :: "nat \<Rightarrow> 32 word \<Rightarrow> nat \<Rightarrow> mem \<Rightarrow> mem" where
  "stosl a w 0 m = m"
| "stosl a w (Suc n) m =
     stosl (a + 4) w n (m(a := ucast w, a + 1 := ucast (drop_bit 8 w),
                          a + 2 := ucast (drop_bit 16 w), a + 3 := ucast (drop_bit 24 w)))"

definition memset :: "nat \<Rightarrow> 32 word \<Rightarrow> nat \<Rightarrow> mem \<Rightarrow> mem" where
  "memset dst c n m =
     (if dst mod 4 = 0 \<and> n mod 4 = 0
      then (let c = c AND 0xFF
            in stosl dst (push_bit 24 c OR push_bit 16 c OR push_bit 8 c OR c) (n div 4) m)
      else stosb dst (ucast c) n m)"

definition u_memset :: "nat \<Rightarrow> 32 word \<Rightarrow> nat \<Rightarrow> mem \<Rightarrow> mem" where
  "u_memset dst c n m = stosb dst (ucast c) n m"

section \<open>Copying memory\<close>

text \<open>\<open>while (n-- > 0) *d++ = *s++;\<close> and \<open>while (n-- > 0) *--d = *--s;\<close>\<close>

fun copy_up :: "nat \<Rightarrow> nat \<Rightarrow> nat \<Rightarrow> mem \<Rightarrow> mem" where
  "copy_up d s 0 m = m"
| "copy_up d s (Suc n) m = copy_up (d + 1) (s + 1) n (m(d := m s))"

fun copy_down :: "nat \<Rightarrow> nat \<Rightarrow> nat \<Rightarrow> mem \<Rightarrow> mem" where
  "copy_down d s 0 m = m"
| "copy_down d s (Suc n) m = copy_down (d - 1) (s - 1) n (m(d - 1 := m (s - 1)))"

definition memmove :: "nat \<Rightarrow> nat \<Rightarrow> nat \<Rightarrow> mem \<Rightarrow> mem" where
  "memmove dst src n m =
     (if src < dst \<and> src + n > dst then copy_down (dst + n) (src + n) n m
      else copy_up dst src n m)"

definition memcpy :: "nat \<Rightarrow> nat \<Rightarrow> nat \<Rightarrow> mem \<Rightarrow> mem" where
  "memcpy dst src n m = memmove dst src n m"

definition u_memmove :: "nat \<Rightarrow> nat \<Rightarrow> int \<Rightarrow> mem \<Rightarrow> mem" where
  "u_memmove dst src n m = copy_up dst src (nat n) m"

section \<open>Comparing and copying strings\<close>

fun memcmp :: "mem \<Rightarrow> mem \<Rightarrow> nat \<Rightarrow> int" where
  "memcmp s1 s2 0 = 0"
| "memcmp s1 s2 (Suc n) =
     (if s1 0 \<noteq> s2 0 then uint (s1 0) - uint (s2 0)
      else memcmp (\<lambda>i. s1 (Suc i)) (\<lambda>i. s2 (Suc i)) n)"

fun strncmp :: "mem \<Rightarrow> mem \<Rightarrow> nat \<Rightarrow> int" where
  "strncmp p q 0 = 0"
| "strncmp p q (Suc n) =
     (if p 0 \<noteq> 0 \<and> p 0 = q 0 then strncmp (\<lambda>i. p (Suc i)) (\<lambda>i. q (Suc i)) n
      else uint (p 0) - uint (q 0))"

text \<open>\<open>strncpy\<close>: the first loop copies up to and including the NUL byte, the second pads with
  zeros. \<open>n\<close> is a C \<open>int\<close>; the first loop gives back the pointer and what is left of \<open>n\<close> after
  its last decrement.\<close>

fun strncpy_copy :: "nat \<Rightarrow> nat \<Rightarrow> nat \<Rightarrow> mem \<Rightarrow> nat \<times> nat \<times> mem" where
  "strncpy_copy s t 0 m = (s, 0, m)"
| "strncpy_copy s t (Suc n) m =
     (let m' = m(s := m t) in if m t \<noteq> 0 then strncpy_copy (s + 1) (t + 1) n m' else (s + 1, n, m'))"

definition strncpy :: "nat \<Rightarrow> nat \<Rightarrow> int \<Rightarrow> mem \<Rightarrow> mem" where
  "strncpy s t n m = (let (s', k, m') = strncpy_copy s t (nat n) m in stosb s' 0 k m')"

fun safestrcpy_copy :: "nat \<Rightarrow> nat \<Rightarrow> nat \<Rightarrow> mem \<Rightarrow> nat \<times> mem" where
  "safestrcpy_copy s t 0 m = (s, m)"
| "safestrcpy_copy s t (Suc n) m =
     (let m' = m(s := m t) in if m t \<noteq> 0 then safestrcpy_copy (s + 1) (t + 1) n m' else (s + 1, m'))"

definition safestrcpy :: "nat \<Rightarrow> nat \<Rightarrow> int \<Rightarrow> mem \<Rightarrow> mem" where
  "safestrcpy s t n m =
     (if n \<le> 0 then m
      else (let (s', m') = safestrcpy_copy s t (nat (n - 1)) m in m'(s' := 0)))"

partial_function (option) strlen_from :: "mem \<Rightarrow> nat \<Rightarrow> nat option" where
  "strlen_from s n = (if s n = 0 then Some n else strlen_from s (n + 1))"

definition strlen :: "mem \<Rightarrow> nat option" where
  "strlen s = strlen_from s 0"

partial_function (option) strcmp_from :: "mem \<Rightarrow> mem \<Rightarrow> nat \<Rightarrow> int option" where
  "strcmp_from p q i =
     (if p i \<noteq> 0 \<and> p i = q i then strcmp_from p q (i + 1) else Some (uint (p i) - uint (q i)))"

definition strcmp :: "mem \<Rightarrow> mem \<Rightarrow> int option" where
  "strcmp p q = strcmp_from p q 0"

partial_function (option) strcpy :: "nat \<Rightarrow> nat \<Rightarrow> mem \<Rightarrow> mem option" where
  "strcpy s t m =
     (let m' = m(s := m t) in if m t \<noteq> 0 then strcpy (s + 1) (t + 1) m' else Some m')"

partial_function (option) strchr :: "mem \<Rightarrow> byte \<Rightarrow> nat \<Rightarrow> nat option option" where
  "strchr s c i =
     (if s i = 0 then Some None else if s i = c then Some (Some i) else strchr s c (i + 1))"

text \<open>\<open>atoi\<close>: \<open>char\<close> is signed, so a byte above 127 is not a digit either way; the value is a
  32-bit \<open>int\<close>.\<close>

partial_function (option) atoi_from :: "mem \<Rightarrow> nat \<Rightarrow> int \<Rightarrow> int option" where
  "atoi_from s i n =
     (if 48 \<le> uint (s i) \<and> uint (s i) \<le> 57
      then atoi_from s (i + 1) (i32 (n * 10 + uint (s i) - 48)) else Some n)"

definition atoi :: "mem \<Rightarrow> int option" where
  "atoi s = atoi_from s 0 0"

text \<open>\<open>gets\<close> on a stream of bytes from descriptor 0: the bytes stored in \<open>buf\<close> and the rest of the
  stream. \<open>read\<close> returns less than 1 when the stream is at its end.\<close>

fun gets_loop :: "nat \<Rightarrow> byte list \<Rightarrow> byte list \<times> byte list" where
  "gets_loop 0 inp = ([], inp)"
| "gets_loop (Suc n) [] = ([], [])"
| "gets_loop (Suc n) (c # inp) =
     (if c = 10 \<or> c = 13 then ([c], inp)
      else (let (bs, rest) = gets_loop n inp in (c # bs, rest)))"

definition gets :: "int \<Rightarrow> byte list \<Rightarrow> byte list \<times> byte list" where
  "gets mx inp = (let (bs, rest) = gets_loop (nat (mx - 1)) inp in (bs @ [0], rest))"

section \<open>What the memory routines do\<close>

lemma stosb_at: "stosb a c n m x = (if a \<le> x \<and> x < a + n then c else m x)"
  by (induction n arbitrary: a m) auto

lemma stosb_eq: "stosb a c n m = (\<lambda>x. if a \<le> x \<and> x < a + n then c else m x)"
  by (rule ext) (rule stosb_at)

lemma stosl_eq:
  assumes "ucast w = c" "ucast (drop_bit 8 w) = c" "ucast (drop_bit 16 w) = c"
    "ucast (drop_bit 24 w) = c"
  shows "stosl a w n m = (\<lambda>x. if a \<le> x \<and> x < a + 4 * n then c else m x)"
proof (rule ext)
  fix x show "stosl a w n m x = (if a \<le> x \<and> x < a + 4 * n then c else m x)"
    using assms
  proof (induction a w n m rule: stosl.induct)
    case (2 a w n m)
    have "stosl a w (Suc n) m x = (if a + 4 \<le> x \<and> x < a + 4 + 4 * n then c
        else (m(a := c, a + 1 := c, a + 2 := c, a + 3 := c)) x)"
      using 2 by (simp only: stosl.simps)
    then show ?case by auto
  qed auto
qed

lemma splat_bytes:
  fixes c :: "32 word"
  defines "w \<equiv> push_bit 24 (c AND 0xFF) OR push_bit 16 (c AND 0xFF) OR push_bit 8 (c AND 0xFF)
                OR (c AND 0xFF)"
  shows "(ucast w :: byte) = ucast c" "(ucast (drop_bit 8 w) :: byte) = ucast c"
    "(ucast (drop_bit 16 w) :: byte) = ucast c" "(ucast (drop_bit 24 w) :: byte) = ucast c"
proof -
  have mask: "bit (0xFF :: int) i \<longleftrightarrow> i < 8" for i
    using bit_mask_iff [of 8 i, where ?'a = int] by (auto simp: mask_eq_exp_minus_1)
  show "(ucast w :: byte) = ucast c" "(ucast (drop_bit 8 w) :: byte) = ucast c"
    "(ucast (drop_bit 16 w) :: byte) = ucast c" "(ucast (drop_bit 24 w) :: byte) = ucast c"
    unfolding w_def
    by (rule bit_eqI; auto simp: bit_ucast_iff bit_or_iff bit_and_iff bit_push_bit_iff
        bit_drop_bit_eq mask)+
qed

lemma memset_eq: "memset dst c n m = (\<lambda>x. if dst \<le> x \<and> x < dst + n then ucast c else m x)"
proof (cases "dst mod 4 = 0 \<and> n mod 4 = 0")
  case True
  then have "4 * (n div 4) = n" by auto
  with True show ?thesis
    using stosl_eq [OF splat_bytes, of dst c "n div 4" m] by (simp add: memset_def Let_def)
next
  case False
  then show ?thesis by (auto simp: memset_def stosb_eq)
qed

lemma copy_up_at:
  "d \<le> s \<or> s + n \<le> d \<Longrightarrow>
     copy_up d s n m x = (if d \<le> x \<and> x < d + n then m (s + (x - d)) else m x)"
proof (induction n arbitrary: d s m)
  case (Suc n)
  have "copy_up d s (Suc n) m x =
      (if d + 1 \<le> x \<and> x < d + 1 + n then (m(d := m s)) (s + 1 + (x - (d + 1)))
       else (m(d := m s)) x)"
    unfolding copy_up.simps by (rule Suc.IH) (use Suc.prems in auto)
  moreover have "s + 1 + (x - (d + 1)) = s + (x - d)" if "d + 1 \<le> x" using that by simp
  ultimately show ?case using Suc.prems by auto
qed auto

lemma copy_up_eq:
  "d \<le> s \<or> s + n \<le> d \<Longrightarrow>
     copy_up d s n m = (\<lambda>x. if d \<le> x \<and> x < d + n then m (s + (x - d)) else m x)"
  by (rule ext) (rule copy_up_at)

lemma copy_down_at:
  "s \<le> d \<Longrightarrow> n \<le> s \<Longrightarrow>
     copy_down d s n m x = (if d - n \<le> x \<and> x < d then m (s - (d - x)) else m x)"
proof (induction n arbitrary: d s m)
  case (Suc n)
  have "copy_down d s (Suc n) m x =
      (if d - 1 - n \<le> x \<and> x < d - 1 then (m(d - 1 := m (s - 1))) (s - 1 - (d - 1 - x))
       else (m(d - 1 := m (s - 1))) x)"
    unfolding copy_down.simps by (rule Suc.IH) (use Suc.prems in auto)
  moreover have "s - 1 - (d - 1 - x) = s - (d - x)" if "x < d - 1" "d - 1 - n \<le> x"
    using that Suc.prems by linarith
  moreover have "s - (d - x) \<noteq> d - 1" if "x < d - 1" "d - 1 - n \<le> x"
    using that Suc.prems by linarith
  moreover have "x < d \<longleftrightarrow> x < d - 1 \<or> x = d - 1" using Suc.prems by linarith
  ultimately show ?case using Suc.prems by auto
qed auto

lemma memmove_eq:
  "memmove dst src n m = (\<lambda>x. if dst \<le> x \<and> x < dst + n then m (src + (x - dst)) else m x)"
proof (cases "src < dst \<and> src + n > dst")
  case True
  have "copy_down (dst + n) (src + n) n m x =
      (if dst \<le> x \<and> x < dst + n then m (src + (x - dst)) else m x)" for x
    using copy_down_at [of "src + n" "dst + n" n m x] True
    by (auto intro!: arg_cong [of _ _ m])
  with True show ?thesis by (simp add: memmove_def fun_eq_iff)
next
  case False
  then show ?thesis by (auto simp: memmove_def copy_up_eq)
qed

section \<open>What the string routines do\<close>

lemma strncmp_0_iff:
  "strncmp p q n = 0 \<longleftrightarrow> (\<forall>i < n. (\<forall>j < i. p j \<noteq> 0) \<longrightarrow> p i = q i)"
proof (induction p q n rule: strncmp.induct)
  case (2 p q n)
  have split: "(\<forall>i < Suc n. P i) \<longleftrightarrow> P 0 \<and> (\<forall>i < n. P (Suc i))" for P
    by (auto simp: less_Suc_eq_0_disj)
  have all0: "(\<forall>j < Suc i. p j \<noteq> 0) \<longleftrightarrow> p 0 \<noteq> 0 \<and> (\<forall>j < i. p (Suc j) \<noteq> 0)" for i
    by (auto simp: less_Suc_eq_0_disj)
  show ?case
  proof (cases "p 0 \<noteq> 0 \<and> p 0 = q 0")
    case True
    with 2 show ?thesis by (simp only: strncmp.simps split all0 if_True) auto
  next
    case False
    then show ?thesis by (simp only: strncmp.simps split all0 if_False)
        (auto simp: word_uint_eq_iff)
  qed
qed simp

text \<open>The sign of \<open>strncmp\<close> is that of the first position where the strings differ.\<close>

lemma strncmp_at:
  assumes "k < n" "\<forall>j < k. p j \<noteq> 0 \<and> p j = q j" "p k = 0 \<or> p k \<noteq> q k"
  shows "strncmp p q n = uint (p k) - uint (q k)"
  using assms
proof (induction p q n arbitrary: k rule: strncmp.induct)
  case (2 p q n)
  show ?case
  proof (cases k)
    case 0
    with 2 show ?thesis by auto
  next
    case (Suc k')
    with 2(3) have "p 0 \<noteq> 0 \<and> p 0 = q 0" by blast
    moreover have "strncmp (\<lambda>i. p (Suc i)) (\<lambda>i. q (Suc i)) n = uint (p (Suc k')) - uint (q (Suc k'))"
      by (rule 2(1)) (use 2 Suc calculation in auto)
    ultimately show ?thesis using Suc by auto
  qed
qed simp

lemma strncpy_at:
  assumes "s + nat n \<le> t \<or> t + nat n \<le> s"
  shows "strncpy s t n m x =
    (if s \<le> x \<and> x < s + nat n
     then if \<exists>j < x - s. m (t + j) = 0 then 0 else m (t + (x - s)) else m x)"
proof -
  define pad where "pad = (\<lambda>s t n m. let (s', k, m') = strncpy_copy s t n m in stosb s' 0 k m')"
  have pad_0: "pad s t 0 m = m" for s t m by (simp add: pad_def)
  have pad_Suc: "pad s t (Suc n) m =
      (if m t \<noteq> 0 then pad (s + 1) (t + 1) n (m(s := m t)) else stosb (s + 1) 0 n (m(s := 0)))"
    for s t n m by (simp add: pad_def Let_def)
  have "pad s t n m x =
      (if s \<le> x \<and> x < s + n
       then if \<exists>j < x - s. m (t + j) = 0 then 0 else m (t + (x - s)) else m x)"
    if "s + n \<le> t \<or> t + n \<le> s" for s t n m
    using that
  proof (induction n arbitrary: s t m)
    case (Suc n)
    show ?case
    proof (cases "m t = 0")
      case True
      then have "(\<exists>j < x - s. m (t + j) = 0) \<longleftrightarrow> s < x" by (auto intro: exI [of _ 0])
      with True show ?thesis by (auto simp: pad_Suc stosb_at)
    next
      case False
      define m1 where "m1 = m(s := m t)"
      have m1: "m1 s = m t" "\<And>y. y \<noteq> s \<Longrightarrow> m1 y = m y" by (simp_all add: m1_def)
      have step: "pad s t (Suc n) m x = pad (s + 1) (t + 1) n m1 x" using False
        by (simp add: pad_Suc m1_def)
      have IH: "pad (s + 1) (t + 1) n m1 x =
          (if s + 1 \<le> x \<and> x < s + 1 + n
           then if \<exists>j < x - (s + 1). m1 (t + 1 + j) = 0 then 0 else m1 (t + 1 + (x - (s + 1)))
           else m1 x)" by (rule Suc.IH) (use Suc.prems in auto)
      have at: "m1 (t + 1 + j) = m (t + Suc j)" if "j < n" for j using Suc.prems that m1(2) by auto
      show ?thesis
      proof (cases "s + 1 \<le> x \<and> x < s + 1 + n")
        case True
        then obtain d where d: "x = s + 1 + d" "d < n"
          by (metis add_less_cancel_left le_add_diff_inverse)
        have "(\<exists>j < Suc d. m (t + j) = 0) \<longleftrightarrow> (\<exists>j < d. m1 (t + 1 + j) = 0)"
          using \<open>m t \<noteq> 0\<close> at d(2) by (auto simp: Ex_less_Suc2)
        with IH step d at [of d] show ?thesis by (auto split: if_splits)
      next
        case False
        with IH step m1 show ?thesis by (cases "x = s") auto
      qed
    qed
  qed (auto simp: pad_0)
  from this [of s "nat n" t m] assms show ?thesis by (simp add: strncpy_def pad_def)
qed

lemma safestrcpy_copy_spec:
  assumes "s + n < t \<or> t + n < s" "safestrcpy_copy s t n m = (s', m')"
  shows "s \<le> s' \<and> s' \<le> s + n \<and>
    (\<forall>x. m' x = (if s \<le> x \<and> x < s' then m (t + (x - s)) else m x)) \<and>
    (s' < s + n \<longrightarrow> s < s' \<and> m (t + (s' - 1 - s)) = 0) \<and> (\<forall>i. s + i + 1 < s' \<longrightarrow> m (t + i) \<noteq> 0)"
  using assms
proof (induction n arbitrary: s t m)
  case (Suc n)
  show ?case
  proof (cases "m t = 0")
    case True
    with Suc.prems have r: "s' = s + 1" "m' = m(s := m t)" by (auto simp: Let_def)
    then show ?thesis using True by auto
  next
    case False
    define m1 where "m1 = m(s := m t)"
    have m1: "m1 s = m t" "\<And>y. y \<noteq> s \<Longrightarrow> m1 y = m y" by (simp_all add: m1_def)
    from False Suc.prems have r: "safestrcpy_copy (s + 1) (t + 1) n m1 = (s', m')"
      by (simp add: Let_def m1_def)
    have pre: "s + 1 + n < t + 1 \<or> t + 1 + n < s + 1" using Suc.prems(1) by auto
    note IH = Suc.IH [OF pre r]
    then have b: "s + 1 \<le> s'" "s' \<le> s + 1 + n" by auto
    have at: "m1 (t + 1 + j) = m (t + Suc j)" if "j \<le> n" for j using Suc.prems(1) that m1(2) by auto
    have "m' x = (if s \<le> x \<and> x < s' then m (t + (x - s)) else m x)" for x
    proof (cases "s + 1 \<le> x \<and> x < s'")
      case True
      then obtain d where d: "x = s + 1 + d" by (metis le_add_diff_inverse)
      then show ?thesis using IH True at [of d] b by simp
    next
      case False
      then show ?thesis using IH m1 b by (cases "x = s") auto
    qed
    moreover have "s < s' \<and> m (t + (s' - 1 - s)) = 0" if "s' < s + Suc n"
    proof -
      have "s + 1 < s'" "m1 (t + 1 + (s' - 1 - (s + 1))) = 0" using IH that by auto
      moreover obtain d where "s' = s + 2 + d" using calculation(1)
        by (metis Suc_1 Suc_leI add_Suc_right le_add_diff_inverse One_nat_def)
      ultimately show ?thesis using at [of d] b by simp
    qed
    moreover have "m (t + i) \<noteq> 0" if "s + i + 1 < s'" for i
    proof (cases i)
      case (Suc i')
      then have "m1 (t + 1 + i') \<noteq> 0" using IH that by auto
      then show ?thesis using at [of i'] Suc that b by simp
    qed (use False in simp)
    ultimately show ?thesis using b by simp
  qed
qed auto

lemma safestrcpy_spec:
  assumes "0 < n" "s + nat n \<le> t \<or> t + nat n \<le> s"
  shows "\<exists>i < nat n. safestrcpy s t n m (s + i) = 0 \<and>
           (\<forall>j < i. safestrcpy s t n m (s + j) = m (t + j) \<and> m (t + j) \<noteq> 0)"
    and "\<not> (s \<le> x \<and> x < s + nat n) \<Longrightarrow> safestrcpy s t n m x = m x"
proof -
  obtain s' m' where r: "safestrcpy_copy s t (nat (n - 1)) m = (s', m')" by fastforce
  have "s + nat (n - 1) < t \<or> t + nat (n - 1) < s" using assms by linarith
  note c = safestrcpy_copy_spec [OF this r]
  have eq: "safestrcpy s t n m = m'(s' := 0)" using assms r by (simp add: safestrcpy_def)
  have le: "s \<le> s'" "s' \<le> s + nat (n - 1)" using c by auto
  have N: "nat n = Suc (nat (n - 1))" using assms(1) by linarith
  show "safestrcpy s t n m x = m x" if "\<not> (s \<le> x \<and> x < s + nat n)"
    using c that le N by (auto simp: eq)
  show "\<exists>i < nat n. safestrcpy s t n m (s + i) = 0 \<and>
           (\<forall>j < i. safestrcpy s t n m (s + j) = m (t + j) \<and> m (t + j) \<noteq> 0)"
  proof (cases "s < s' \<and> m (t + (s' - 1 - s)) = 0")
    case True
    then show ?thesis using c le N
      by (intro exI [of _ "s' - 1 - s"] conjI) (linarith, auto simp: eq)
  next
    case False
    then have "s' = s + nat (n - 1)" using c le by auto
    moreover have "m (t + j) \<noteq> 0" if "j < nat (n - 1)" for j
    proof (cases "s + j + 1 < s'")
      case False
      with that calculation have "j = s' - 1 - s" "s < s'" by auto
      with \<open>\<not> (s < s' \<and> _)\<close> show ?thesis by auto
    qed (use c in auto)
    ultimately show ?thesis using c N by (intro exI [of _ "nat (n - 1)"]) (auto simp: eq)
  qed
qed

lemma strlen_from_Some:
  "n \<le> k \<Longrightarrow> s k = 0 \<Longrightarrow> \<forall>i. n \<le> i \<and> i < k \<longrightarrow> s i \<noteq> 0 \<Longrightarrow> strlen_from s n = Some k"
proof (induction "k - n" arbitrary: n)
  case 0
  then have "n = k" by simp
  with 0 show ?case by (subst strlen_from.simps) simp
next
  case (Suc d)
  then have "s n \<noteq> 0" "n + 1 \<le> k" "d = k - (n + 1)" by auto
  with Suc show ?case by (subst strlen_from.simps) simp
qed

lemma strlen_from_spec:
  "strlen_from s n = Some k \<Longrightarrow> n \<le> k \<and> s k = 0 \<and> (\<forall>i. n \<le> i \<and> i < k \<longrightarrow> s i \<noteq> 0)"
proof (erule strlen_from.raw_induct [rotated])
  fix f :: "mem \<Rightarrow> nat \<Rightarrow> nat option" and s n k
  assume 1: "\<And>s n k. f s n = Some k \<Longrightarrow> n \<le> k \<and> s k = 0 \<and> (\<forall>i. n \<le> i \<and> i < k \<longrightarrow> s i \<noteq> 0)"
    "(if s n = 0 then Some n else f s (n + 1)) = Some k"
  show "n \<le> k \<and> s k = 0 \<and> (\<forall>i. n \<le> i \<and> i < k \<longrightarrow> s i \<noteq> 0)"
  proof (cases "s n = 0")
    case True
    with 1(2) show ?thesis by auto
  next
    case False
    then have "f s (n + 1) = Some k" using 1(2) by simp
    from 1(1) [OF this] have "n + 1 \<le> k" "s k = 0"
      and r: "\<And>i. n + 1 \<le> i \<Longrightarrow> i < k \<Longrightarrow> s i \<noteq> 0" by auto
    moreover have "s i \<noteq> 0" if "n \<le> i" "i < k" for i
      using False r [of i] that by (cases "i = n") auto
    ultimately show ?thesis by simp
  qed
qed

lemma strlen_iff: "strlen s = Some k \<longleftrightarrow> s k = 0 \<and> (\<forall>i < k. s i \<noteq> 0)"
proof
  assume "strlen s = Some k"
  from strlen_from_spec [OF this [unfolded strlen_def]] show "s k = 0 \<and> (\<forall>i < k. s i \<noteq> 0)" by simp
next
  assume "s k = 0 \<and> (\<forall>i < k. s i \<noteq> 0)"
  then show "strlen s = Some k" unfolding strlen_def by (intro strlen_from_Some) simp_all
qed

lemma strcmp_from_Some:
  assumes "i \<le> k" "\<forall>j. i \<le> j \<and> j < k \<longrightarrow> p j \<noteq> 0 \<and> p j = q j" "p k = 0 \<or> p k \<noteq> q k"
  shows "strcmp_from p q i = Some (uint (p k) - uint (q k))"
  using assms
proof (induction "k - i" arbitrary: i)
  case 0
  then have "i = k" by simp
  with 0 show ?case by (subst strcmp_from.simps) auto
next
  case (Suc d)
  then have i: "p i \<noteq> 0 \<and> p i = q i" "i + 1 \<le> k" "d = k - (i + 1)" by auto
  have "p j \<noteq> 0 \<and> p j = q j" if "i + 1 \<le> j \<and> j < k" for j
  proof -
    from that have "i \<le> j \<and> j < k" by simp
    with Suc.prems(2) show ?thesis by blast
  qed
  then have "strcmp_from p q (i + 1) = Some (uint (p k) - uint (q k))"
    by (intro Suc.hyps(1) [OF i(3,2) _ Suc.prems(3)]) blast
  with i(1) show ?case by (subst strcmp_from.simps) auto
qed

text \<open>On a terminated string \<open>strcmp\<close> returns, and agrees with \<open>strncmp\<close> on any bound beyond it.\<close>

lemma strcmp_strncmp:
  assumes "p l = 0" "l < n"
  shows "strcmp p q = Some (strncmp p q n)"
proof -
  define k where "k = (LEAST k. p k = 0 \<or> p k \<noteq> q k)"
  have k: "p k = 0 \<or> p k \<noteq> q k" "k \<le> l"
    unfolding k_def using assms(1) LeastI [of "\<lambda>k. p k = 0 \<or> p k \<noteq> q k" l]
      Least_le [of "\<lambda>k. p k = 0 \<or> p k \<noteq> q k" l] by auto
  have below: "p j \<noteq> 0 \<and> p j = q j" if "j < k" for j
    using not_less_Least [OF that [unfolded k_def]] by auto
  have "strcmp_from p q 0 = Some (uint (p k) - uint (q k))"
    by (rule strcmp_from_Some [of 0 k p q, OF _ _ k(1)]) (use below in blast)+
  moreover have "strncmp p q n = uint (p k) - uint (q k)"
    by (rule strncmp_at [of k n p q, OF _ _ k(1)]) (use below k(2) assms in \<open>blast intro: le_less_trans\<close>)+
  ultimately show ?thesis by (simp add: strcmp_def)
qed

lemma strchr_Some:
  assumes "i \<le> k" "\<forall>j. i \<le> j \<and> j < k \<longrightarrow> s j \<noteq> 0 \<and> s j \<noteq> c" "s k = 0 \<or> s k = c"
  shows "strchr s c i = Some (if s k = 0 then None else Some k)"
  using assms
proof (induction "k - i" arbitrary: i)
  case 0
  then have "i = k" by simp
  with 0 show ?case by (subst strchr.simps) auto
next
  case (Suc d)
  then have "s i \<noteq> 0 \<and> s i \<noteq> c" "i + 1 \<le> k" "d = k - (i + 1)" by auto
  with Suc show ?case by (subst strchr.simps) simp
qed

lemma gets_loop_split: "gets_loop n inp = (bs, rest) \<Longrightarrow> inp = bs @ rest \<and> length bs \<le> n"
proof (induction n inp arbitrary: bs rest rule: gets_loop.induct)
  case (3 n c inp)
  show ?case
  proof (cases "c = 10 \<or> c = 13")
    case False
    obtain bs' rest' where r: "gets_loop n inp = (bs', rest')" by fastforce
    with 3(1) [OF False r] 3(2) False show ?thesis by auto
  qed (use 3(2) in auto)
qed auto

section \<open>Properties\<close>

text \<open>C29: \<open>memmove\<close> copies as if through a temporary buffer, for every overlap of source and
  destination: the bytes of the destination are the old bytes of the source, all others stay.\<close>

theorem memmove_any_overlap:
  "memmove dst src n m = (\<lambda>x. if dst \<le> x \<and> x < dst + n then m (src + (x - dst)) else m x)"
  by (rule memmove_eq)

text \<open>C30: The kernel's \<open>memset\<close>, which stores aligned ranges a 32-bit word at a time, has the same
  effect as the user library's bytewise \<open>memset\<close>.\<close>

theorem memset_word_equiv_byte: "memset dst c n m = u_memset dst c n m"
  unfolding memset_eq by (auto simp: u_memset_def stosb_at)



text \<open>C32: \<open>strcmp\<close> of the user library returns on every terminated string, and agrees with the
  kernel's bounded \<open>strncmp\<close> whenever the bound passes the terminator; \<open>strncmp\<close> is zero exactly on
  strings that agree up to the bound or a common terminator.\<close>

theorem strcmp_agrees_strncmp:
  assumes "p l = 0" "l < n"
  shows "strcmp p q = Some (strncmp p q n) \<and>
    (strcmp p q = Some 0 \<longleftrightarrow> (\<forall>i < n. (\<forall>j < i. p j \<noteq> 0) \<longrightarrow> p i = q i))"
  using strcmp_strncmp [of p l n q] assms strncmp_0_iff [of p q n] by simp

theorem strcmp_agrees_strncmp_witness:
  "strcmp (\<lambda>i. if i < 3 then 97 else 0) (\<lambda>i. 97) =
     Some (strncmp (\<lambda>i. if i < 3 then 97 else 0) (\<lambda>i. 97) 14) \<and>
   (strcmp (\<lambda>i. if i < 3 then 97 else 0) (\<lambda>i. 97) = Some 0 \<longleftrightarrow>
     (\<forall>i < 14 :: nat. (\<forall>j < i. (if j < 3 then 97 else 0 :: byte) \<noteq> 0) \<longrightarrow>
        (if i < 3 then 97 else 0 :: byte) = 97))"
  by (rule strcmp_agrees_strncmp [where l = 3]) simp_all

end
