(* ===== verification/Dir.thy ===== *)
theory Dir
  imports Icache CString
begin

text \<open>
  Directories, path names and file creation in \<open>kernel/fs.c\<close>: \<open>namecmp\<close>, \<open>dirlookup\<close>, \<open>rootlookup\<close>,
  \<open>skipelem\<close>, \<open>namex\<close> with its two entry points, \<open>createi\<close>, \<open>concurrent_createi\<close> and
  \<open>update_dinode\<close>. A path is the list of its bytes before the NUL. The array \<open>name\<close> of
  \<open>DIRSIZ\<close> bytes is the list of its bytes before the NUL, all of them when there is none.
\<close>

section \<open>Directory entries\<close>

definition str_view :: "byte list \<Rightarrow> mem" where
  "str_view bs = (\<lambda>i. if i < length bs then bs ! i else 0)"

definition namecmp :: "byte list \<Rightarrow> byte list \<Rightarrow> int" where
  "namecmp s t = strncmp (str_view s) (str_view t) DIRSIZ"

text \<open>The loop of \<open>dirlookup\<close> from offset \<open>off\<close> on, with the inode found and the value stored through
  \<open>poff\<close>. The size is at most \<open>2^32 - 1\<close>, so a round per entry is enough unless \<open>off\<close> wraps around,
  where the C loop starts again at 0.\<close>

primrec dirlookup_loop :: "nat \<Rightarrow> iptr \<Rightarrow> byte list \<Rightarrow> nat \<Rightarrow> kernel \<Rightarrow> (kernel, (nat \<times> nat) option) res" where
  "dirlookup_loop 0 dp name off k = (if off < i_size (get_inode dp k) then OutOfFuel else Ok None k)"
| "dirlookup_loop (Suc fuel) dp name off k =
     (if off < i_size (get_inode dp k) then
        bnd (readi dp off 16 k) (\<lambda>(r, bs) k.
        if r \<noteq> 16 then Panic ''dirlink read''
        else
          (let de = dec_dirent bs
           in if de_inum de \<noteq> 0 \<and> namecmp name (de_name de) = 0
              then bnd (iget (i_dev (get_inode dp k)) (de_inum de) k) (\<lambda>j k. Ok (Some (j, off)) k)
              else dirlookup_loop fuel dp name (w32 (off + 16)) k))
      else Ok None k)"

definition dirlookup :: "iptr \<Rightarrow> byte list \<Rightarrow> kernel \<Rightarrow> (kernel, (nat \<times> nat) option) res" where
  "dirlookup dp name k =
     (if i_type (get_inode dp k) \<noteq> T_DIR then Panic ''dirlookup not DIR''
      else dirlookup_loop (i_size (get_inode dp k) div 16 + 1) dp name 0 k)"

section \<open>Paths\<close>

definition skipelem :: "byte list \<Rightarrow> (byte list \<times> byte list) option" where
  "skipelem path =
     (let path = dropWhile (\<lambda>c. c = 47) path
      in if path = [] then None
         else
           (let s = takeWhile (\<lambda>c. c \<noteq> 47) path; path = dropWhile (\<lambda>c. c \<noteq> 47) path;
                name = (if length s \<ge> DIRSIZ then take DIRSIZ s else s)
            in Some (dropWhile (\<lambda>c. c = 47) path, name)))"

lemma skipelem_shorter: "skipelem path = Some (rest, name) \<Longrightarrow> length rest < length path"
proof -
  assume a: "skipelem path = Some (rest, name)"
  let ?p = "dropWhile (\<lambda>c. c = 47) path"
  from a have p: "?p \<noteq> []" and r: "rest = dropWhile (\<lambda>c. c = 47) (dropWhile (\<lambda>c. c \<noteq> 47) ?p)"
    by (auto simp: skipelem_def Let_def split: if_splits)
  have "hd ?p \<noteq> 47" using hd_dropWhile [OF p] by simp
  then have "length (dropWhile (\<lambda>c. c \<noteq> 47) ?p) < length ?p"
    using p by (cases ?p) (simp_all add: le_imp_less_Suc length_dropWhile_le)
  moreover have "length rest \<le> length (dropWhile (\<lambda>c. c \<noteq> 47) ?p)" by (simp only: r length_dropWhile_le)
  moreover have "length ?p \<le> length path" by (rule length_dropWhile_le)
  ultimately show ?thesis by linarith
qed

text \<open>The loop of \<open>namex\<close> from the inode \<open>j\<close>, and what follows it: \<open>None\<close> is the null pointer, a result
  carries the contents of \<open>name\<close>.\<close>

function namex_loop :: "byte list \<Rightarrow> bool \<Rightarrow> nat \<Rightarrow> byte list \<Rightarrow> kernel \<Rightarrow> (kernel, (nat \<times> byte list) option) res" where
  "namex_loop path nip j name k =
     (case skipelem path of
        None \<Rightarrow>
          if nip then bnd (irelease (Icache j) k) (\<lambda>_ k. Ok None k) else Ok (Some (j, name)) k
      | Some (path', name') \<Rightarrow>
          bnd (locki (Some (Icache j)) k) (\<lambda>_ k.
          if i_type (icache_inode k ! j) \<noteq> T_DIR then
            bnd (unlocki (Some (Icache j)) k) (\<lambda>_ k. bnd (irelease (Icache j) k) (\<lambda>_ k. Ok None k))
          else if nip \<and> path' = [] then
            bnd (unlocki (Some (Icache j)) k) (\<lambda>_ k. Ok (Some (j, name')) k)
          else
            bnd (dirlookup (Icache j) name' k) (\<lambda>r k.
            case r of
              None \<Rightarrow>
                bnd (unlocki (Some (Icache j)) k) (\<lambda>_ k. bnd (irelease (Icache j) k) (\<lambda>_ k. Ok None k))
            | Some (next, _) \<Rightarrow>
                bnd (unlocki (Some (Icache j)) k) (\<lambda>_ k.
                bnd (irelease (Icache j) k) (\<lambda>_ k.
                namex_loop path' nip next name' k)))))"
  by pat_completeness auto
termination
  by (relation "measure (\<lambda>(path, nip, j, name, k). length path)") (auto dest: skipelem_shorter)

declare namex_loop.simps [simp del]

text \<open>A path that starts with a slash begins at the root. Any other path begins at \<open>namei("/")\<close>, which
  holds a reference already when \<open>idup\<close> takes a second one.\<close>

definition namex_abs :: "byte list \<Rightarrow> bool \<Rightarrow> kernel \<Rightarrow> (kernel, (nat \<times> byte list) option) res" where
  "namex_abs path nip k =
     bnd (iget ROOTDEV ROOTINO k) (\<lambda>j k. namex_loop path nip j [] k)"

definition namex :: "byte list \<Rightarrow> bool \<Rightarrow> kernel \<Rightarrow> (kernel, (nat \<times> byte list) option) res" where
  "namex path nip k =
     (if path \<noteq> [] \<and> hd path = 47 then namex_abs path nip k
      else bnd (namex_abs [47] False k) (\<lambda>r k.
        case r of
          None \<Rightarrow> Undef ''null inode''
        | Some (j, _) \<Rightarrow>
            bnd (idup (Icache j) k) (\<lambda>_ k. namex_loop path nip j [] k)))"

definition namei :: "byte list \<Rightarrow> kernel \<Rightarrow> (kernel, nat option) res" where
  "namei path k = bnd (namex path False k) (\<lambda>r k. Ok (map_option fst r) k)"

definition nameiparent :: "byte list \<Rightarrow> kernel \<Rightarrow> (kernel, (nat \<times> byte list) option) res" where
  "nameiparent path k = namex path True k"

definition rootlookup :: "byte list \<Rightarrow> kernel \<Rightarrow> (kernel, nat option) res" where
  "rootlookup name k =
     bnd (namei [47] k) (\<lambda>r k.
     case r of
       None \<Rightarrow> Undef ''null inode''
     | Some j \<Rightarrow> bnd (dirlookup (Icache j) name k) (\<lambda>r k. Ok (map_option fst r) k))"

section \<open>Creating a file\<close>

definition update_dinode :: "iptr \<Rightarrow> kernel \<Rightarrow> (kernel, unit) res" where
  "update_dinode ip k =
     bnd (iget ROOTDEV INODEFILEINO k) (\<lambda>f k.
     bnd (read_dinode (i_inum (get_inode ip k)) k) (\<lambda>d k.
     let i = get_inode ip k
     in if i_size i \<noteq> di_size d then
          bnd (writei (Icache f) (enc_dinode (d\<lparr>di_size := i_size i, di_data := i_data i\<rparr>))
                 (w32 (i_inum i * 64)) 64 k) (\<lambda>r k.
          if r < 0 then cprintf (map of_char ''failled to add dinode in sys_open'' @ [10]) [] k else Ok () k)
        else Ok () k))"

text \<open>The loop over the parent directory that prints its names, with the entry read last. A name
  without a NUL makes \<open>%s\<close> read past the entry. The bound on the rounds is the number of entries.\<close>

primrec print_names :: "nat \<Rightarrow> nat \<Rightarrow> dirent \<Rightarrow> nat \<Rightarrow> kernel \<Rightarrow> (kernel, dirent) res" where
  "print_names 0 j de off k = (if off < i_size (icache_inode k ! j) then OutOfFuel else Ok de k)"
| "print_names (Suc fuel) j de off k =
     (if off < i_size (icache_inode k ! j) then
        bnd (concurrent_readi (Some (Icache j)) off 16 k) (\<lambda>(r, bs) k.
        if r \<noteq> 16 then Panic ''dirlink read''
        else
          (let de = dec_dirent bs
           in if de_inum de = 0 then print_names fuel j de (w32 (off + 16)) k
              else if 0 \<notin> set (de_name de) then Undef ''string overrun''
              else bnd (cprintf (map of_char ''name %s'' @ [10]) [PStr (Some (takeWhile (\<lambda>c. c \<noteq> 0) (de_name de)))] k)
                     (\<lambda>_ k. print_names fuel j de (w32 (off + 16)) k)))
      else Ok de k)"

definition new_dinode :: dinode where
  "new_dinode = \<lparr>di_type = T_FILE, di_devid = T_DEV, di_size = 0,
     di_data = replicate EXTENT_N \<lparr>startblkno = 0, nblocks = 0\<rparr>\<rparr>"

definition createi :: "iptr \<Rightarrow> byte list \<Rightarrow> kernel \<Rightarrow> (kernel, nat) res" where
  "createi inodefile path k =
     bnd (acquiresleep (SlInode Inodefile) k) (\<lambda>_ k.
     let inum = i_size (icache_inodefile k) div 64
     in bnd (writei Inodefile (enc_dinode new_dinode) (INODEOFF inum) 64 k) (\<lambda>_ k.
        bnd (releasesleep (SlInode Inodefile) k) (\<lambda>_ k.
        bnd (nameiparent path k) (\<lambda>r k.
        case r of
          None \<Rightarrow> Undef ''null inode''
        | Some (rootino, name) \<Rightarrow>
            (let de = \<lparr>de_inum = inum mod 65536, de_name = name @ replicate (DIRSIZ - length name) 0\<rparr>
             in bnd (concurrent_writei (Some (Icache rootino)) (enc_dirent de)
                       (i_size (icache_inode k ! rootino)) 16 k) (\<lambda>_ k.
                let k = upd_inode inodefile (\<lambda>i. i\<lparr>i_size := w32 (i_size i + 64)\<rparr>) k;
                    k = upd_inode (Icache rootino) (\<lambda>i. i\<lparr>i_size := w32 (i_size i + 16)\<rparr>) k
                in bnd (print_names (i_size (icache_inode k ! rootino) div 16 + 1) rootino de 0 k) (\<lambda>de k.
                   bnd (update_dinode inodefile k) (\<lambda>_ k.
                   bnd (update_dinode (Icache rootino) k) (\<lambda>_ k.
                   iget ROOTDEV (de_inum de) k))))))))) "

definition concurrent_createi :: "byte list \<Rightarrow> kernel \<Rightarrow> (kernel, nat) res" where
  "concurrent_createi path k =
     bnd (iget ROOTDEV INODEFILEINO k) (\<lambda>f k.
     bnd (acquiresleep (SlInode (Icache f)) k) (\<lambda>_ k.
     bnd (createi (Icache f) path k) (\<lambda>ip k.
     bnd (releasesleep (SlInode (Icache f)) k) (\<lambda>_ k. Ok ip k))))"

section \<open>The elements of a path\<close>

text \<open>The elements \<open>skipelem\<close> yields when it is called until it returns null.\<close>

function elems :: "byte list \<Rightarrow> byte list list" where
  "elems path = (case skipelem path of None \<Rightarrow> [] | Some (rest, name) \<Rightarrow> name # elems rest)"
  by pat_completeness auto
termination
  by (relation "measure length") (auto dest: skipelem_shorter)

declare elems.simps [simp del]

text \<open>The reference: cut the path at every slash and drop the empty pieces; \<open>cur\<close> is the piece read so
  far.\<close>

fun pieces :: "byte list \<Rightarrow> byte list \<Rightarrow> byte list list" where
  "pieces cur [] = (if cur = [] then [] else [cur])"
| "pieces cur (c # p) =
     (if c = 47 then (if cur = [] then pieces [] p else cur # pieces [] p) else pieces (cur @ [c]) p)"

lemma pieces_append: "47 \<notin> set s \<Longrightarrow> pieces cur (s @ p) = pieces (cur @ s) p"
  by (induction s arbitrary: cur) auto

lemma pieces_slashes: "pieces [] (dropWhile (\<lambda>c. c = 47) p) = pieces [] p"
  by (induction p) auto

lemma pieces_elem:
  assumes "s \<noteq> []" "47 \<notin> set s" "p = [] \<or> hd p = 47"
  shows "pieces [] (s @ p) = s # pieces [] p"
  using assms pieces_append [of s "[]" p] by (cases p) auto

lemma skipelem_pieces:
  "(case skipelem path of
      None \<Rightarrow> pieces [] path = []
    | Some (rest, name) \<Rightarrow> \<exists>s. pieces [] path = s # pieces [] rest \<and> name = take DIRSIZ s)"
proof -
  let ?p = "dropWhile (\<lambda>c. c = 47) path"
  let ?s = "takeWhile (\<lambda>c. c \<noteq> 47) ?p" and ?q = "dropWhile (\<lambda>c. c \<noteq> 47) ?p"
  show ?thesis
  proof (cases "?p = []")
    case True
    then have "pieces [] path = []" using pieces_slashes [of path] by (simp only: pieces.simps simp_thms if_True)
    then show ?thesis using True by (simp add: skipelem_def)
  next
    case False
    have "hd ?p \<noteq> 47" using hd_dropWhile [OF False] by simp
    then have "?s \<noteq> []" using False by (cases ?p) auto
    moreover have "47 \<notin> set ?s" by (auto dest: set_takeWhileD)
    moreover have "?q = [] \<or> hd ?q = 47" using hd_dropWhile [of "\<lambda>c. c \<noteq> 47" ?p] by blast
    ultimately have "pieces [] (?s @ ?q) = ?s # pieces [] ?q" by (rule pieces_elem)
    then have "pieces [] path = ?s # pieces [] (dropWhile (\<lambda>c. c = 47) ?q)"
      by (simp only: takeWhile_dropWhile_id pieces_slashes)
    moreover have "(if DIRSIZ \<le> length ?s then take DIRSIZ ?s else ?s) = take DIRSIZ ?s" by simp
    ultimately show ?thesis using False by (simp add: skipelem_def Let_def del: take_all_iff)
  qed
qed

lemma elems_pieces: "elems path = map (take DIRSIZ) (pieces [] path)"
proof (induction path rule: elems.induct)
  case (1 path)
  show ?case
  proof (cases "skipelem path")
    case None
    then show ?thesis using skipelem_pieces [of path] by (simp add: elems.simps)
  next
    case (Some rn)
    obtain rest name where rn: "rn = (rest, name)" by fastforce
    obtain s where s: "pieces [] path = s # pieces [] rest" "name = take DIRSIZ s"
      using skipelem_pieces [of path] Some rn by auto
    have "elems rest = map (take DIRSIZ) (pieces [] rest)" using 1 Some rn by blast
    then show ?thesis using s Some rn elems.simps [of path] by simp
  qed
qed

section \<open>Looking a name up\<close>

definition dir_shape :: "nat \<Rightarrow> extent list \<Rightarrow> kernel \<Rightarrow> bool" where
  "dir_shape sz es k \<longleftrightarrow> 2 \<le> length es \<and> ext_ok k (es ! 0) \<and> ext_ok k (es ! 1) \<and> sz mod 16 = 0 \<and>
     sz \<le> nblocks (es ! 0) * 512 + nblocks (es ! 1) * 512 \<and>
     nblocks (es ! 0) * 512 + nblocks (es ! 1) * 512 < 4294967280"

text \<open>The entries of a directory of \<open>sz\<close> bytes with the extents \<open>es\<close>.\<close>

definition dir_entries :: "nat \<Rightarrow> extent list \<Rightarrow> (nat \<Rightarrow> byte list) \<Rightarrow> dirent list" where
  "dir_entries sz es d =
     map (\<lambda>i. dec_dirent (slice (16 * i) 16 (ext_content d (es ! 0) @ ext_content d (es ! 1)))) [0 ..< sz div 16]"

definition de_match :: "byte list \<Rightarrow> dirent \<Rightarrow> bool" where
  "de_match name de \<longleftrightarrow> de_inum de \<noteq> 0 \<and> namecmp name (de_name de) = 0"

abbreviation inode_entries :: "iptr \<Rightarrow> kernel \<Rightarrow> dirent list" where
  "inode_entries dp k \<equiv> dir_entries (i_size (get_inode dp k)) (i_data (get_inode dp k)) (memdisk k)"

definition dir_open :: "iptr \<Rightarrow> kernel \<Rightarrow> bool" where
  "dir_open dp k \<longleftrightarrow> disk_ready k \<and> data_inode dp k \<and>
     dir_shape (i_size (get_inode dp k)) (i_data (get_inode dp k)) k"

lemma dir_open_io:
  assumes "dir_open dp k" "io_step k k'" "disk_ready k'"
  shows "dir_open dp k'"
  using assms get_inode_io [OF assms(2), of dp] io_stepD(5,6) [OF assms(2)] ext_ok_io [OF assms(2)]
  by (cases dp) (simp_all add: dir_open_def data_inode_def dir_shape_def)

lemma next_entry: "s mod 16 = 0 \<Longrightarrow> 16 * i < s \<Longrightarrow> 16 * i + 16 \<le> (s :: nat)"
  by presburger

lemma dir_read_entry:
  assumes "dir_open dp k" "16 * i < i_size (get_inode dp k)"
  shows "\<exists>bs k'. readi dp (16 * i) 16 k = Ok (16, bs) k' \<and> dec_dirent bs = inode_entries dp k ! i \<and>
    i < length (inode_entries dp k) \<and> dir_open dp k' \<and> memdisk k' = memdisk k \<and> io_step k k'"
proof -
  let ?i = "get_inode dp k"
  note o = assms(1) [unfolded dir_open_def dir_shape_def]
  obtain e0 e1 es where es: "i_data ?i = e0 # e1 # es"
    using o by (cases "i_data ?i"; cases "tl (i_data ?i)") auto
  have le: "16 * i + 16 \<le> i_size ?i" using o assms(2) by (simp add: next_entry)
  have "\<exists>k'. readi dp (16 * i) 16 k =
      Ok (int 16, slice (16 * i) 16 (ext_content (memdisk k) e0 @ ext_content (memdisk k) e1)) k' \<and>
      disk_ready k' \<and> memdisk k' = memdisk k \<and> io_step k k'"
    by (rule readi_two) (use o es le in simp_all)
  then obtain k' where "readi dp (16 * i) 16 k =
      Ok (16, slice (16 * i) 16 (ext_content (memdisk k) e0 @ ext_content (memdisk k) e1)) k'"
    "disk_ready k'" "memdisk k' = memdisk k" "io_step k k'" by auto
  moreover have "i < i_size ?i div 16" using le by linarith
  ultimately show ?thesis using dir_open_io [OF assms(1)] by (auto simp: dir_entries_def es)
qed

lemma dirlookup_loop_ok:
  assumes "dir_open dp k" "16 * i \<le> i_size (get_inode dp k)" "i_size (get_inode dp k) div 16 < i + fuel"
  shows "case find_index (de_match name) (drop i (inode_entries dp k)) of
     None \<Rightarrow> \<exists>k'. dirlookup_loop fuel dp name (16 * i) k = Ok None k' \<and> disk_ready k' \<and> memdisk k' = memdisk k \<and> io_step k k'
   | Some d \<Rightarrow> \<exists>k'. dirlookup_loop fuel dp name (16 * i) k =
        bnd (iget ROOTDEV (de_inum (inode_entries dp k ! (i + d))) k') (\<lambda>j k. Ok (Some (j, 16 * (i + d))) k) \<and>
        disk_ready k' \<and> memdisk k' = memdisk k \<and> io_step k k'"
  using assms
proof (induction fuel arbitrary: i k)
  case 0
  then show ?case by simp
next
  case (Suc fuel)
  let ?es = "inode_entries dp k"
  show ?case
  proof (cases "16 * i < i_size (get_inode dp k)")
    case False
    then have "drop i ?es = []" by (simp add: dir_entries_def)
    then show ?thesis using False Suc.prems(1) by (auto simp: dir_open_def)
  next
    case True
    from dir_read_entry [OF Suc.prems(1) True] obtain bs k1 where
      r: "readi dp (16 * i) 16 k = Ok (16, bs) k1" "dec_dirent bs = ?es ! i" and len: "i < length ?es"
      and k1: "dir_open dp k1" "memdisk k1 = memdisk k" "io_step k k1" by blast
    have same: "get_inode dp k1 = get_inode dp k" by (rule get_inode_io [OF k1(3)])
    have dev: "i_dev (get_inode dp k1) = ROOTDEV" using k1(1) by (simp add: dir_open_def data_inode_def)
    have dr: "drop i ?es = ?es ! i # drop (Suc i) ?es" using len by (simp add: Cons_nth_drop_Suc)
    show ?thesis
    proof (cases "de_match name (?es ! i)")
      case True
      then have "dirlookup_loop (Suc fuel) dp name (16 * i) k =
          bnd (iget ROOTDEV (de_inum (?es ! i)) k1) (\<lambda>j k. Ok (Some (j, 16 * i)) k)"
        using \<open>16 * i < _\<close> r dev by (simp add: de_match_def)
      then show ?thesis using True k1 unfolding dr by (auto simp: dir_open_def)
    next
      case False
      have w: "w32 (16 * i + 16) = 16 * Suc i"
        using \<open>16 * i < _\<close> Suc.prems(1) by (subst w32_id) (auto simp: dir_open_def dir_shape_def)
      have step: "dirlookup_loop (Suc fuel) dp name (16 * i) k = dirlookup_loop fuel dp name (16 * Suc i) k1"
        using \<open>16 * i < _\<close> r dev False w by (auto simp: de_match_def Let_def)
      have "16 * Suc i \<le> i_size (get_inode dp k1)"
        using next_entry [of "i_size (get_inode dp k)" i] \<open>16 * i < _\<close> Suc.prems(1)
        by (simp add: same dir_open_def dir_shape_def)
      note ih = Suc.IH [OF k1(1) this]
      have "i_size (get_inode dp k1) div 16 < Suc i + fuel" using Suc.prems(3) same by simp
      note ih = ih [OF this, unfolded same k1(2)]
      show ?thesis
        using ih False io_step_trans [OF k1(3)] unfolding dr step
        by (cases "find_index (de_match name) (drop (Suc i) ?es)") auto
    qed
  qed
qed

section \<open>Properties\<close>

text \<open>C13: Calling \<open>skipelem\<close> until it returns null cuts a path into its elements: the names it stores are
  the non-empty pieces between the slashes, in order, each cut to \<open>DIRSIZ\<close> bytes, for any number of
  leading, doubled or trailing slashes; it always comes to an end.\<close>

theorem skipelem_splits_path: "elems path = map (take DIRSIZ) (pieces [] path)"
  by (rule elems_pieces)

end
