(* ===== verification/Namei.thy ===== *)
theory Namei
  imports Dir
begin

text \<open>
  Path resolution. The abstract view of the file system is what the disk says: the inodes in the
  inode file, the entries of the directories, and the function \<open>resolve\<close> that walks them. Under the
  invariant \<open>fs_inv\<close> of the inode cache, \<open>namei\<close> computes \<open>resolve\<close>, whatever is cached, and the
  reference counts change by the one reference it returns.
\<close>

section \<open>The invariant\<close>

definition same_fs :: "kernel \<Rightarrow> kernel \<Rightarrow> bool" where
  "same_fs k k' \<longleftrightarrow> memdisk k' = memdisk k \<and> icache_inodefile k' = icache_inodefile k \<and> disksize k' = disksize k \<and>
     curproc k' = curproc k \<and> ftable k' = ftable k \<and> map pftable (ptable k') = map pftable (ptable k)"

lemma io_step_pftable: "io_step k k' \<Longrightarrow> map pftable (ptable k') = map pftable (ptable k)"
  unfolding io_step_def io_erase_def
  by (drule arg_cong [where f = "\<lambda>k. map pftable (ptable k)"]) (simp add: comp_def)

lemma same_fs_refl [simp]: "same_fs k k"
  by (simp add: same_fs_def)

lemma same_fs_trans: "same_fs a b \<Longrightarrow> same_fs b c \<Longrightarrow> same_fs a c"
  by (simp add: same_fs_def)

lemma same_fsD:
  assumes "same_fs k k'"
  shows "dinode_at n k' = dinode_at n k" "has_dinode n k' = has_dinode n k" "ext_ok k' e = ext_ok k e"
    "inodefile_ok k' = inodefile_ok k" "memdisk k' = memdisk k"
  using assms
  by (simp_all add: same_fs_def dinode_at_def inodefile_bytes_def has_dinode_def ext_ok_def inodefile_ok_def)

text \<open>An entry in use holds the fields of its inode on disk; its lock is free unless the running call
  has taken it.\<close>

definition entry_ok :: "bool \<Rightarrow> kernel \<Rightarrow> inode \<Rightarrow> bool" where
  "entry_ok locked k i \<longleftrightarrow>
     (if locked then sl_locked (i_lock i) \<and> 0 < i_ref i else i_lock i = free_sleeplock) \<and>
     (0 < i_ref i \<longrightarrow> i_dev i = ROOTDEV \<and> has_dinode (i_inum i) k \<and> di_type (dinode_at (i_inum i) k) \<noteq> 0 \<and>
        fill_inode (dinode_at (i_inum i) k) i = i)"

lemma fill_inode_same:
  "fill_inode d i = i \<longleftrightarrow> i_type i = di_type d \<and> i_devid i = di_devid d \<and> i_size i = di_size d \<and> i_data i = di_data d"
  by (cases i) (auto simp: fill_inode_def)

definition fs_inv :: "nat option \<Rightarrow> kernel \<Rightarrow> bool" where
  "fs_inv h k \<longleftrightarrow> disk_ready k \<and> inodefile_ok k \<and> ic_inv k \<and>
     (\<forall>j < NINODE. entry_ok (h = Some j) k (icache_inode k ! j))"

lemma entry_ok_same: "same_fs k k' \<Longrightarrow> entry_ok b k' i = entry_ok b k i"
  by (simp add: entry_ok_def same_fsD)

section \<open>Reference counts by inode number\<close>

definition contrib :: "nat \<Rightarrow> inode \<Rightarrow> int" where
  "contrib n i = (if i_dev i = ROOTDEV \<and> i_inum i = n then i_ref i else 0)"

definition refs :: "kernel \<Rightarrow> nat \<Rightarrow> int" where
  "refs k n = sum_list (map (contrib n) (icache_inode k))"

definition inums_used :: "kernel \<Rightarrow> nat set" where
  "inums_used k = {n. 0 < refs k n}"

lemma sum_list_update_int:
  "j < length xs \<Longrightarrow> sum_list (xs[j := x]) = sum_list xs + x - xs ! j" for x :: int
  by (induction xs arbitrary: j) (auto split: nat.splits)

lemma refs_upd:
  assumes "icache_inode k' = (icache_inode k)[j := i']" "j < length (icache_inode k)"
  shows "refs k' n = refs k n + contrib n i' - contrib n (icache_inode k ! j)"
  using assms by (simp add: refs_def map_update sum_list_update_int)

lemma contrib_le_refs:
  assumes "ic_inv k" "j < NINODE"
  shows "contrib n (icache_inode k ! j) \<le> refs k n"
proof -
  have nn: "0 \<le> x" if "x \<in> set (map (contrib n) (icache_inode k))" for x
    using assms(1) that by (auto simp: ic_inv_def contrib_def)
  have "contrib n (icache_inode k ! j) \<in> set (map (contrib n) (icache_inode k))"
    using assms by (auto simp: ic_inv_def)
  then show ?thesis unfolding refs_def by (rule Groups_List.member_le_sum_list) (rule nn)
qed

lemma refs_nonneg: "ic_inv k \<Longrightarrow> 0 \<le> refs k n"
  unfolding refs_def by (rule sum_list_nonneg) (auto simp: ic_inv_def contrib_def)

lemma ref_le_refs:
  assumes "fs_inv h k" "j < NINODE" "0 < i_ref (icache_inode k ! j)"
  shows "i_ref (icache_inode k ! j) \<le> refs k (i_inum (icache_inode k ! j))"
  using contrib_le_refs [of k j "i_inum (icache_inode k ! j)"] assms
  by (auto simp: fs_inv_def entry_ok_def contrib_def)

lemma inums_used_subset: "inums_used k \<subseteq> i_inum ` set (icache_inode k)"
proof
  fix n assume "n \<in> inums_used k"
  show "n \<in> i_inum ` set (icache_inode k)"
  proof (rule ccontr)
    assume "n \<notin> i_inum ` set (icache_inode k)"
    then have "map (contrib n) (icache_inode k) = map (\<lambda>_. 0) (icache_inode k)"
      by (intro map_cong) (auto simp: contrib_def)
    then have "refs k n = 0" unfolding refs_def by (simp only:) (simp add: sum_list_0)
    with \<open>n \<in> inums_used k\<close> show False by (simp add: inums_used_def)
  qed
qed

lemma finite_inums_used [simp]: "finite (inums_used k)"
  using inums_used_subset finite_surj by (metis List.finite_set finite_imageI finite_subset)

text \<open>Fewer inodes in use than entries: there is a free entry.\<close>

lemma free_entry_exists:
  assumes inv: "fs_inv h k" and few: "card (inums_used k) < NINODE"
  shows "\<exists>i \<in> set (icache_inode k). i_ref i = 0"
proof (rule ccontr)
  let ?is = "icache_inode k"
  assume none: "\<not> (\<exists>i \<in> set ?is. i_ref i = 0)"
  have ic: "ic_inv k" and len: "length ?is = NINODE" using inv by (simp_all add: fs_inv_def ic_inv_def)
  have pos: "0 < i_ref (?is ! j)" if "j < NINODE" for j
    using none ic_inv_ref [OF ic that] that len nth_mem [of j ?is] by fastforce
  have dev: "i_dev (?is ! j) = ROOTDEV" if "j < NINODE" for j
    using inv pos [OF that] that by (simp add: fs_inv_def entry_ok_def)
  have "inj_on (\<lambda>j. i_inum (?is ! j)) {..< NINODE}"
    by (rule inj_onI) (use ic_uniqD [OF ic] pos dev in auto)
  then have "card ((\<lambda>j. i_inum (?is ! j)) ` {..< NINODE}) = NINODE" by (simp add: card_image)
  moreover have "(\<lambda>j. i_inum (?is ! j)) ` {..< NINODE} \<subseteq> inums_used k"
  proof
    fix n assume "n \<in> (\<lambda>j. i_inum (?is ! j)) ` {..< NINODE}"
    then obtain j where "j < NINODE" "n = i_inum (?is ! j)" by auto
    then show "n \<in> inums_used k" using ref_le_refs [OF inv, of j] pos [of j] by (simp add: inums_used_def)
  qed
  ultimately show False using few card_mono [OF finite_inums_used] by (metis not_less)
qed

section \<open>The operations on the cache\<close>

text \<open>One entry changes, and block input and output happens.\<close>

lemma fs_inv_upd:
  assumes inv: "fs_inv h k" and j: "j < NINODE" and io: "io_step (k\<lparr>icache_inode := (icache_inode k)[j := i']\<rparr>) k'"
    and rdy: "disk_ready k'" and m: "memdisk k' = memdisk k"
    and ic: "ic_inv (k\<lparr>icache_inode := (icache_inode k)[j := i']\<rparr>)"
    and e: "entry_ok (h' = Some j) k i'" and h: "\<And>i. i \<noteq> j \<Longrightarrow> (h' = Some i) = (h = Some i)"
  shows "fs_inv h' k'" "same_fs k k'" "icache_inode k' = (icache_inode k)[j := i']"
proof -
  show same: "same_fs k k'" using io_stepD(2,3,6,7) [OF io] io_step_pftable [OF io] m by (simp add: same_fs_def)
  show is': "icache_inode k' = (icache_inode k)[j := i']" using io_stepD(5) [OF io] by simp
  have len: "length (icache_inode k) = NINODE" using inv by (simp add: fs_inv_def ic_inv_def)
  have "entry_ok (h' = Some i) k' (icache_inode k' ! i)" if "i < NINODE" for i
    using inv e h [of i] that len j unfolding is' entry_ok_same [OF same]
    by (cases "i = j") (simp_all add: fs_inv_def)
  then show "fs_inv h' k'" using inv rdy same_fsD(4) [OF same] ic ic_inv_io [OF io] by (simp add: fs_inv_def)
qed

lemma iget_fs:
  assumes inv: "fs_inv h k" and n: "has_dinode n k" "di_type (dinode_at n k) \<noteq> 0"
    and few: "card (inums_used k) < NINODE" and small: "\<And>m. refs k m < 2147483647"
  shows "\<exists>j k'. iget ROOTDEV n k = Ok j k' \<and> fs_inv h k' \<and> same_fs k k' \<and> j < NINODE \<and>
    0 < i_ref (icache_inode k' ! j) \<and> i_inum (icache_inode k' ! j) = n \<and> refs k' = (refs k)(n := refs k n + 1) \<and>
    (\<forall>i. h = Some i \<longrightarrow> i < NINODE \<longrightarrow> i_inum (icache_inode k' ! i) = i_inum (icache_inode k ! i) \<and>
       (if i = j then 1 else 0) < i_ref (icache_inode k' ! i))"
proof -
  let ?is = "icache_inode k"
  have ic: "ic_inv k" and len: "length ?is = NINODE" and rdy: "disk_ready k"
    using inv by (simp_all add: fs_inv_def ic_inv_def)
  have "i_ref i < 2147483647" if i: "i \<in> set ?is" for i
  proof (cases "0 < i_ref i")
    case True
    obtain j where j: "j < NINODE" "i = ?is ! j" using i len by (metis in_set_conv_nth)
    then show ?thesis using ref_le_refs [OF inv j(1)] small [of "i_inum i"] True by simp
  qed simp
  then have can: "can_iget n k"
    using inv n free_entry_exists [OF inv few] by (auto simp: can_iget_def fs_inv_def)
  from iget_ok [OF rdy can] obtain j k' where k': "iget ROOTDEV n k = Ok j k'" and j: "j < NINODE"
    and r': "disk_ready k'" "memdisk k' = memdisk k"
    and io: "io_step (k\<lparr>icache_inode := ?is[j := iget_entry ROOTDEV n j k]\<rparr>) k'"
    and at: "cached ROOTDEV n k = Some j \<or> cached ROOTDEV n k = None \<and> i_ref (?is ! j) = 0" by blast
  define e where "e = iget_entry ROOTDEV n j k"
  have e: "i_dev e = ROOTDEV" "i_inum e = n" "i_ref e = i_ref (?is ! j) + 1"
    using at by (auto simp: e_def)
  have ej: "entry_ok (h = Some j) k (?is ! j)" using inv j by (simp add: fs_inv_def)
  have "entry_ok (h = Some j) k e"
  proof (cases "cached ROOTDEV n k")
    case None
    then have "\<not> h = Some j" using at ej by (auto simp: entry_ok_def)
    then show ?thesis using None ej n
      by (simp add: entry_ok_def e_def iget_entry_def fill_inode_same) (simp add: fill_inode_def)
  next
    case (Some j')
    then have "cached ROOTDEV n k = Some j" using at by auto
    note c = find_index_holdsD [OF this [unfolded cached_def]]
    then show ?thesis using Some ej by (simp add: entry_ok_def e_def iget_entry_def fill_inode_same)
  qed
  note upd = fs_inv_upd [OF inv j io [folded e_def] r' iget_keeps_inv [OF can j at, folded e_def] this refl]
  have z: "0 \<le> i_ref (?is ! j)" by (rule ic_inv_ref [OF ic j])
  have "contrib m e - contrib m (?is ! j) = (if m = n then 1 else 0)" for m
    using at e find_index_holdsD [of _ ?is j] by (auto simp: contrib_def cached_def)
  then have "refs k' = (refs k)(n := refs k n + 1)"
    using refs_upd [OF upd(3)] j len by (auto simp: fun_eq_iff)
  moreover have "i_inum (icache_inode k' ! i) = i_inum (?is ! i) \<and> (if i = j then 1 else 0) < i_ref (icache_inode k' ! i)"
    if "h = Some i" "i < NINODE" for i
  proof -
    have "0 < i_ref (?is ! i)" using that inv by (simp add: fs_inv_def entry_ok_def)
    moreover have "i_inum (?is ! j) = n" if "0 < i_ref (?is ! j)"
      using at that by (auto simp: cached_def dest: find_index_holdsD)
    ultimately show ?thesis using upd(3) e j len by (cases "i = j") simp_all
  qed
  ultimately show ?thesis using k' upd j len e z by (intro exI [of _ j] exI [of _ k']) simp
qed

lemma fs_inv_entry: "fs_inv h k \<Longrightarrow> j < NINODE \<Longrightarrow> entry_ok (h = Some j) k (icache_inode k ! j)"
  by (simp add: fs_inv_def)

lemma ic_inv_same_key:
  assumes "ic_inv k" "j < NINODE" "i_ref i' = i_ref (icache_inode k ! j)"
    "i_dev i' = i_dev (icache_inode k ! j)" "i_inum i' = i_inum (icache_inode k ! j)"
  shows "ic_inv (k\<lparr>icache_inode := (icache_inode k)[j := i']\<rparr>)"
  by (rule ic_inv_upd [OF assms(1,2)]) (use assms ic_inv_ref [OF assms(1,2)] in auto)

lemma refs_same_key:
  assumes "icache_inode k' = (icache_inode k)[j := i']" "j < length (icache_inode k)"
    "i_ref i' = i_ref (icache_inode k ! j)" "i_dev i' = i_dev (icache_inode k ! j)"
    "i_inum i' = i_inum (icache_inode k ! j)"
  shows "refs k' = refs k"
  using refs_upd [OF assms(1,2)] assms(3-5) by (simp add: fun_eq_iff contrib_def)

lemma irelease_fs:
  assumes inv: "fs_inv None k" and j: "j < NINODE" and pos: "0 < i_ref (icache_inode k ! j)"
    and small: "\<And>m. refs k m < 2147483648"
  defines "n \<equiv> i_inum (icache_inode k ! j)"
  shows "\<exists>k'. irelease (Icache j) k = Ok () k' \<and> fs_inv None k' \<and> same_fs k k' \<and>
    refs k' = (refs k)(n := refs k n - 1) \<and>
    (\<forall>i. i_inum (icache_inode k' ! i) = i_inum (icache_inode k ! i) \<and>
       i_ref (icache_inode k' ! i) = i_ref (icache_inode k ! i) - (if i = j then 1 else 0))"
proof -
  let ?i = "icache_inode k ! j"
  define i' where "i' = (if i_ref ?i = 1 then ?i\<lparr>i_type := 0, i_ref := 0\<rparr> else ?i\<lparr>i_ref := i_ref ?i - 1\<rparr>)"
  let ?k = "k\<lparr>icache_inode := (icache_inode k)[j := i']\<rparr>"
  have ic: "ic_inv k" and len: "length (icache_inode k) = NINODE" and rdy: "disk_ready k"
    and ej: "entry_ok False k ?i" using inv j by (simp_all add: fs_inv_def ic_inv_def)
  have "i_ref ?i < 2147483648" using ref_le_refs [OF inv j pos] small [of n] by (simp add: n_def)
  then have "i32 (i_ref ?i - 1) = i_ref ?i - 1" using pos by (intro i32_id) auto
  then have eq: "irelease (Icache j) k = Ok () ?k"
    using disk_readyD(1) [OF rdy] len j by (simp add: irelease_def i'_def)
  have "ic_inv ?k" using pos by (intro ic_inv_upd [OF ic j]) (auto simp: i'_def)
  moreover have "entry_ok False k i'" using ej pos by (auto simp: entry_ok_def i'_def fill_inode_same)
  ultimately have upd: "fs_inv None ?k" "same_fs k ?k"
    using fs_inv_upd [OF inv j io_step_refl, of i' None] rdy by simp_all
  have "i_dev ?i = ROOTDEV" using ej pos by (simp add: entry_ok_def)
  then have "refs ?k = (refs k)(n := refs k n - 1)"
    using refs_upd [of ?k k j i'] j len by (auto simp: fun_eq_iff contrib_def i'_def n_def)
  moreover have "i_inum (icache_inode ?k ! i) = i_inum (icache_inode k ! i) \<and>
      i_ref (icache_inode ?k ! i) = i_ref (icache_inode k ! i) - (if i = j then 1 else 0)" for i
    using j len by (cases "i = j") (simp_all add: i'_def)
  ultimately show ?thesis using eq upd by blast
qed

lemma unlocki_fs:
  assumes inv: "fs_inv (Some j) k" and j: "j < NINODE"
  shows "\<exists>k'. unlocki (Some (Icache j)) k = Ok () k' \<and> fs_inv None k' \<and> same_fs k k' \<and> refs k' = refs k \<and>
    (\<forall>i. i_inum (icache_inode k' ! i) = i_inum (icache_inode k ! i) \<and> i_ref (icache_inode k' ! i) = i_ref (icache_inode k ! i))"
proof -
  let ?l = "SlInode (Icache j)" and ?i = "icache_inode k ! j"
  let ?k = "wakeup1 (ChSleeplock ?l) (set_sl ?l free_sleeplock k)"
  have ic: "ic_inv k" and len: "length (icache_inode k) = NINODE" and rdy: "disk_ready k"
    and ej: "entry_ok True k ?i" using inv fs_inv_entry [OF inv j] by (simp_all add: fs_inv_def ic_inv_def)
  have eq: "unlocki (Some (Icache j)) k = Ok () ?k"
    using ej disk_readyD(1) [OF rdy] by (simp add: unlocki_def entry_ok_def holdingsleep_eq releasesleep_eq)
  have "entry_ok False k (?i\<lparr>i_lock := free_sleeplock\<rparr>)" using ej by (auto simp: entry_ok_def fill_inode_same)
  moreover have "io_step (k\<lparr>icache_inode := (icache_inode k)[j := ?i\<lparr>i_lock := free_sleeplock\<rparr>]\<rparr>) ?k" by simp
  moreover have "ic_inv (k\<lparr>icache_inode := (icache_inode k)[j := ?i\<lparr>i_lock := free_sleeplock\<rparr>]\<rparr>)"
    by (rule ic_inv_same_key [OF ic j]) simp_all
  ultimately have upd: "fs_inv None ?k" "same_fs k ?k" "icache_inode ?k = (icache_inode k)[j := ?i\<lparr>i_lock := free_sleeplock\<rparr>]"
    using fs_inv_upd [OF inv j, of "?i\<lparr>i_lock := free_sleeplock\<rparr>" ?k None] rdy by simp_all
  have "refs ?k = refs k" using refs_same_key [OF upd(3)] j len by simp
  moreover have "i_inum (icache_inode ?k ! i) = i_inum (icache_inode k ! i) \<and> i_ref (icache_inode ?k ! i) = i_ref (icache_inode k ! i)" for i
    unfolding upd(3) using j len by (cases "i = j") simp_all
  ultimately show ?thesis using eq upd(1,2) by blast
qed

lemma locki_fs:
  assumes inv: "fs_inv None k" and j: "j < NINODE" and pos: "0 < i_ref (icache_inode k ! j)"
  shows "\<exists>k'. locki (Some (Icache j)) k = Ok () k' \<and> fs_inv (Some j) k' \<and> same_fs k k' \<and> refs k' = refs k \<and>
    (\<forall>i. i_inum (icache_inode k' ! i) = i_inum (icache_inode k ! i) \<and> i_ref (icache_inode k' ! i) = i_ref (icache_inode k ! i))"
proof -
  let ?l = "SlInode (Icache j)" and ?i = "icache_inode k ! j"
  have ic: "ic_inv k" and len: "length (icache_inode k) = NINODE" and rdy: "disk_ready k" and ok: "inodefile_ok k"
    and ej: "entry_ok False k ?i" using inv j by (simp_all add: fs_inv_def ic_inv_def)
  obtain p where h: "held k = {}" and p: "curproc k = Some p" using disk_readyD [OF rdy] by blast
  define v where "v = \<lparr>sl_locked = True, sl_pid = pid (ptable k ! p)\<rparr>"
  define i' where "i' = ?i\<lparr>i_lock := v, i_valid := True\<rparr>"
  define k1 where "k1 = k\<lparr>icache_inode := (icache_inode k)[j := ?i\<lparr>i_lock := v\<rparr>]\<rparr>"
  have acq: "acquiresleep ?l k = Ok () k1"
    using acquiresleep_free [of ?l k p] h p ej by (simp add: entry_ok_def v_def k1_def)
  have i1: "icache_inode k1 ! j = ?i\<lparr>i_lock := v\<rparr>" "disk_ready k1" using j len rdy by (simp_all add: k1_def)
  have "\<exists>k'. locki (Some (Icache j)) k = Ok () k' \<and> disk_ready k' \<and> memdisk k' = memdisk k \<and>
      io_step (k\<lparr>icache_inode := (icache_inode k)[j := i']\<rparr>) k'"
  proof (cases "i_valid ?i")
    case True
    then have "i' = ?i\<lparr>i_lock := v\<rparr>" by (simp add: i'_def)
    then show ?thesis using True acq i1 pos by (intro exI [of _ k1]) (simp add: locki_def k1_def)
  next
    case False
    let ?n = "i_inum ?i"
    have "inodefile_ok k1" "has_dinode ?n k1" and d: "dinode_at ?n k1 = dinode_at ?n k"
      using ok ej pos by (simp_all add: k1_def entry_ok_def)
    from inodefile_section [OF i1(2) this(1,2)] obtain ka kb kc where
      ka: "locki_inodefile k1 = Ok () ka" "held ka = {}" "sl_locked (i_lock (icache_inodefile ka))"
        "icache_inode ka = icache_inode k1"
      and kb: "read_dinode_locked ?n ka = Ok (dinode_at ?n k) kb" "unlocki (Some Inodefile) kb = Ok () kc"
      and kc: "disk_ready kc" "memdisk kc = memdisk k1" "io_step k1 kc" unfolding d by blast
    have rd: "read_dinode ?n ka = Ok (dinode_at ?n k) kb"
      using ka(2,3) kb(1) by (simp add: read_dinode_def holdingsleep_eq)
    have "icache_inode kc = icache_inode k1" using io_stepD(5) [OF kc(3)] .
    moreover have "(fill_inode (dinode_at ?n k) (?i\<lparr>i_lock := v\<rparr>))\<lparr>i_valid := True\<rparr> = i'"
      using ej pos by (simp add: i'_def entry_ok_def fill_inode_same) (simp add: fill_inode_def)
    moreover have "i_type i' \<noteq> 0" using ej pos by (simp add: i'_def entry_ok_def fill_inode_same)
    ultimately have "locki (Some (Icache j)) k = Ok () (kc\<lparr>icache_inode := (icache_inode k)[j := i']\<rparr>)"
      using False acq i1 pos ka(1,4) rd kb(2) j len by (simp add: locki_def k1_def)
    then show ?thesis using kc io_step_icache [OF kc(3), of "(icache_inode k)[j := i']"]
      by (intro exI [of _ "kc\<lparr>icache_inode := (icache_inode k)[j := i']\<rparr>"]) (simp add: k1_def)
  qed
  then obtain k' where k': "locki (Some (Icache j)) k = Ok () k'" "disk_ready k'" "memdisk k' = memdisk k"
    "io_step (k\<lparr>icache_inode := (icache_inode k)[j := i']\<rparr>) k'" by blast
  have "entry_ok True k i'" using ej pos by (auto simp: entry_ok_def i'_def v_def fill_inode_same)
  moreover have "ic_inv (k\<lparr>icache_inode := (icache_inode k)[j := i']\<rparr>)"
    by (rule ic_inv_same_key [OF ic j]) (simp_all add: i'_def)
  ultimately have upd: "fs_inv (Some j) k'" "same_fs k k'" "icache_inode k' = (icache_inode k)[j := i']"
    using fs_inv_upd [OF inv j k'(4,2,3), of "Some j"] by simp_all
  have "refs k' = refs k" using refs_same_key [OF upd(3)] j len by (simp add: i'_def)
  moreover have "i_inum (icache_inode k' ! i) = i_inum (icache_inode k ! i) \<and> i_ref (icache_inode k' ! i) = i_ref (icache_inode k ! i)" for i
    unfolding upd(3) using j len by (cases "i = j") (simp_all add: i'_def)
  ultimately show ?thesis using k'(1) upd(1,2) by blast
qed

section \<open>Walking the tree on disk\<close>

definition dinode_entries :: "nat \<Rightarrow> kernel \<Rightarrow> dirent list" where
  "dinode_entries n k = dir_entries (di_size (dinode_at n k)) (di_data (dinode_at n k)) (memdisk k)"

text \<open>Every directory lies in its first two extents and names existing inodes.\<close>

definition fs_wf :: "kernel \<Rightarrow> bool" where
  "fs_wf k \<longleftrightarrow> (\<forall>n. has_dinode n k \<longrightarrow> di_type (dinode_at n k) = T_DIR \<longrightarrow>
     dir_shape (di_size (dinode_at n k)) (di_data (dinode_at n k)) k \<and>
     (\<forall>e \<in> set (dinode_entries n k). de_inum e \<noteq> 0 \<longrightarrow>
        has_dinode (de_inum e) k \<and> di_type (dinode_at (de_inum e) k) \<noteq> 0))"

definition dir_find :: "kernel \<Rightarrow> nat \<Rightarrow> byte list \<Rightarrow> nat option" where
  "dir_find k n x = map_option (\<lambda>i. de_inum (dinode_entries n k ! i)) (find_index (de_match x) (dinode_entries n k))"

text \<open>The inode a list of names leads to from the inode \<open>n\<close>, with the name inums_used last; with \<open>nip\<close> the
  walk stops at the parent of the last name.\<close>

fun walk :: "kernel \<Rightarrow> bool \<Rightarrow> nat \<Rightarrow> byte list \<Rightarrow> byte list list \<Rightarrow> (nat \<times> byte list) option" where
  "walk k nip n x [] = (if nip then None else Some (n, x))"
| "walk k nip n x (y # ys) =
     (if di_type (dinode_at n k) \<noteq> T_DIR then None
      else if nip \<and> ys = [] then Some (n, y)
      else case dir_find k n y of None \<Rightarrow> None | Some m \<Rightarrow> walk k nip m y ys)"

lemma walk_same:
  assumes "same_fs k k'"
  shows "walk k' = walk k" "fs_wf k' = fs_wf k" "dir_find k' = dir_find k"
proof -
  have e: "dinode_entries n k' = dinode_entries n k" for n
    by (simp add: dinode_entries_def same_fsD [OF assms])
  show df: "dir_find k' = dir_find k" by (simp add: fun_eq_iff dir_find_def e)
  show "fs_wf k' = fs_wf k" by (simp add: fs_wf_def e same_fsD [OF assms] dir_shape_def)
  have "walk k' nip n x ys = walk k nip n x ys" for nip n x ys
    by (induction ys arbitrary: n x) (auto simp: df same_fsD [OF assms] split: option.split)
  then show "walk k' = walk k" by (simp add: fun_eq_iff)
qed

lemma fs_inv_io:
  assumes "fs_inv h k" "io_step k k'" "disk_ready k'" "memdisk k' = memdisk k"
  shows "fs_inv h k'" "same_fs k k'" "refs k' = refs k" "icache_inode k' = icache_inode k"
proof -
  show i: "icache_inode k' = icache_inode k" using io_stepD(5) [OF assms(2)] .
  show same: "same_fs k k'" using io_stepD(2,3,6,7) [OF assms(2)] io_step_pftable [OF assms(2)] assms(4) by (simp add: same_fs_def)
  show "refs k' = refs k" by (simp add: refs_def i fun_eq_iff)
  show "fs_inv h k'"
    using assms ic_inv_io [OF assms(2)] by (simp add: fs_inv_def i entry_ok_same [OF same] same_fsD(4) [OF same])
qed

lemma dirlookup_fs:
  assumes inv: "fs_inv (Some j) k" and j: "j < NINODE" and wf: "fs_wf k" and n: "i_inum (icache_inode k ! j) = n"
    and dir: "di_type (dinode_at n k) = T_DIR" and few: "card (inums_used k) < NINODE" and small: "\<And>m. refs k m < 2147483647"
  shows "case dir_find k n x of
     None \<Rightarrow> \<exists>k'. dirlookup (Icache j) x k = Ok None k' \<and> fs_inv (Some j) k' \<and> same_fs k k' \<and> refs k' = refs k \<and>
       i_inum (icache_inode k' ! j) = n
   | Some m \<Rightarrow> \<exists>j2 off k'. dirlookup (Icache j) x k = Ok (Some (j2, off)) k' \<and> fs_inv (Some j) k' \<and> same_fs k k' \<and>
       refs k' = (refs k)(m := refs k m + 1) \<and> i_inum (icache_inode k' ! j) = n \<and> j2 < NINODE \<and>
       (if j2 = j then 1 else 0) < i_ref (icache_inode k' ! j2) \<and> i_inum (icache_inode k' ! j2) = m"
proof -
  let ?i = "icache_inode k ! j" and ?es = "dinode_entries n k"
  note ej = fs_inv_entry [OF inv j, simplified]
  have i: "i_type ?i = T_DIR" "i_size ?i = di_size (dinode_at n k)" "i_data ?i = di_data (dinode_at n k)"
    "i_dev ?i = ROOTDEV" "has_dinode n k" "sl_locked (i_lock ?i)"
    using ej n dir by (simp_all add: entry_ok_def fill_inode_same)
  have wfn: "dir_shape (i_size ?i) (i_data ?i) k"
    "\<And>e. e \<in> set ?es \<Longrightarrow> de_inum e \<noteq> 0 \<Longrightarrow> has_dinode (de_inum e) k \<and> di_type (dinode_at (de_inum e) k) \<noteq> 0"
    using wf i(5) dir unfolding fs_wf_def i(2,3) by blast+
  have es: "inode_entries (Icache j) k = ?es" using i by (simp add: dinode_entries_def)
  have "dir_open (Icache j) k" using inv wfn(1) i by (simp add: dir_open_def fs_inv_def data_inode_def)
  note found = dirlookup_loop_ok [OF this, of 0 "i_size ?i div 16 + 1" x, unfolded es mult_0_right add_0_left drop_0]
  have eq: "dirlookup (Icache j) x k = dirlookup_loop (i_size ?i div 16 + 1) (Icache j) x 0 k"
    using i(1) by (simp add: dirlookup_def)
  have loop: "case find_index (de_match x) ?es of
     None \<Rightarrow> \<exists>k'. dirlookup (Icache j) x k = Ok None k' \<and> disk_ready k' \<and> memdisk k' = memdisk k \<and> io_step k k'
   | Some d \<Rightarrow> \<exists>k'. dirlookup (Icache j) x k =
        bnd (iget ROOTDEV (de_inum (?es ! d)) k') (\<lambda>j k. Ok (Some (j, 16 * d)) k) \<and>
        disk_ready k' \<and> memdisk k' = memdisk k \<and> io_step k k'"
    unfolding eq by (rule found) simp_all
  show ?thesis
  proof (cases "find_index (de_match x) ?es")
    case None
    then obtain k' where k': "dirlookup (Icache j) x k = Ok None k'" "disk_ready k'" "memdisk k' = memdisk k" "io_step k k'"
      using loop by auto
    from fs_inv_io [OF inv k'(4,2,3)] k'(1) n None show ?thesis by (auto simp: dir_find_def)
  next
    case (Some d)
    then obtain k1 where k1: "dirlookup (Icache j) x k =
        bnd (iget ROOTDEV (de_inum (?es ! d)) k1) (\<lambda>j k. Ok (Some (j, 16 * d)) k)"
      "disk_ready k1" "memdisk k1 = memdisk k" "io_step k k1" using loop by auto
    note inv1 = fs_inv_io [OF inv k1(4,2,3)]
    let ?m = "de_inum (?es ! d)"
    have "?es ! d \<in> set ?es" "?m \<noteq> 0" using find_index_Some [OF Some] by (auto simp: de_match_def)
    from wfn(2) [OF this] have "has_dinode ?m k1" "di_type (dinode_at ?m k1) \<noteq> 0"
      by (simp_all add: same_fsD [OF inv1(2)])
    moreover have "card (inums_used k1) < NINODE" "\<And>m. refs k1 m < 2147483647"
      using few small by (simp_all add: inums_used_def inv1(3))
    ultimately obtain j2 k2 where k2: "iget ROOTDEV ?m k1 = Ok j2 k2" "fs_inv (Some j) k2" "same_fs k1 k2" "j2 < NINODE"
      "0 < i_ref (icache_inode k2 ! j2)" "i_inum (icache_inode k2 ! j2) = ?m" "refs k2 = (refs k1)(?m := refs k1 ?m + 1)"
      "i_inum (icache_inode k2 ! j) = i_inum (icache_inode k1 ! j)" "(if j = j2 then 1 else 0) < i_ref (icache_inode k2 ! j)"
      using iget_fs [OF inv1(1), of ?m] j by blast
    have "(if j2 = j then 1 else 0) < i_ref (icache_inode k2 ! j2)" using k2(5,9) by (auto split: if_splits)
    then show ?thesis
      using k1(1) k2 inv1 n Some same_fs_trans [OF inv1(2) k2(3)] by (simp add: dir_find_def)
  qed
qed

section \<open>Resolution\<close>

text \<open>The references held elsewhere: none negative, none near the limit of an \<open>int\<close>, and at most
  \<open>NINODE - 2\<close> inodes with one.\<close>

definition roomy :: "(nat \<Rightarrow> int) \<Rightarrow> bool" where
  "roomy base \<longleftrightarrow> (\<forall>m. 0 \<le> base m \<and> base m < 2147483645) \<and> finite {m. 0 < base m} \<and> card {m. 0 < base m} \<le> NINODE - 2"

definition plus1 :: "(nat \<Rightarrow> int) \<Rightarrow> nat \<Rightarrow> nat \<Rightarrow> int" where
  "plus1 base n = base(n := base n + 1)"

lemma roomy_plus1:
  assumes "roomy base" "refs k = plus1 base n"
  shows "card (inums_used k) < NINODE" "refs k m < 2147483647" "refs k m < 2147483648"
proof -
  have "inums_used k \<subseteq> insert n {m. 0 < base m}" using assms by (auto simp: inums_used_def plus1_def split: if_splits)
  then have "card (inums_used k) \<le> card (insert n {m. 0 < base m})" using assms(1) by (intro card_mono) (simp_all add: roomy_def)
  also have "\<dots> \<le> Suc (card {m. 0 < base m})" by (rule card_insert_le_m1) simp_all
  finally show "card (inums_used k) < NINODE" using assms(1) by (simp add: roomy_def)
  have "base m < 2147483645" using assms(1) by (simp add: roomy_def)
  then show "refs k m < 2147483647" "refs k m < 2147483648" using assms(2) by (auto simp: plus1_def)
qed

lemma skipelem_rest_Nil: "skipelem path = Some (rest, x) \<Longrightarrow> rest = [] \<longleftrightarrow> elems rest = []"
proof -
  assume a: "skipelem path = Some (rest, x)"
  then obtain p where r: "rest = dropWhile (\<lambda>c. c = 47) p" by (auto simp: skipelem_def Let_def split: if_splits)
  have "skipelem rest \<noteq> None" if "rest \<noteq> []"
    using that hd_dropWhile [of "\<lambda>c. c = 47" p] unfolding r
    by (cases "dropWhile (\<lambda>c. c = 47) p") (auto simp: skipelem_def Let_def)
  moreover have "elems [] = []" by (simp add: elems.simps skipelem_def)
  ultimately show ?thesis using elems.simps [of rest] by (cases "rest = []") auto
qed

definition walk_result :: "byte list \<Rightarrow> bool \<Rightarrow> nat \<Rightarrow> nat \<Rightarrow> byte list \<Rightarrow> (nat \<Rightarrow> int) \<Rightarrow> kernel \<Rightarrow> bool" where
  "walk_result path nip n j x base k \<longleftrightarrow>
     (case walk k nip n x (elems path) of
        None \<Rightarrow> \<exists>k'. namex_loop path nip j x k = Ok None k' \<and> fs_inv None k' \<and> same_fs k k' \<and> refs k' = base
      | Some (m, y) \<Rightarrow> \<exists>j' k'. namex_loop path nip j x k = Ok (Some (j', y)) k' \<and> fs_inv None k' \<and> same_fs k k' \<and>
          refs k' = plus1 base m \<and> j' < NINODE \<and> 0 < i_ref (icache_inode k' ! j') \<and> i_inum (icache_inode k' ! j') = m)"

lemma namex_drop:
  assumes inv: "fs_inv None k" and j: "j < NINODE" "0 < i_ref (icache_inode k ! j)"
    and n: "i_inum (icache_inode k ! j) = n" and base: "roomy base" "refs k = plus1 base n"
  shows "\<exists>k'. irelease (Icache j) k = Ok () k' \<and> fs_inv None k' \<and> same_fs k k' \<and> refs k' = base"
proof -
  have "(plus1 base n)(n := plus1 base n n - 1) = base" by (simp add: plus1_def fun_eq_iff)
  then show ?thesis using irelease_fs [OF inv j roomy_plus1(3) [OF base]] n base(2) by auto
qed

text \<open>One step down the tree from the locked directory \<open>j\<close>: the entry is missing, or its inode \<open>m\<close>
  takes over the reference.\<close>

lemma namex_missing:
  assumes inv: "fs_inv (Some j) k" and j: "j < NINODE" and n: "i_inum (icache_inode k ! j) = n"
    and base: "roomy base" "refs k = plus1 base n"
  shows "\<exists>k1 k2. unlocki (Some (Icache j)) k = Ok () k1 \<and> irelease (Icache j) k1 = Ok () k2 \<and>
    fs_inv None k2 \<and> same_fs k k2 \<and> refs k2 = base"
proof -
  obtain k1 where k1: "unlocki (Some (Icache j)) k = Ok () k1" "fs_inv None k1" "same_fs k k1" "refs k1 = refs k"
    and i1: "\<And>i. i_inum (icache_inode k1 ! i) = i_inum (icache_inode k ! i) \<and> i_ref (icache_inode k1 ! i) = i_ref (icache_inode k ! i)"
    using unlocki_fs [OF inv j] by blast
  have "0 < i_ref (icache_inode k1 ! j)" "i_inum (icache_inode k1 ! j) = n"
    using fs_inv_entry [OF inv j] i1 [of j] n by (simp_all add: entry_ok_def)
  from namex_drop [OF k1(2) j this base(1)] k1 base(2) show ?thesis by (auto intro: same_fs_trans)
qed

lemma namex_found:
  assumes inv: "fs_inv (Some j) k" and j: "j < NINODE" and n: "i_inum (icache_inode k ! j) = n"
    and base: "roomy base" "refs k = (plus1 base n)(m := plus1 base n m + 1)"
    and j2: "j2 < NINODE" "(if j2 = j then 1 else 0) < i_ref (icache_inode k ! j2)" "i_inum (icache_inode k ! j2) = m"
  shows "\<exists>k1 k2. unlocki (Some (Icache j)) k = Ok () k1 \<and> irelease (Icache j) k1 = Ok () k2 \<and>
    fs_inv None k2 \<and> same_fs k k2 \<and> refs k2 = plus1 base m \<and> 0 < i_ref (icache_inode k2 ! j2) \<and>
    i_inum (icache_inode k2 ! j2) = m"
proof -
  obtain k1 where k1: "unlocki (Some (Icache j)) k = Ok () k1" "fs_inv None k1" "same_fs k k1" "refs k1 = refs k"
    and i1: "\<And>i. i_inum (icache_inode k1 ! i) = i_inum (icache_inode k ! i) \<and> i_ref (icache_inode k1 ! i) = i_ref (icache_inode k ! i)"
    using unlocki_fs [OF inv j] by blast
  have pos: "0 < i_ref (icache_inode k1 ! j)" using fs_inv_entry [OF inv j] i1 [of j] by (simp add: entry_ok_def)
  have b: "base q < 2147483645" for q using base(1) by (simp add: roomy_def)
  have "refs k1 q < 2147483648" for q using b [of q] k1(4) base(2) by (auto simp: plus1_def)
  then obtain k2 where k2: "irelease (Icache j) k1 = Ok () k2" "fs_inv None k2" "same_fs k1 k2"
    "refs k2 = (refs k1)(n := refs k1 n - 1)"
    and i2: "\<And>i. i_inum (icache_inode k2 ! i) = i_inum (icache_inode k1 ! i) \<and>
      i_ref (icache_inode k2 ! i) = i_ref (icache_inode k1 ! i) - (if i = j then 1 else 0)"
    using irelease_fs [OF k1(2) j pos] i1 [of j] n by auto
  have "refs k2 = plus1 base m" using k2(4) k1(4) base(2) by (auto simp: plus1_def fun_eq_iff)
  moreover have "0 < i_ref (icache_inode k2 ! j2)" "i_inum (icache_inode k2 ! j2) = m"
    using i1 [of j2] i2 [of j2] j2(2,3) by (auto split: if_splits)
  ultimately show ?thesis using k1 k2 same_fs_trans [OF k1(3) k2(3)] by blast
qed

text \<open>The body of the loop after \<open>locki\<close> when the inode is a directory to search.\<close>

lemma namex_search:
  assumes inv: "fs_inv (Some j) k" and j: "j < NINODE" and wf: "fs_wf k" and n: "i_inum (icache_inode k ! j) = n"
    and dir: "di_type (dinode_at n k) = T_DIR" and base: "roomy base" "refs k = plus1 base n"
  shows "case dir_find k n y of
     None \<Rightarrow> \<exists>k1 k2 k'. dirlookup (Icache j) y k = Ok None k1 \<and> unlocki (Some (Icache j)) k1 = Ok () k2 \<and>
       irelease (Icache j) k2 = Ok () k' \<and> fs_inv None k' \<and> same_fs k k' \<and> refs k' = base
   | Some m \<Rightarrow> \<exists>j2 off k1 k2 k'. dirlookup (Icache j) y k = Ok (Some (j2, off)) k1 \<and>
       unlocki (Some (Icache j)) k1 = Ok () k2 \<and> irelease (Icache j) k2 = Ok () k' \<and> fs_inv None k' \<and> same_fs k k' \<and>
       refs k' = plus1 base m \<and> j2 < NINODE \<and> 0 < i_ref (icache_inode k' ! j2) \<and> i_inum (icache_inode k' ! j2) = m"
proof -
  note look = dirlookup_fs [OF inv j wf n dir roomy_plus1(1,2) [OF base], of y]
  show ?thesis
  proof (cases "dir_find k n y")
    case None
    then obtain k1 where k1: "dirlookup (Icache j) y k = Ok None k1" "fs_inv (Some j) k1" "same_fs k k1"
      "refs k1 = refs k" "i_inum (icache_inode k1 ! j) = n" using look by auto
    from namex_missing [OF k1(2) j k1(5) base(1)] k1 base(2) None show ?thesis by (auto intro: same_fs_trans)
  next
    case (Some m)
    then obtain j2 off k1 where k1: "dirlookup (Icache j) y k = Ok (Some (j2, off)) k1" "fs_inv (Some j) k1"
      "same_fs k k1" "refs k1 = (refs k)(m := refs k m + 1)" "i_inum (icache_inode k1 ! j) = n" "j2 < NINODE"
      "(if j2 = j then 1 else 0) < i_ref (icache_inode k1 ! j2)" "i_inum (icache_inode k1 ! j2) = m"
      using look by auto
    obtain k2 k' where "unlocki (Some (Icache j)) k1 = Ok () k2" "irelease (Icache j) k2 = Ok () k'" "fs_inv None k'"
      "same_fs k1 k'" "refs k' = plus1 base m" "0 < i_ref (icache_inode k' ! j2)" "i_inum (icache_inode k' ! j2) = m"
      using namex_found [OF k1(2) j k1(5) base(1) k1(4) [unfolded base(2)] k1(6-8)] by blast
    with k1(1,6) same_fs_trans [OF k1(3)] Some show ?thesis by auto
  qed
qed

lemma namex_loop_fs:
  "fs_inv None k \<Longrightarrow> fs_wf k \<Longrightarrow> j < NINODE \<Longrightarrow> 0 < i_ref (icache_inode k ! j) \<Longrightarrow>
     i_inum (icache_inode k ! j) = n \<Longrightarrow> roomy base \<Longrightarrow> refs k = plus1 base n \<Longrightarrow> walk_result path nip n j x base k"
proof (induction path arbitrary: k j n x rule: elems.induct)
  case (1 path)
  note inv = 1(2) and wf = 1(3) and j = 1(4,5) and n = 1(6) and base = 1(7,8)
  show ?case
  proof (cases "skipelem path")
    case None
    then show ?thesis using namex_drop [OF inv j n base] inv j n base
      by (cases nip) (auto simp: walk_result_def elems.simps [of path] namex_loop.simps [of path])
  next
    case (Some ry)
    obtain rest y where ry: "ry = (rest, y)" by fastforce
    note sk = Some [unfolded ry]
    have el: "elems path = y # elems rest" by (simp add: elems.simps [of path] sk)
    obtain k1 where k1: "locki (Some (Icache j)) k = Ok () k1" "fs_inv (Some j) k1" "same_fs k k1" "refs k1 = refs k"
      and i1: "\<And>i. i_inum (icache_inode k1 ! i) = i_inum (icache_inode k ! i) \<and> i_ref (icache_inode k1 ! i) = i_ref (icache_inode k ! i)"
      using locki_fs [OF inv j] by blast
    have n1: "i_inum (icache_inode k1 ! j) = n" "refs k1 = plus1 base n" using i1 [of j] n k1(4) base(2) by simp_all
    have ty: "i_type (icache_inode k1 ! j) = di_type (dinode_at n k)"
      using fs_inv_entry [OF k1(2) j(1)] n1(1) by (simp add: entry_ok_def fill_inode_same same_fsD(1) [OF k1(3)])
    show ?thesis
    proof (cases "di_type (dinode_at n k) = T_DIR \<and> \<not> (nip \<and> rest = [])")
      case False
      obtain k2 where k2: "unlocki (Some (Icache j)) k1 = Ok () k2" "fs_inv None k2" "same_fs k1 k2" "refs k2 = refs k1"
        "i_inum (icache_inode k2 ! j) = n" "0 < i_ref (icache_inode k2 ! j)"
        using unlocki_fs [OF k1(2) j(1)] n1(1) i1 [of j] j(2) by auto
      obtain k3 where "irelease (Icache j) k2 = Ok () k3" "fs_inv None k3" "same_fs k2 k3" "refs k3 = base"
        using namex_drop [OF k2(2) j(1) k2(6,5) base(1)] n1(2) k2(4) by auto
      then show ?thesis
        using False ty sk el k1(1) k2 n1(2) j(1) same_fs_trans [OF k1(3) k2(3)] same_fs_trans skipelem_rest_Nil [OF sk]
        by (auto simp: walk_result_def namex_loop.simps [of path])
    next
      case True
      have w: "walk k nip n x (elems path) = (case dir_find k n y of None \<Rightarrow> None | Some m \<Rightarrow> walk k nip m y (elems rest))"
        using True el skipelem_rest_Nil [OF sk] by auto
      have "fs_wf k1" "di_type (dinode_at n k1) = T_DIR"
        using True wf walk_same(2) [OF k1(3)] by (simp_all add: same_fsD(1) [OF k1(3)])
      note search = namex_search [OF k1(2) j(1) this(1) n1(1) this(2) base(1) n1(2), of y, unfolded walk_same(3) [OF k1(3)]]
      show ?thesis
      proof (cases "dir_find k n y")
        case None
        then show ?thesis using search True sk k1(1,3) ty w
          by (auto simp: walk_result_def namex_loop.simps [of path] intro: same_fs_trans)
      next
        case (Some m)
        then obtain j2 off k2 k3 k4 where k2: "dirlookup (Icache j) y k1 = Ok (Some (j2, off)) k2"
          "unlocki (Some (Icache j)) k2 = Ok () k3" "irelease (Icache j) k3 = Ok () k4"
          and k4: "fs_inv None k4" "same_fs k1 k4" "refs k4 = plus1 base m" "j2 < NINODE" "0 < i_ref (icache_inode k4 ! j2)"
            "i_inum (icache_inode k4 ! j2) = m" using search by auto
        have same: "same_fs k k4" using same_fs_trans [OF k1(3) k4(2)] .
        have "walk_result rest nip m j2 y base k4"
          using "1.IH" [OF sk refl k4(1) _ k4(4-6) base(1) k4(3)] wf walk_same(2) [OF same] by simp
        moreover have "namex_loop path nip j x k = namex_loop rest nip j2 y k4"
          using True sk k1(1) ty k2 by (auto simp: namex_loop.simps [of path])
        ultimately show ?thesis
          using Some w same_fs_trans [OF same]
          by (auto simp: walk_result_def walk_same(1) [OF same] split: option.splits) 
      qed
    qed
  qed
qed

lemma idup_fs:
  assumes inv: "fs_inv h k" and j: "j < NINODE" and pos: "0 < i_ref (icache_inode k ! j)"
    and small: "\<And>m. refs k m < 2147483647"
  defines "n \<equiv> i_inum (icache_inode k ! j)"
  shows "\<exists>k'. idup (Icache j) k = Ok (Icache j) k' \<and> fs_inv h k' \<and> same_fs k k' \<and> refs k' = plus1 (refs k) n \<and>
    i_inum (icache_inode k' ! j) = n \<and> 0 < i_ref (icache_inode k' ! j)"
proof -
  let ?i = "icache_inode k ! j"
  let ?i' = "?i\<lparr>i_ref := i_ref ?i + 1\<rparr>"
  let ?k = "k\<lparr>icache_inode := (icache_inode k)[j := ?i']\<rparr>"
  have ic: "ic_inv k" and len: "length (icache_inode k) = NINODE" and rdy: "disk_ready k"
    using inv by (simp_all add: fs_inv_def ic_inv_def)
  note ej = fs_inv_entry [OF inv j]
  have "i_ref ?i < 2147483647" using ref_le_refs [OF inv j pos] small [of n] by (simp add: n_def)
  then have "i32 (i_ref ?i + 1) = i_ref ?i + 1" using pos by (intro i32_id) auto
  then have "idup (Icache j) k = Ok (Icache j) ?k" using disk_readyD(1) [OF rdy] by (simp add: idup_def)
  moreover have "ic_inv ?k" using pos by (intro ic_inv_upd [OF ic j]) simp_all
  moreover have "entry_ok (h = Some j) k ?i'" using ej pos by (auto simp: entry_ok_def fill_inode_same)
  ultimately have upd: "idup (Icache j) k = Ok (Icache j) ?k" "fs_inv h ?k" "same_fs k ?k"
    using fs_inv_upd [OF inv j io_step_refl, of ?i' h] rdy by simp_all
  have "i_dev ?i = ROOTDEV" using ej pos by (simp add: entry_ok_def)
  then have "refs ?k = plus1 (refs k) n"
    using refs_upd [of ?k k j ?i'] j len by (auto simp: fun_eq_iff contrib_def n_def plus1_def)
  with upd pos j len show ?thesis by (intro exI [of _ ?k]) (simp add: n_def)
qed

text \<open>\<open>iget\<close> of the root, as every resolution begins.\<close>

lemma iget_root_fs:
  assumes "fs_inv None k" "has_dinode ROOTINO k" "di_type (dinode_at ROOTINO k) \<noteq> 0" "roomy (refs k)"
  shows "\<exists>j k'. iget ROOTDEV ROOTINO k = Ok j k' \<and> fs_inv None k' \<and> same_fs k k' \<and> j < NINODE \<and>
    0 < i_ref (icache_inode k' ! j) \<and> i_inum (icache_inode k' ! j) = ROOTINO \<and> refs k' = plus1 (refs k) ROOTINO"
proof -
  have "card (inums_used k) < NINODE" "\<And>m. refs k m < 2147483647"
    using assms(4) by (auto simp: roomy_def inums_used_def intro: order_less_trans)
  from iget_fs [OF assms(1-3) this] show ?thesis unfolding plus1_def by blast
qed

lemma namei_walk:
  assumes "fs_inv None k" "fs_wf k" "has_dinode ROOTINO k" "di_type (dinode_at ROOTINO k) \<noteq> 0" "roomy (refs k)"
  shows "case walk k False ROOTINO [] (map (take DIRSIZ) (pieces [] (47 # path))) of
     None \<Rightarrow> \<exists>k'. namei (47 # path) k = Ok None k' \<and> fs_inv None k' \<and> same_fs k k' \<and> refs k' = refs k
   | Some (m, _) \<Rightarrow> \<exists>j k'. namei (47 # path) k = Ok (Some j) k' \<and> fs_inv None k' \<and> same_fs k k' \<and> j < NINODE \<and>
       i_inum (icache_inode k' ! j) = m \<and> 0 < i_ref (icache_inode k' ! j) \<and> refs k' = (refs k)(m := refs k m + 1)"
proof -
  obtain j k1 where k1: "iget ROOTDEV ROOTINO k = Ok j k1" "fs_inv None k1" "same_fs k k1" "j < NINODE"
    "0 < i_ref (icache_inode k1 ! j)" "i_inum (icache_inode k1 ! j) = ROOTINO" "refs k1 = plus1 (refs k) ROOTINO"
    using iget_root_fs [OF assms(1,3-5)] by blast
  have "fs_wf k1" using assms(2) walk_same(2) [OF k1(3)] by simp
  from namex_loop_fs [OF k1(2) this k1(4-6) assms(5) k1(7), of "47 # path" False "[]"]
  have "walk_result (47 # path) False ROOTINO j [] (refs k) k1" .
  moreover have "namei (47 # path) k = bnd (namex_loop (47 # path) False j [] k1) (\<lambda>r k. Ok (map_option fst r) k)"
    using k1(1) by (simp add: namei_def namex_def namex_abs_def)
  ultimately show ?thesis
    unfolding elems_pieces [symmetric]
    by (auto simp: walk_result_def walk_same(1) [OF k1(3)] plus1_def split: option.splits intro: same_fs_trans [OF k1(3)])
qed

section \<open>Properties\<close>

text \<open>C1: \<open>namei\<close> of an absolute path is path resolution: it returns the inode that walking the
  directories on disk along the path's elements leads to, or null when an element is missing or
  something on the way is not a directory, whatever the inode cache holds; nothing on disk changes,
  the cache invariant is kept, and exactly one reference is added, to the inode returned.\<close>

theorem namei_resolves:
  assumes "fs_inv None k" "fs_wf k" "has_dinode ROOTINO k" "di_type (dinode_at ROOTINO k) \<noteq> 0" "roomy (refs k)"
  shows "case walk k False ROOTINO [] (map (take DIRSIZ) (pieces [] (47 # path))) of
     None \<Rightarrow> \<exists>k'. namei (47 # path) k = Ok None k' \<and> fs_inv None k' \<and> same_fs k k' \<and> refs k' = refs k
   | Some (m, _) \<Rightarrow> \<exists>j k'. namei (47 # path) k = Ok (Some j) k' \<and> fs_inv None k' \<and> same_fs k k' \<and> j < NINODE \<and>
       i_inum (icache_inode k' ! j) = m \<and> 0 < i_ref (icache_inode k' ! j) \<and> refs k' = (refs k)(m := refs k m + 1)"
  using assms by (rule namei_walk)

lemma k0_fs_entries: "dinode_entries 1 k0_fs = [dirent0 1 [46], dirent0 2 [102]]"
proof -
  have "dirent_ok (dirent0 1 [46])" "dirent_ok (dirent0 2 [102])" by (simp_all add: dirent_ok_def dirent0_def)
  note dec = this [THEN dec_enc_dirent]
  have "ext_content (memdisk k0_fs) \<lparr>startblkno = 8, nblocks = 1\<rparr> @ ext_content (memdisk k0_fs) no_extent =
      enc_dirent (dirent0 1 [46]) @ enc_dirent (dirent0 2 [102]) @ replicate 480 0"
    by (simp add: ext_content_def k0_fs_def fs_disk_def no_extent_def blk_def)
  then show ?thesis
    unfolding dinode_entries_def k0_fs_dinodes(2) dir_entries_def
    by (simp add: upt_rec dinode0_def) (use dec in \<open>simp add: slice_def\<close>)
qed

lemma k0_fs_wf: "fs_wf k0_fs"
  unfolding fs_wf_def
proof (intro allI impI)
  fix n assume n: "has_dinode n k0_fs" and dir: "di_type (dinode_at n k0_fs) = T_DIR"
  have "n = 0 \<or> n = 1 \<or> n = 2 \<or> n = 3" using n by (simp add: has_dinode_def k0_fs_def) arith
  moreover have "dinode_at 0 k0_fs = dinode0 2 192 4" "dinode_at 3 k0_fs = dec_dinode (replicate 64 0)"
    by (simp_all add: dinode_at_def inodefile_bytes_def k0_fs_def ext_content_def fs_disk_def no_extent_def blk_def
        slice_def dec_enc_dinode dinode0_ok)
  moreover have "di_type (dec_dinode (replicate 64 0)) = 0"
    by (simp add: dec_dinode_def slice_def s16_of_def numeral_2_eq_2)
  ultimately have n1: "n = 1" using dir k0_fs_dinodes(4) by (elim disjE) (simp_all add: dinode0_def)
  show "dir_shape (di_size (dinode_at n k0_fs)) (di_data (dinode_at n k0_fs)) k0_fs \<and>
      (\<forall>e \<in> set (dinode_entries n k0_fs). de_inum e \<noteq> 0 \<longrightarrow>
        has_dinode (de_inum e) k0_fs \<and> di_type (dinode_at (de_inum e) k0_fs) \<noteq> 0)"
    unfolding n1 k0_fs_entries using k0_fs_dinodes
    by (simp add: dirent0_def) (simp add: dinode0_def dir_shape_def ext_ok_def no_extent_def k0_fs_def)
qed

lemma k0_fs_inv: "fs_inv None k0_fs" "refs k0_fs = (\<lambda>_. 0)" "roomy (refs k0_fs)"
  "has_dinode ROOTINO k0_fs" "di_type (dinode_at ROOTINO k0_fs) \<noteq> 0"
proof -
  have i: "icache_inode k0_fs = replicate 50 inode0" by (simp add: k0_fs_def)
  show "fs_inv None k0_fs" using k0_fs_ready by (simp add: fs_inv_def i entry_ok_def inode0_def free_sl_def)
  show r: "refs k0_fs = (\<lambda>_. 0)"
    by (simp add: refs_def i contrib_def inode0_def sum_list_replicate fun_eq_iff)
  show "roomy (refs k0_fs)" by (simp add: r roomy_def)
  show "has_dinode ROOTINO k0_fs" "di_type (dinode_at ROOTINO k0_fs) \<noteq> 0"
    using k0_fs_dinodes(1,2) by (simp_all add: dinode0_def)
qed

lemma k0_fs_walk: "walk k0_fs nip ROOTINO [] [[102]] = Some (if nip then (1, [102]) else (2, [102]))"
proof -
  have "de_match [102] (dirent0 1 [46]) = False" "de_match [102] (dirent0 2 [102]) = True"
    by code_simp+
  then have "dir_find k0_fs 1 [102] = Some 2"
    unfolding dir_find_def k0_fs_entries by (simp add: dirent0_def)
  moreover have "di_type (dinode_at 1 k0_fs) = T_DIR" unfolding k0_fs_dinodes(2) by (simp add: dinode0_def)
  ultimately show ?thesis by simp
qed

theorem namei_resolves_witness:
  "\<exists>j k'. namei [47, 102] k0_fs = Ok (Some j) k' \<and> i_inum (icache_inode k' ! j) = 2 \<and>
     refs k' = (refs k0_fs)(2 := refs k0_fs 2 + 1)"
proof -
  have "map (take DIRSIZ) (pieces [] [47, 102]) = [[102]]" by simp
  then have "walk k0_fs False ROOTINO [] (map (take DIRSIZ) (pieces [] [47, 102])) = Some (2, [102])"
    using k0_fs_walk [of False] by (simp only: if_False)
  with namei_resolves [OF k0_fs_inv(1) k0_fs_wf k0_fs_inv(4,5,3), of "[102]"] show ?thesis by auto
qed

text \<open>C39: \<open>namei\<close> of a relative path leaks a reference to the root directory: such a path starts with
  \<open>idup(namei("/"))\<close>, which takes two references to the root and gives back one, so after every
  call the root has one reference more than the inode returned accounts for.\<close>

theorem namei_relative_leaks_root:
  assumes "fs_inv None k" "fs_wf k" "has_dinode ROOTINO k" "di_type (dinode_at ROOTINO k) \<noteq> 0"
    and "roomy (refs k)" "roomy (plus1 (refs k) ROOTINO)" "path = [] \<or> hd path \<noteq> 47"
  shows "case walk k False ROOTINO [] (map (take DIRSIZ) (pieces [] path)) of
     None \<Rightarrow> \<exists>k'. namei path k = Ok None k' \<and> refs k' = plus1 (refs k) ROOTINO
   | Some (m, _) \<Rightarrow> \<exists>j k'. namei path k = Ok (Some j) k' \<and> i_inum (icache_inode k' ! j) = m \<and>
       refs k' = plus1 (plus1 (refs k) ROOTINO) m"
proof -
  obtain j k1 where k1: "iget ROOTDEV ROOTINO k = Ok j k1" "fs_inv None k1" "same_fs k k1" "j < NINODE"
    "0 < i_ref (icache_inode k1 ! j)" "i_inum (icache_inode k1 ! j) = ROOTINO" "refs k1 = plus1 (refs k) ROOTINO"
    using iget_root_fs [OF assms(1,3-5)] by blast
  obtain k2 where k2: "idup (Icache j) k1 = Ok (Icache j) k2" "fs_inv None k2" "same_fs k1 k2"
    "refs k2 = plus1 (plus1 (refs k) ROOTINO) ROOTINO" "i_inum (icache_inode k2 ! j) = ROOTINO" "0 < i_ref (icache_inode k2 ! j)"
    using idup_fs [OF k1(2,4,5) roomy_plus1(2) [OF assms(5) k1(7)]] k1(6,7) by auto
  have same: "same_fs k k2" using same_fs_trans [OF k1(3) k2(3)] .
  have "fs_wf k2" using assms(2) walk_same(2) [OF same] by simp
  from namex_loop_fs [OF k2(2) this k1(4) k2(6,5) assms(6) k2(4), of path False "[]"]
  have w: "walk_result path False ROOTINO j [] (plus1 (refs k) ROOTINO) k2" .
  have "skipelem [47] = None" by (simp add: skipelem_def)
  then have "namex_abs [47] False k = Ok (Some (j, [])) k1"
    using k1(1) by (simp add: namex_abs_def namex_loop.simps [of "[47]"])
  then have "namei path k = bnd (namex_loop path False j [] k2) (\<lambda>r k. Ok (map_option fst r) k)"
    using assms(7) k2(1) by (auto simp: namei_def namex_def)
  then show ?thesis
    using w unfolding elems_pieces [symmetric]
    by (auto simp: walk_result_def walk_same(1) [OF same] split: option.splits)
qed

theorem namei_relative_leaks_root_witness:
  "\<exists>j k'. namei [102] k0_fs = Ok (Some j) k' \<and> i_inum (icache_inode k' ! j) = 2 \<and>
     refs k' = plus1 (plus1 (refs k0_fs) ROOTINO) 2"
proof -
  have "{m. 0 < plus1 (\<lambda>_. 0) ROOTINO m} = {ROOTINO}" by (auto simp: plus1_def)
  then have r: "roomy (plus1 (refs k0_fs) ROOTINO)"
    unfolding k0_fs_inv(2) roomy_def by (simp add: plus1_def)
  have "map (take DIRSIZ) (pieces [] [102]) = [[102]]" by simp
  then have "walk k0_fs False ROOTINO [] (map (take DIRSIZ) (pieces [] [102])) = Some (2, [102])"
    using k0_fs_walk [of False] by (simp only: if_False)
  with namei_relative_leaks_root [OF k0_fs_inv(1) k0_fs_wf k0_fs_inv(4,5,3) r, of "[102]"] show ?thesis by auto
qed

end
