(* ===== verification/VSpace.thy ===== *)
theory VSpace
  imports PageTable Namei
begin

text \<open>
  Address spaces (\<open>kernel/vspace.c\<close>): the three regions of a process, the lists of page descriptors that say
  which physical page backs each virtual page, and the rebuilding of the page table from them. A pointer
  to a descriptor (\<open>struct vpage_info *\<close>) is the address of its \<open>vpi_page\<close> with the index; a function that
  changes a region or an address space through a pointer returns the new one. \<open>vspaceinstall\<close> and
  \<open>vspaceinstallkern\<close> are in \<open>Sched\<close>.
\<close>

section \<open>Regions\<close>

abbreviation (input) VR_CODE :: nat where "VR_CODE \<equiv> 0"
abbreviation (input) VR_HEAP :: nat where "VR_HEAP \<equiv> 1"
abbreviation (input) VR_USTACK :: nat where "VR_USTACK \<equiv> 2"

text \<open>A descriptor takes 24 bytes: \<open>VPIPPAGE\<close> is \<open>4096 / 24 - 1\<close>.\<close>

abbreviation (input) VPIPPAGE :: int where "VPIPPAGE \<equiv> 169"

definition VRTOP :: "vregion \<Rightarrow> nat" where
  "VRTOP r = (case vr_dir r of VRDIR_UP \<Rightarrow> w64 (va_base r + vr_size r) | VRDIR_DOWN \<Rightarrow> va_base r)"

definition VRBOT :: "vregion \<Rightarrow> nat" where
  "VRBOT r = (case vr_dir r of VRDIR_UP \<Rightarrow> va_base r | VRDIR_DOWN \<Rightarrow> sub64 (va_base r) (vr_size r))"

definition upd_region :: "nat \<Rightarrow> (vregion \<Rightarrow> vregion) \<Rightarrow> vspace \<Rightarrow> vspace" where
  "upd_region i f vs = vs\<lparr>regions := (regions vs)[i := f (regions vs ! i)]\<rparr>"

section \<open>Page descriptors\<close>

definition vpi0 :: vpage_info where
  "vpi0 = \<lparr>used = False, ppn = 0, present = False, writable = False, cow_page = False\<rparr>"

definition rd_vpi_page :: "nat \<Rightarrow> kernel \<Rightarrow> (kernel, vpage_info list \<times> nat) res" where
  "rd_vpi_page a k =
     (case phys k (PGNUM (V2P a)) of VpiPage is nx \<Rightarrow> Ok (is, nx) k | _ \<Rightarrow> Undef ''not a page of descriptors'')"

definition wr_vpi_page :: "nat \<Rightarrow> vpage_info list \<Rightarrow> nat \<Rightarrow> kernel \<Rightarrow> kernel" where
  "wr_vpi_page a is nx k = k\<lparr>phys := (phys k)(PGNUM (V2P a) := VpiPage is nx)\<rparr>"

text \<open>\<open>memset(a, 0, PGSIZE)\<close> of a page that becomes a page of descriptors.\<close>

definition clear_vpi_page :: "nat \<Rightarrow> kernel \<Rightarrow> kernel" where
  "clear_vpi_page a k = wr_vpi_page a (replicate 169 vpi0) 0 k"

type_synonym vpi_ptr = "nat \<times> nat"

definition rd_vpi :: "vpi_ptr \<Rightarrow> kernel \<Rightarrow> (kernel, vpage_info) res" where
  "rd_vpi p k =
     bnd (rd_vpi_page (fst p) k) (\<lambda>(is, nx) k. if snd p < length is then Ok (is ! snd p) k else Undef ''vpi index'')"

definition wr_vpi :: "vpi_ptr \<Rightarrow> (vpage_info \<Rightarrow> vpage_info) \<Rightarrow> kernel \<Rightarrow> (kernel, unit) res" where
  "wr_vpi p f k =
     bnd (rd_vpi_page (fst p) k) (\<lambda>(is, nx) k.
     if snd p < length is then Ok () (wr_vpi_page (fst p) (is[snd p := f (is ! snd p)]) nx k) else Undef ''vpi index'')"

definition va2vpi_idx :: "vregion \<Rightarrow> nat \<Rightarrow> int" where
  "va2vpi_idx r va =
     (case vr_dir r of
        VRDIR_UP \<Rightarrow> s32 (sub64 va (va_base r) div 4096)
      | VRDIR_DOWN \<Rightarrow> s32 (sub64 (sub64 (va_base r) 1) va div 4096))"

text \<open>\<open>while (idx >= VPIPPAGE)\<close>: the comparison is unsigned, so a negative index takes the branch too. The
  index goes down by 169 (modulo 2^32) each round, which bounds the number of rounds.\<close>

primrec vpi_walk :: "nat \<Rightarrow> nat \<Rightarrow> int \<Rightarrow> kernel \<Rightarrow> (kernel, vpi_ptr option) res" where
  "vpi_walk 0 info idx k = OutOfFuel"
| "vpi_walk (Suc fuel) info idx k =
     (if 0 \<le> idx \<and> idx < VPIPPAGE then Ok (Some (info, nat idx)) k
      else if info = 0 then Panic ''idx was out of bounds''
      else
        bnd (rd_vpi_page info k) (\<lambda>(is, nx) k.
        if nx \<noteq> 0 then vpi_walk fuel nx (i32 (idx - VPIPPAGE)) k
        else
          bnd (kalloc k) (\<lambda>a k.
          if a = 0 then Ok None (wr_vpi_page info is 0 k)
          else vpi_walk fuel a (i32 (idx - VPIPPAGE)) (clear_vpi_page a (wr_vpi_page info is a k)))))"

definition vpi_fuel :: "int \<Rightarrow> nat" where
  "vpi_fuel idx = Suc (Suc (nat (if idx < 0 then idx + 4294967296 else idx) div 169))"

text \<open>A region without descriptors gets a first page of them; the code does not test that \<open>kalloc\<close> found one.\<close>

definition va2vpage_info :: "vregion \<Rightarrow> nat \<Rightarrow> kernel \<Rightarrow> (kernel, vregion \<times> vpi_ptr option) res" where
  "va2vpage_info vr va k =
     bnd (if vr_pages vr \<noteq> 0 then Ok vr k
          else bnd (kalloc k) (\<lambda>a k.
               if a = 0 then Undef ''memset of a null page'' else Ok (vr\<lparr>vr_pages := a\<rparr>) (clear_vpi_page a k))) (\<lambda>vr k.
     bnd (vpi_walk (vpi_fuel (va2vpi_idx vr va)) (vr_pages vr) (va2vpi_idx vr va) k) (\<lambda>p k. Ok (vr, p) k))"

text \<open>A caller that uses the descriptor without testing the pointer.\<close>

definition va2vpage_deref :: "vregion \<Rightarrow> nat \<Rightarrow> kernel \<Rightarrow> (kernel, vregion \<times> vpi_ptr) res" where
  "va2vpage_deref vr va k =
     bnd (va2vpage_info vr va k) (\<lambda>(vr, p) k. case p of None \<Rightarrow> Undef ''null vpage_info'' | Some p \<Rightarrow> Ok (vr, p) k)"

definition x86perms :: "vpage_info \<Rightarrow> u64" where
  "x86perms vpi = PTE_U OR (if present vpi then PTE_P else 0) OR (if writable vpi then PTE_W else 0)"

section \<open>Building regions\<close>

definition vspacebootinit :: "kernel \<Rightarrow> (kernel, unit) res" where
  "vspacebootinit k = bnd (setupkvm k) (\<lambda>a k. Ok () (vspaceinstallkern (k\<lparr>kpml4 := a\<rparr>)))"

definition empty_region :: vregion where
  "empty_region = \<lparr>vr_dir = VRDIR_UP, va_base = 0, vr_size = 0, vr_pages = 0\<rparr>"

definition vspaceinit :: "vspace \<Rightarrow> kernel \<Rightarrow> (kernel, int \<times> vspace) res" where
  "vspaceinit vs k =
     bnd (setupkvm k) (\<lambda>t k.
     if t = 0 then Ok (-1, vs\<lparr>pgtbl := 0\<rparr>) k
     else Ok (0, \<lparr>regions = [empty_region, empty_region, empty_region\<lparr>vr_dir := VRDIR_DOWN\<rparr>], pgtbl = t\<rparr>) k)"

definition zero_page :: page where
  "zero_page = Bytes (replicate 4096 0)"

definition vpi_set :: "bool \<Rightarrow> bool \<Rightarrow> bool \<Rightarrow> nat \<Rightarrow> vpage_info \<Rightarrow> vpage_info" where
  "vpi_set u p w n v = v\<lparr>used := u, present := p, writable := w, ppn := n\<rparr>"

text \<open>The loop of \<open>vregionaddmap\<close>; its value is the address at which it failed, or none.\<close>

primrec addmap_loop :: "nat \<Rightarrow> vregion \<Rightarrow> nat \<Rightarrow> nat \<Rightarrow> bool \<Rightarrow> bool \<Rightarrow> kernel \<Rightarrow> (kernel, vregion \<times> nat option) res" where
  "addmap_loop 0 vr a stop p w k = OutOfFuel"
| "addmap_loop (Suc fuel) vr a stop p w k =
     (if \<not> a < stop then Ok (vr, None) k
      else
        bnd (va2vpage_info vr a k) (\<lambda>(vr, vpi) k.
        case vpi of None \<Rightarrow> Ok (vr, Some a) k
        | Some vpi \<Rightarrow>
            bnd (kalloc k) (\<lambda>mem k.
            if mem = 0 then Ok (vr, Some a) k
            else
              let k = k\<lparr>phys := (phys k)(PGNUM (V2P mem) := zero_page)\<rparr>
              in bnd (wr_vpi vpi (vpi_set True p w (PGNUM (V2P mem))) k) (\<lambda>_ k.
                 addmap_loop fuel vr (w64 (a + PGSIZE)) stop p w k))))"

text \<open>The loop after \<open>addmap_failure\<close>, entered with the address of the page that could not be mapped.\<close>

primrec addmap_undo :: "nat \<Rightarrow> vregion \<Rightarrow> nat \<Rightarrow> nat \<Rightarrow> kernel \<Rightarrow> (kernel, vregion) res" where
  "addmap_undo 0 vr a base k = OutOfFuel"
| "addmap_undo (Suc fuel) vr a base k =
     (let a = sub64 a PGSIZE
      in if \<not> a \<ge> base then Ok vr k
         else
           bnd (va2vpage_info vr a k) (\<lambda>(vr, vpi) k.
           case vpi of None \<Rightarrow> Panic ''vpi info missing''
           | Some vpi \<Rightarrow>
               bnd (rd_vpi vpi k) (\<lambda>v k.
               bnd (kfree (P2V (w64 (ppn v * 4096))) k) (\<lambda>_ k.
               bnd (wr_vpi vpi (vpi_set False False False 0) k) (\<lambda>_ k.
               addmap_undo fuel vr a base k)))))"

definition vregionaddmap :: "vregion \<Rightarrow> nat \<Rightarrow> nat \<Rightarrow> bool \<Rightarrow> bool \<Rightarrow> kernel \<Rightarrow> (kernel, vregion \<times> int) res" where
  "vregionaddmap vr from_va sz p w k =
     (if w64 (sz + from_va) \<ge> KERNBASE then Ok (vr, -1) k
      else if sz = 0 then Ok (vr, 0) k
      else
        bnd (addmap_loop (Suc (Suc (sz div PGSIZE))) vr (PGROUNDUP from_va) (w64 (from_va + sz)) p w k) (\<lambda>(vr, r) k.
        case r of None \<Rightarrow> Ok (vr, s32 sz) k
        | Some a \<Rightarrow>
            bnd (addmap_undo (Suc (Suc (sz div PGSIZE))) vr a (PGROUNDUP from_va) k) (\<lambda>vr k. Ok (vr, -1) k)))"

text \<open>\<open>memmove\<close> of bytes into physical page \<open>pn\<close>, and of 8 bytes out of it.\<close>

definition wr_bytes :: "nat \<Rightarrow> nat \<Rightarrow> byte list \<Rightarrow> kernel \<Rightarrow> (kernel, unit) res" where
  "wr_bytes pn off bs k =
     (case phys k pn of
        Bytes b \<Rightarrow> if off + length bs \<le> length b then Ok () (k\<lparr>phys := (phys k)(pn := Bytes (overwrite b off bs))\<rparr>)
                   else Undef ''memmove past a page''
      | _ \<Rightarrow> Undef ''memmove into a table'')"

definition rd_bytes :: "nat \<Rightarrow> nat \<Rightarrow> nat \<Rightarrow> kernel \<Rightarrow> (kernel, byte list) res" where
  "rd_bytes pn off n k =
     (case phys k pn of
        Bytes b \<Rightarrow> if off + n \<le> length b then Ok (slice off n b) k else Undef ''memmove past a page''
      | _ \<Rightarrow> Undef ''memmove from a table'')"

primrec vradddata_loop :: "nat \<Rightarrow> vregion \<Rightarrow> nat \<Rightarrow> byte list \<Rightarrow> nat \<Rightarrow> nat \<Rightarrow> kernel \<Rightarrow> (kernel, vregion) res" where
  "vradddata_loop 0 r va data i sz k = OutOfFuel"
| "vradddata_loop (Suc fuel) r va data i sz k =
     (if \<not> i < sz then Ok r k
      else
        bnd (va2vpage_deref r (w64 (va + i)) k) (\<lambda>(r, vpi) k.
        bnd (rd_vpi vpi k) (\<lambda>v k.
        if \<not> used v then Panic ''vpi->used''
        else
          let n = min (sz - i) PGSIZE
          in if length data < i + n then Undef ''buffer overrun''
             else bnd (wr_bytes (ppn v) 0 (slice i n data) k) (\<lambda>_ k.
                  vradddata_loop fuel r va data (i + PGSIZE) sz k))))"

definition vradddata :: "vregion \<Rightarrow> nat \<Rightarrow> byte list \<Rightarrow> nat \<Rightarrow> bool \<Rightarrow> bool \<Rightarrow> kernel \<Rightarrow> (kernel, vregion \<times> int) res" where
  "vradddata r va data sz p w k =
     bnd (vregionaddmap r va sz p w k) (\<lambda>(r, ret) k.
     if ret < 0 then Ok (r, ret) k
     else bnd (vradddata_loop (Suc (Suc (sz div PGSIZE))) r va data 0 sz k) (\<lambda>r k. Ok (r, 0) k))"

primrec vrloaddata_loop :: "nat \<Rightarrow> vregion \<Rightarrow> nat \<Rightarrow> iptr \<Rightarrow> nat \<Rightarrow> nat \<Rightarrow> nat \<Rightarrow> kernel \<Rightarrow> (kernel, vregion \<times> int) res" where
  "vrloaddata_loop 0 r va ip offset i sz k = OutOfFuel"
| "vrloaddata_loop (Suc fuel) r va ip offset i sz k =
     (if \<not> i < sz then Ok (r, 0) k
      else
        bnd (va2vpage_deref r (w64 (va + i)) k) (\<lambda>(r, vpi) k.
        bnd (rd_vpi vpi k) (\<lambda>v k.
        if \<not> used v then Panic ''page must be allocated''
        else
          let n = min (sz - i) PGSIZE
          in bnd (readi ip (w32 (offset + i)) n k) (\<lambda>(m, bs) k.
             bnd (wr_bytes (ppn v) 0 bs k) (\<lambda>_ k.
             if m \<noteq> int n then Ok (r, -1) k else vrloaddata_loop fuel r va ip offset (w32 (i + PGSIZE)) sz k)))))"

definition vrloaddata :: "vregion \<Rightarrow> nat \<Rightarrow> iptr \<Rightarrow> nat \<Rightarrow> nat \<Rightarrow> kernel \<Rightarrow> (kernel, vregion \<times> int) res" where
  "vrloaddata r va ip offset sz k =
     (if va mod PGSIZE \<noteq> 0 then Panic ''va must be page aligned''
      else vrloaddata_loop (Suc (Suc (sz div PGSIZE))) r va ip offset 0 sz k)"

section \<open>The page table of an address space\<close>

text \<open>The pages of one region, from \<open>start\<close> to \<open>stop\<close>.\<close>

primrec invalidate_region :: "nat \<Rightarrow> nat \<Rightarrow> vregion \<Rightarrow> nat \<Rightarrow> nat \<Rightarrow> kernel \<Rightarrow> (kernel, vregion) res" where
  "invalidate_region 0 t vr start stop k = OutOfFuel"
| "invalidate_region (Suc fuel) t vr start stop k =
     (if \<not> start < stop then Ok vr k
      else
        bnd (va2vpage_deref vr start k) (\<lambda>(vr, vpi) k.
        bnd (rd_vpi vpi k) (\<lambda>v k.
        bnd (mappages t (start div 4096) 1 (ppn v) (x86perms v) False k) (\<lambda>_ k.
        invalidate_region fuel t vr (w64 (start + PGSIZE)) stop k))))"

primrec invalidate_regions :: "nat list \<Rightarrow> vspace \<Rightarrow> kernel \<Rightarrow> (kernel, vspace) res" where
  "invalidate_regions [] vs k = Ok vs k"
| "invalidate_regions (i # is) vs k =
     (let vr = regions vs ! i
      in if VRBOT vr mod PGSIZE \<noteq> 0 then Panic ''start % PGSIZE == 0''
         else
           bnd (invalidate_region (Suc (Suc (VRTOP vr div PGSIZE))) (pgtbl vs) vr (VRBOT vr) (VRTOP vr) k) (\<lambda>vr k.
           invalidate_regions is (upd_region i (\<lambda>_. vr) vs) k))"

text \<open>The first loop covers the entries 0 to \<open>PML4_INDEX(SZ_4G)\<close>, which is 0.\<close>

primrec invalidate_free :: "nat list \<Rightarrow> nat \<Rightarrow> kernel \<Rightarrow> (kernel, unit) res" where
  "invalidate_free [] t k = Ok () k"
| "invalidate_free (i # is) t k =
     bnd (rd_entry t i k) (\<lambda>e k.
     bnd (if e AND PTE_P \<noteq> 0
          then bnd (freevm_pdpt (P2V (PTE_ADDR e)) k) (\<lambda>_ k. wr_entry t i 0 k)
          else Ok () k) (\<lambda>_ k.
     invalidate_free is t k))"

definition vspaceinvalidate :: "vspace \<Rightarrow> kernel \<Rightarrow> (kernel, vspace) res" where
  "vspaceinvalidate vs k =
     bnd (invalidate_free [0 ..< Suc (PML4_INDEX SZ_4G)] (pgtbl vs) k) (\<lambda>_ k.
     invalidate_regions [0 ..< NREGIONS] vs k)"

definition vspaceinitcode :: "vspace \<Rightarrow> byte list \<Rightarrow> nat \<Rightarrow> kernel \<Rightarrow> (kernel, vspace) res" where
  "vspaceinitcode vs init sz k =
     (let vs = upd_region VR_CODE (\<lambda>r. r\<lparr>va_base := 0, vr_size := PGROUNDUP sz\<rparr>) vs
      in bnd (vradddata (regions vs ! VR_CODE) 0 init sz True True k) (\<lambda>(r, ret) k.
         if ret \<noteq> 0 then Panic ''failed to allocate init code data''
         else
           let stack = w64 (PGROUNDUP sz + 2 * 4096);
               vs = upd_region VR_USTACK (\<lambda>r. r\<lparr>va_base := stack, vr_size := PGSIZE\<rparr>)
                      (upd_region VR_CODE (\<lambda>_. r) vs)
           in bnd (vregionaddmap (regions vs ! VR_USTACK) (sub64 stack PGSIZE) PGSIZE True True k) (\<lambda>(r, ret) k.
              if ret < 0 then Panic ''vregionaddmap''
              else vspaceinvalidate (upd_region VR_USTACK (\<lambda>_. r) vs) k)))"

section \<open>Loading a program\<close>

record elfhdr =
  e_magic :: nat
  e_entry :: nat
  e_phoff :: nat
  e_phnum :: nat

record proghdr =
  ph_type :: nat
  ph_off :: nat
  ph_vaddr :: nat
  ph_filesz :: nat
  ph_memsz :: nat

text \<open>The fields of the 64 bytes of a file header and the 56 bytes of a program header that are used.\<close>

definition dec_elfhdr :: "byte list \<Rightarrow> elfhdr" where
  "dec_elfhdr b = \<lparr>e_magic = le_nat (slice 0 4 b), e_entry = le_nat (slice 24 8 b), e_phoff = le_nat (slice 32 8 b),
     e_phnum = le_nat (slice 56 2 b)\<rparr>"

definition dec_proghdr :: "byte list \<Rightarrow> proghdr" where
  "dec_proghdr b = \<lparr>ph_type = le_nat (slice 0 4 b), ph_off = le_nat (slice 8 8 b), ph_vaddr = le_nat (slice 16 8 b),
     ph_filesz = le_nat (slice 32 8 b), ph_memsz = le_nat (slice 40 8 b)\<rparr>"

abbreviation (input) ELF_MAGIC :: nat where "ELF_MAGIC \<equiv> 0x464C457F"
abbreviation (input) ELF_PROG_LOAD :: nat where "ELF_PROG_LOAD \<equiv> 1"

text \<open>A C \<open>int\<close> converted to \<open>uint64_t\<close>, and \<open>PGROUNDUP\<close> of an \<open>int\<close>.\<close>

definition u64_of_int :: "int \<Rightarrow> nat" where
  "u64_of_int x = nat (x mod 18446744073709551616)"

definition PGROUNDUP_int :: "int \<Rightarrow> nat" where
  "PGROUNDUP_int sz = u64_of_int (i32 (sz + 4095) div 4096 * 4096)"

text \<open>The loop over the program headers. \<open>None\<close> is the jump to \<open>elf_failure\<close>; \<open>sz\<close> is unset until a segment is
  loaded.\<close>

primrec loadcode_loop :: "nat \<Rightarrow> vregion \<Rightarrow> iptr \<Rightarrow> int \<Rightarrow> nat \<Rightarrow> int option \<Rightarrow> kernel \<Rightarrow>
    (kernel, vregion \<times> int option option) res" where
  "loadcode_loop 0 r ip off va sz k = Ok (r, Some sz) k"
| "loadcode_loop (Suc n) r ip off va sz k =
     bnd (readi ip (w32 (u64_of_int off)) 56 k) (\<lambda>(m, bs) k.
     let ph = dec_proghdr bs
     in if m \<noteq> 56 then Ok (r, None) k
        else if ph_type ph \<noteq> ELF_PROG_LOAD then loadcode_loop n r ip (i32 (off + 56)) va sz k
        else if ph_memsz ph < ph_filesz ph then Ok (r, None) k
        else if w64 (ph_vaddr ph + ph_memsz ph) < ph_vaddr ph then Ok (r, None) k
        else
          bnd (vregionaddmap r va (w64 (ph_vaddr ph + ph_memsz ph)) True True k) (\<lambda>(r, s) k.
          if s < 0 then Ok (r, None) k
          else if ph_vaddr ph mod PGSIZE \<noteq> 0 then Ok (r, None) k
          else
            bnd (vrloaddata r (ph_vaddr ph) ip (w32 (ph_off ph)) (w32 (ph_filesz ph)) k) (\<lambda>(r, e) k.
            if e < 0 then Ok (r, None) k
            else loadcode_loop n r ip (i32 (off + 56)) (w64 (va + u64_of_int s)) (Some s) k)))"

definition elf_failure :: "vspace \<Rightarrow> iptr \<Rightarrow> kernel \<Rightarrow> (kernel, vspace \<times> int \<times> nat) res" where
  "elf_failure vs ip k =
     bnd (unlocki (Some ip) k) (\<lambda>_ k. bnd (irelease ip k) (\<lambda>_ k. Ok (vs, 0, 0) k))"

text \<open>The value: the address space, the size (0 on failure), and \<open>*rip\<close>.\<close>

definition vspaceloadcode :: "vspace \<Rightarrow> byte list \<Rightarrow> kernel \<Rightarrow> (kernel, vspace \<times> int \<times> nat) res" where
  "vspaceloadcode vs path k =
     bnd (namei path k) (\<lambda>r k.
     case r of None \<Rightarrow> Ok (vs, 0, 0) k
     | Some j \<Rightarrow>
         let ip = Icache j
         in bnd (locki (Some ip) k) (\<lambda>_ k.
            bnd (readi ip 0 64 k) (\<lambda>(m, bs) k.
            let elf = dec_elfhdr bs
            in if m \<noteq> 64 then elf_failure vs ip k
               else if e_magic elf \<noteq> ELF_MAGIC then elf_failure vs ip k
               else
                 let vs = upd_region VR_CODE (\<lambda>r. r\<lparr>va_base := 0\<rparr>) vs
                 in bnd (loadcode_loop (e_phnum elf) (regions vs ! VR_CODE) ip (s32 (e_phoff elf)) 0 None k) (\<lambda>(r, res) k.
                    let vs = upd_region VR_CODE (\<lambda>_. r) vs
                    in case res of
                         None \<Rightarrow> elf_failure vs ip k
                       | Some None \<Rightarrow> Undef ''sz is not set''
                       | Some (Some sz) \<Rightarrow>
                           let vs = upd_region VR_HEAP (\<lambda>r. r\<lparr>va_base := PGROUNDUP_int sz, vr_size := 0\<rparr>)
                                      (upd_region VR_CODE (\<lambda>r. r\<lparr>vr_size := PGROUNDUP_int sz\<rparr>) vs)
                           in bnd (unlocki (Some ip) k) (\<lambda>_ k.
                              bnd (irelease ip k) (\<lambda>_ k.
                              Ok (vs, sz, e_entry elf) k))))))"

section \<open>Finding and freeing\<close>

definition region_has :: "vregion \<Rightarrow> nat \<Rightarrow> bool" where
  "region_has vr va =
     (case vr_dir vr of
        VRDIR_UP \<Rightarrow> va \<ge> va_base vr \<and> va < w64 (va_base vr + vr_size vr)
      | VRDIR_DOWN \<Rightarrow> va \<ge> sub64 (va_base vr) (vr_size vr) \<and> va < va_base vr)"

definition va2vregion :: "vspace \<Rightarrow> nat \<Rightarrow> nat option" where
  "va2vregion vs va = find_index (\<lambda>vr. region_has vr va) (regions vs)"

definition vspacemarknotpresent :: "vspace \<Rightarrow> nat \<Rightarrow> kernel \<Rightarrow> (kernel, vspace) res" where
  "vspacemarknotpresent vs va k =
     (if va mod PGSIZE \<noteq> 0 then Panic ''user_va % PGSIZE == 0''
      else
        case va2vregion vs va of None \<Rightarrow> Panic ''vr''
        | Some i \<Rightarrow>
            bnd (va2vpage_info (regions vs ! i) va k) (\<lambda>(vr, vpi) k.
            case vpi of None \<Rightarrow> Panic ''vpi''
            | Some vpi \<Rightarrow>
                bnd (rd_vpi vpi k) (\<lambda>v k.
                if present v then Panic ''Passed user_va had present vpi.''
                else
                  bnd (walkpml4 (pgtbl vs) va False k) (\<lambda>pte k.
                  bnd (case pte of None \<Rightarrow> Ok () k | Some (t, j) \<Rightarrow> wr_entry t j 0 k) (\<lambda>_ k.
                  Ok (upd_region i (\<lambda>_. vr) vs) k)))))"

text \<open>The list of descriptor pages is followed to its end and freed from there; a list of distinct pages is no
  longer than the memory.\<close>

primrec free_desc_loop :: "nat \<Rightarrow> nat \<Rightarrow> kernel \<Rightarrow> (kernel, unit) res" where
  "free_desc_loop 0 a k = OutOfFuel"
| "free_desc_loop (Suc fuel) a k =
     (if a mod PGSIZE \<noteq> 0 then Panic ''(uint64_t) page % PGSIZE == 0''
      else if a = 0 then Ok () k
      else
        bnd (rd_vpi_page a k) (\<lambda>(is, nx) k.
        bnd (free_desc_loop fuel nx k) (\<lambda>_ k.
        kfree a k)))"

definition free_page_desc_list :: "nat \<Rightarrow> kernel \<Rightarrow> (kernel, unit) res" where
  "free_page_desc_list a k = free_desc_loop (Suc (Suc (npages k))) a k"

primrec vspacefree_loop :: "nat list \<Rightarrow> vspace \<Rightarrow> kernel \<Rightarrow> (kernel, vspace) res" where
  "vspacefree_loop [] vs k = Ok vs k"
| "vspacefree_loop (i # is) vs k =
     bnd (free_page_desc_list (vr_pages (regions vs ! i)) k) (\<lambda>_ k.
     vspacefree_loop is (upd_region i (\<lambda>_. empty_region) vs) k)"

definition vspacefree :: "vspace \<Rightarrow> kernel \<Rightarrow> (kernel, vspace) res" where
  "vspacefree vs k =
     bnd (vspacefree_loop [0 ..< NREGIONS] vs k) (\<lambda>vs k. bnd (freevm (pgtbl vs) k) (\<lambda>_ k. Ok vs k))"

text \<open>\<open>va + size\<close> is a sum of 64 bits, with the \<open>int\<close> sign-extended.\<close>

definition vregioncontains :: "vregion \<Rightarrow> nat \<Rightarrow> int \<Rightarrow> bool" where
  "vregioncontains vr va sz \<longleftrightarrow>
     \<not> (sz = 0 \<and> va = VRTOP vr) \<and> va \<ge> VRBOT vr \<and> w64 (va + u64_of_int sz) \<le> VRTOP vr"

definition vspacecontains :: "vspace \<Rightarrow> nat \<Rightarrow> int \<Rightarrow> int" where
  "vspacecontains vs va sz =
     (case va2vregion vs va of None \<Rightarrow> -1 | Some i \<Rightarrow> if vregioncontains (regions vs ! i) va sz then 1 else 0)"

section \<open>Copying\<close>

text \<open>One descriptor: both sides get the same page, read-only and marked for copy on write, and the page gets
  one more reference.\<close>

definition copy_vpi :: "nat \<Rightarrow> nat \<Rightarrow> nat \<Rightarrow> kernel \<Rightarrow> (kernel, unit) res" where
  "copy_vpi dst src i k =
     bnd (rd_vpi (src, i) k) (\<lambda>v k.
     if \<not> used v then Ok () k
     else
       bnd (wr_vpi (dst, i) (\<lambda>d. d\<lparr>used := used v, present := present v, cow_page := True, writable := False,
              ppn := ppn v\<rparr>) k) (\<lambda>_ k.
       bnd (wr_vpi (src, i) (\<lambda>s. s\<lparr>cow_page := True, writable := False\<rparr>) k) (\<lambda>_ k.
       bnd (pa2page (w64 (ppn v * 4096)) k) (\<lambda>e k.
       bnd (acquire_core_map_lock k) (\<lambda>_ k.
       release_core_map_lock
         (k\<lparr>core_map := (core_map k)[e := (core_map k ! e)\<lparr>ref_count := ref_count (core_map k ! e) + 1\<rparr>]\<rparr>))))))"

primrec copy_vpis :: "nat list \<Rightarrow> nat \<Rightarrow> nat \<Rightarrow> kernel \<Rightarrow> (kernel, unit) res" where
  "copy_vpis [] dst src k = Ok () k"
| "copy_vpis (i # is) dst src k = bnd (copy_vpi dst src i k) (\<lambda>_ k. copy_vpis is dst src k)"

text \<open>The list of descriptor pages; the value is the value returned and \<open>*dst\<close>.\<close>

primrec copy_vpi_loop :: "nat \<Rightarrow> nat \<Rightarrow> kernel \<Rightarrow> (kernel, int \<times> nat) res" where
  "copy_vpi_loop 0 src k = OutOfFuel"
| "copy_vpi_loop (Suc fuel) src k =
     (if src = 0 then Ok (0, 0) k
      else
        bnd (kalloc k) (\<lambda>dst k.
        if dst = 0 then Ok (-1, 0) k
        else
          bnd (copy_vpis [0 ..< 169] dst src (clear_vpi_page dst k)) (\<lambda>_ k.
          bnd (rd_vpi_page src k) (\<lambda>(_, nx) k.
          bnd (copy_vpi_loop fuel nx k) (\<lambda>(r, d) k.
          bnd (rd_vpi_page dst k) (\<lambda>(is, _) k.
          Ok (r, dst) (wr_vpi_page dst is d k)))))))"

definition copy_vpi_page :: "nat \<Rightarrow> kernel \<Rightarrow> (kernel, int \<times> nat) res" where
  "copy_vpi_page src k = copy_vpi_loop (Suc (Suc (npages k))) src k"

primrec vspacecopy_loop :: "nat list \<Rightarrow> vspace \<Rightarrow> kernel \<Rightarrow> (kernel, int \<times> vspace) res" where
  "vspacecopy_loop [] dst k = Ok (0, dst) k"
| "vspacecopy_loop (i # is) dst k =
     bnd (copy_vpi_page (vr_pages (regions dst ! i)) k) (\<lambda>(r, a) k.
     let dst = upd_region i (\<lambda>vr. vr\<lparr>vr_pages := a\<rparr>) dst
     in if r < 0 then Ok (-1, dst) k else vspacecopy_loop is dst k)"

text \<open>The value: the value returned, the copy, and the source with its page table rebuilt.\<close>

definition vspacecopy :: "vspace \<Rightarrow> vspace \<Rightarrow> kernel \<Rightarrow> (kernel, int \<times> vspace \<times> vspace) res" where
  "vspacecopy dst src k =
     bnd (vspacecopy_loop [0 ..< NREGIONS] (dst\<lparr>regions := regions src\<rparr>) k) (\<lambda>(r, dst) k.
     if r < 0 then Ok (-1, dst, src) k
     else
       bnd (vspaceinvalidate dst k) (\<lambda>dst k.
       bnd (vspaceinvalidate src k) (\<lambda>src k.
       Ok (0, dst, src) k)))"

section \<open>The user stack\<close>

definition vspaceinitstack :: "vspace \<Rightarrow> nat \<Rightarrow> kernel \<Rightarrow> (kernel, int \<times> vspace) res" where
  "vspaceinitstack vs start k =
     (let vs = upd_region VR_USTACK (\<lambda>r. r\<lparr>va_base := start, vr_size := PGSIZE\<rparr>) vs
      in bnd (vregionaddmap (regions vs ! VR_USTACK) (sub64 start PGSIZE) PGSIZE True True k) (\<lambda>(r, ret) k.
         let vs = upd_region VR_USTACK (\<lambda>_. r) vs
         in if ret < 0 then Ok (-1, vs) k
            else bnd (vspaceinvalidate vs k) (\<lambda>vs k. Ok (0, vs) k)))"

text \<open>The loop of \<open>vspacewritetova\<close>. A round writes up to the next page boundary, so at an address that is on
  one it writes nothing and makes no progress: the fuel is a parameter.\<close>

primrec writetova_loop :: "nat \<Rightarrow> vspace \<Rightarrow> nat \<Rightarrow> nat \<Rightarrow> byte list \<Rightarrow> int \<Rightarrow> kernel \<Rightarrow> (kernel, vspace \<times> int) res" where
  "writetova_loop 0 vs va stop data sz k = OutOfFuel"
| "writetova_loop (Suc fuel) vs va stop data sz k =
     (if \<not> va < stop then Ok (vs, 0) k
      else
        let wsz = nat (min (s32 (sub64 (PGROUNDUP va) va)) sz)
        in case va2vregion vs va of None \<Rightarrow> Ok (vs, -1) k
           | Some i \<Rightarrow>
               bnd (va2vpage_deref (regions vs ! i) va k) (\<lambda>(vr, vpi) k.
               bnd (rd_vpi vpi k) (\<lambda>v k.
               let vs = upd_region i (\<lambda>_. vr) vs
               in if \<not> used v then Panic ''vpi->used''
                  else if \<not> writable v then Ok (vs, -1) k
                  else if length data < wsz then Undef ''buffer overrun''
                  else
                    bnd (wr_bytes (ppn v) (va mod PGSIZE) (take wsz data) k) (\<lambda>_ k.
                    writetova_loop fuel vs (w64 (va + wsz)) stop (drop wsz data) (sz - int wsz) k))))"

definition vspacewritetova :: "nat \<Rightarrow> vspace \<Rightarrow> nat \<Rightarrow> byte list \<Rightarrow> int \<Rightarrow> kernel \<Rightarrow> (kernel, vspace \<times> int) res" where
  "vspacewritetova fuel vs va data sz k =
     (if \<not> sz > 0 then Panic ''sz less than or equal to 0''
      else if \<not> w64 (va + u64_of_int sz) < KERNBASE then Panic ''went over kernel vm base''
      else writetova_loop fuel vs va (w64 (va + u64_of_int sz)) data sz k)"

section \<open>Dumps\<close>

text \<open>At most ten words of the stack are printed.\<close>

primrec dumpstack_loop :: "nat \<Rightarrow> nat \<Rightarrow> nat \<Rightarrow> nat \<Rightarrow> kernel \<Rightarrow> (kernel, unit) res" where
  "dumpstack_loop 0 pn va stop k = OutOfFuel"
| "dumpstack_loop (Suc fuel) pn va stop k =
     (if \<not> va \<ge> stop then Ok () k
      else
        bnd (rd_bytes pn (va mod PGSIZE) 8 k) (\<lambda>d k.
        bnd (cprintf (map of_char ''virtual address: %x data: %lx'' @ [10]) [PInt (int va), PInt (int (le_nat d))] k) (\<lambda>_ k.
        dumpstack_loop fuel pn (sub64 va 8) stop k)))"

definition vspacedumpstack :: "vspace \<Rightarrow> kernel \<Rightarrow> (kernel, vspace) res" where
  "vspacedumpstack vs k =
     (let vr = regions vs ! VR_USTACK;
          start = sub64 (va_base vr) 8;
          stop = max (sub64 (va_base vr) (vr_size vr)) (sub64 (va_base vr) 80)
      in bnd (va2vpage_deref vr start k) (\<lambda>(vr, vpi) k.
         bnd (rd_vpi vpi k) (\<lambda>v k.
         bnd (cprintf (map of_char ''dumping stack: base=%p size=%d'' @ [10]) [PInt (int (va_base vr)), PInt (int (vr_size vr))] k) (\<lambda>_ k.
         bnd (dumpstack_loop 12 (ppn v) start stop k) (\<lambda>_ k.
         Ok (upd_region VR_USTACK (\<lambda>_. vr) vs) k)))))"

primrec dumpcode_page :: "nat list \<Rightarrow> nat \<Rightarrow> int \<Rightarrow> kernel \<Rightarrow> (kernel, unit) res" where
  "dumpcode_page [] pn va k = Ok () k"
| "dumpcode_page (i # is) pn va k =
     bnd (rd_bytes pn (nat (va + int i) mod PGSIZE) 8 k) (\<lambda>d k.
     bnd (cprintf (map of_char ''virtual address: %x data: %lx'' @ [10]) [PInt (va + int i), PInt (int (le_nat d))] k) (\<lambda>_ k.
     dumpcode_page is pn va k))"

text \<open>Page after page of the code region until a descriptor is unused; the fuel is a parameter.\<close>

primrec dumpcode_loop :: "nat \<Rightarrow> vregion \<Rightarrow> vpi_ptr option \<Rightarrow> int \<Rightarrow> kernel \<Rightarrow> (kernel, vregion) res" where
  "dumpcode_loop 0 vr vpi va k = OutOfFuel"
| "dumpcode_loop (Suc fuel) vr vpi va k =
     (case vpi of None \<Rightarrow> Ok vr k
      | Some p \<Rightarrow>
          bnd (rd_vpi p k) (\<lambda>v k.
          if \<not> used v then Ok vr k
          else
            bnd (dumpcode_page (map (\<lambda>j. 8 * j) [0 ..< 512]) (ppn v) va k) (\<lambda>_ k.
            bnd (va2vpage_info vr (u64_of_int (i32 (va + 4096))) k) (\<lambda>(vr, vpi) k.
            dumpcode_loop fuel vr vpi (i32 (va + 4096)) k))))"

definition vspacedumpcode :: "nat \<Rightarrow> vspace \<Rightarrow> kernel \<Rightarrow> (kernel, vspace) res" where
  "vspacedumpcode fuel vs k =
     (let vr = regions vs ! VR_CODE
      in bnd (va2vpage_info vr (va_base vr) k) (\<lambda>(vr, vpi) k.
         bnd (cprintf (map of_char ''dumping code: base=%p size=%d'' @ [10]) [PInt (int (va_base vr)), PInt (int (vr_size vr))] k) (\<lambda>_ k.
         bnd (dumpcode_loop fuel vr vpi (s32 (va_base vr)) k) (\<lambda>vr k.
         Ok (upd_region VR_CODE (\<lambda>_. vr) vs) k))))"

end
