(* ===== verification/File.thy ===== *)
theory File
  imports Namei
begin

text \<open>
  Open files and pipes (\<open>kernel/file.c\<close>): the global table \<open>ftable\<close>, the per-process descriptor
  tables, and \<open>fileopen\<close>, \<open>filestat\<close>, \<open>fileclose\<close>, \<open>fileread\<close>, \<open>filewrite\<close>, \<open>filedup\<close>,
  \<open>filecopy\<close>, \<open>pipe\<close>. A pointer to an open file is its index in \<open>ftable\<close>. Reading an empty pipe and
  writing a full one ends with \<open>Sleeps\<close>; \<open>fileread_wake\<close> and \<open>filewrite_wake\<close> are what the process
  does when it runs again. A buffer is the list of its bytes.
\<close>

section \<open>Descriptors\<close>

definition u32 :: "int \<Rightarrow> nat" where
  "u32 x = nat (x mod 4294967296)"

definition upd_file :: "nat \<Rightarrow> (file_info \<Rightarrow> file_info) \<Rightarrow> kernel \<Rightarrow> kernel" where
  "upd_file i f k = k\<lparr>ftable := (ftable k)[i := f (ftable k ! i)]\<rparr>"

text \<open>\<open>p->pftable[fd]\<close>: an index outside the array is outside the struct.\<close>

definition get_fd :: "nat \<Rightarrow> int \<Rightarrow> kernel \<Rightarrow> (kernel, nat option) res" where
  "get_fd p fd k =
     (if fd < 0 \<or> fd \<ge> int NOFILE then Undef ''pftable index'' else Ok (pftable (ptable k ! p) ! nat fd) k)"

definition set_fd :: "nat \<Rightarrow> nat \<Rightarrow> nat option \<Rightarrow> kernel \<Rightarrow> kernel" where
  "set_fd p fd v k = upd_proc p (\<lambda>q. q\<lparr>pftable := (pftable q)[fd := v]\<rparr>) k"

section \<open>Opening\<close>

definition filecreate :: "byte list \<Rightarrow> kernel \<Rightarrow> (kernel, nat) res" where
  "filecreate path k =
     bnd (cprintf (map of_char ''Enter file create Path =%s'' @ [10]) [PStr (Some path)] k) (\<lambda>_ k.
     concurrent_createi path k)"

text \<open>\<open>pa\<close> is the pointer \<open>path\<close>, which is stored in the table.\<close>

definition fileopen :: "nat \<Rightarrow> byte list \<Rightarrow> int \<Rightarrow> kernel \<Rightarrow> (kernel, int) res" where
  "fileopen pa path mode k =
     bnd (cprintf (map of_char ''file open path %s'' @ [10]) [PStr (Some path)] k) (\<lambda>_ k.
     bnd (namei path k) (\<lambda>r k.
     case r of
       None \<Rightarrow> bnd (cprintf (map of_char ''iptr is none'' @ [10]) [] k) (\<lambda>_ k. Ok (-1) k)
     | Some j \<Rightarrow>
         bnd (concurrent_stati (Some (Icache j)) k) (\<lambda>_ k.
         if mode = T_DEV then Ok (-1) k
         else
           bnd (myproc k) (\<lambda>p k.
           case find_index (\<lambda>d. d = None) (pftable (ptable k ! p)) of
             None \<Rightarrow> Ok (-1) k
           | Some pfd \<Rightarrow>
               (case find_index (\<lambda>f. f_ref f = 0) (ftable k) of
                  None \<Rightarrow> Ok (int pfd) k
                | Some gfd \<Rightarrow>
                    bnd (acquire FtableLock k) (\<lambda>_ k.
                    let k = upd_file gfd (\<lambda>f. f\<lparr>f_ref := 1, f_iptr := Some (Icache j),
                              access_permission := mode, f_path := pa\<rparr>) k
                    in bnd (release FtableLock (set_fd p pfd (Some gfd) k)) (\<lambda>_ k. Ok (int pfd) k))))))) "

definition filestat :: "int \<Rightarrow> kernel \<Rightarrow> (kernel, int \<times> stat option) res" where
  "filestat fd k =
     bnd (myproc k) (\<lambda>p k.
     bnd (get_fd p fd k) (\<lambda>d k.
     case d of
       None \<Rightarrow> Ok (-1, None) k
     | Some i \<Rightarrow>
         (let f = ftable k ! i
          in if \<not> isPipe f \<and> f_iptr f = None then Ok (-1, None) k
             else bnd (concurrent_stati (f_iptr f) k) (\<lambda>st k. Ok (0, Some st) k))))"

definition fileclose :: "int \<Rightarrow> kernel \<Rightarrow> (kernel, int) res" where
  "fileclose fd k =
     bnd (myproc k) (\<lambda>p k.
     bnd (get_fd p fd k) (\<lambda>d k.
     case d of
       None \<Rightarrow> Ok (-1) k
     | Some i \<Rightarrow>
         if \<not> isPipe (ftable k ! i) \<and> f_iptr (ftable k ! i) = None then Ok (-1) k
         else
           bnd (acquire FtableLock k) (\<lambda>_ k.
           bnd (if f_ref (ftable k ! i) > 1
                then Ok () (upd_file i (\<lambda>f. f\<lparr>f_ref := f_ref f - 1\<rparr>) k)
                else
                  bnd (if \<not> isPipe (ftable k ! i) then irelease (the (f_iptr (ftable k ! i))) k
                       else Ok () k) (\<lambda>_ k.
                  Ok () (upd_file i (\<lambda>f. f\<lparr>f_iptr := None, f_ref := 0, f_path := 0,
                           access_permission := 0, f_offset := 0\<rparr>) k))) (\<lambda>_ k.
           bnd (release FtableLock k) (\<lambda>_ k.
           Ok 0 (set_fd p (nat fd) None k))))))"

definition filedup :: "int \<Rightarrow> kernel \<Rightarrow> (kernel, int) res" where
  "filedup fd k =
     bnd (myproc k) (\<lambda>p k.
     bnd (get_fd p fd k) (\<lambda>d k.
     case d of
       None \<Rightarrow> Ok (-1) k
     | Some i \<Rightarrow>
         if \<not> isPipe (ftable k ! i) \<and> f_iptr (ftable k ! i) = None then Ok (-1) k
         else
           (case find_index (\<lambda>d. d = None) (pftable (ptable k ! p)) of
              None \<Rightarrow> Ok (-1) k
            | Some j \<Rightarrow>
                bnd (acquire FtableLock k) (\<lambda>_ k.
                bnd (release FtableLock (upd_file i (\<lambda>f. f\<lparr>f_ref := i32 (f_ref f + 1)\<rparr>) (set_fd p j (Some i) k)))
                  (\<lambda>_ k. Ok (int j) k)))))"

text \<open>One round of the loop of \<open>filecopy\<close>, and the loop.\<close>

definition filecopy1 :: "nat \<Rightarrow> nat \<Rightarrow> nat \<Rightarrow> kernel \<Rightarrow> (kernel, unit) res" where
  "filecopy1 pa ch fd k =
     (case pftable (ptable k ! pa) ! fd of
        None \<Rightarrow> Ok () k
      | Some i \<Rightarrow>
          bnd (acquire FtableLock k) (\<lambda>_ k.
          release FtableLock (upd_file i (\<lambda>f. f\<lparr>f_ref := i32 (f_ref f + 1)\<rparr>) (set_fd ch fd (Some i) k))))"

primrec filecopy_loop :: "nat list \<Rightarrow> nat \<Rightarrow> nat \<Rightarrow> kernel \<Rightarrow> (kernel, unit) res" where
  "filecopy_loop [] pa ch k = Ok () k"
| "filecopy_loop (fd # fds) pa ch k = bnd (filecopy1 pa ch fd k) (\<lambda>_ k. filecopy_loop fds pa ch k)"

definition filecopy :: "nat \<Rightarrow> nat \<Rightarrow> kernel \<Rightarrow> (kernel, unit) res" where
  "filecopy pa ch k = filecopy_loop [0 ..< NOFILE] pa ch k"

section \<open>Pipes\<close>

definition upd_pipe :: "nat \<Rightarrow> (pipe \<Rightarrow> pipe) \<Rightarrow> kernel \<Rightarrow> kernel" where
  "upd_pipe i g k = upd_file i (\<lambda>f. f\<lparr>pipe_buffer := g (pipe_buffer f)\<rparr>) k"

abbreviation the_pipe :: "nat \<Rightarrow> kernel \<Rightarrow> pipe" where
  "the_pipe i k \<equiv> pipe_buffer (ftable k ! i)"

text \<open>The \<open>for\<close> loop of a pipe read: the value returned and the bytes stored. A killed process returns
  from inside the loop, with the lock of the pipe held.\<close>

primrec pipe_read_loop :: "nat \<Rightarrow> nat \<Rightarrow> int \<Rightarrow> kernel \<Rightarrow> (kernel, int \<times> byte list) res" where
  "pipe_read_loop i 0 r k =
     bnd (wakeup (ChPipeWrite i) k) (\<lambda>_ k. bnd (release (PipeLock i) k) (\<lambda>_ k. Ok (r, []) k))"
| "pipe_read_loop i (Suc n) r k =
     bnd (myproc k) (\<lambda>p k.
     if killed (ptable k ! p) then Ok (-1, []) k
     else if p_head (the_pipe i k) = p_tail (the_pipe i k) then
       bnd (wakeup (ChPipeWrite i) k) (\<lambda>_ k. bnd (release (PipeLock i) k) (\<lambda>_ k. Ok (r, []) k))
     else if p_head (the_pipe i k) < 0 then Undef ''pipe index''
     else
       (let c = p_buf (the_pipe i k) ! nat (p_head (the_pipe i k) mod PIPESIZE)
        in bnd (pipe_read_loop i n (r + 1) (upd_pipe i (\<lambda>q. q\<lparr>p_head := i32 (p_head q + 1)\<rparr>) k))
             (\<lambda>(r, bs) k. Ok (r, c # bs) k)))"

text \<open>One test of the waiting loop and what follows it, entered with the lock of the pipe held.\<close>

definition pipe_read :: "nat \<Rightarrow> int \<Rightarrow> kernel \<Rightarrow> (kernel, int \<times> byte list) res" where
  "pipe_read i n k =
     (if p_head (the_pipe i k) = p_tail (the_pipe i k) then
        bnd (myproc k) (\<lambda>p k.
        if killed (ptable k ! p) then bnd (release (PipeLock i) k) (\<lambda>_ k. Ok (-1, []) k)
        else if f_ref (ftable k ! i) = 1 then bnd (release (PipeLock i) k) (\<lambda>_ k. Ok (0, []) k)
        else
          bnd (wakeup (ChPipeWrite i) k) (\<lambda>_ k.
          bnd (sleep (ChPipeRead i) (PipeLock i) k) (\<lambda>_ k. Undef ''sched returned'')))
      else pipe_read_loop i (nat n) 0 k)"

definition fileread :: "int \<Rightarrow> int \<Rightarrow> kernel \<Rightarrow> (kernel, int \<times> byte list) res" where
  "fileread fd n k =
     bnd (myproc k) (\<lambda>p k.
     bnd (get_fd p fd k) (\<lambda>d k.
     case d of
       None \<Rightarrow> Ok (-1, []) k
     | Some i \<Rightarrow>
         if \<not> isPipe (ftable k ! i) then
           if f_iptr (ftable k ! i) = None then Ok (-1, []) k
           else if access_permission (ftable k ! i) = 1 then Ok (-1, []) k
           else
             bnd (concurrent_readi (f_iptr (ftable k ! i)) (u32 (f_offset (ftable k ! i))) (u32 n) k) (\<lambda>(r, bs) k.
             let k = k\<lparr>g_offset := r\<rparr>
             in bnd (acquire FtableLock k) (\<lambda>_ k.
                bnd (release FtableLock (upd_file i (\<lambda>f. f\<lparr>f_offset := i32 (f_offset f + r)\<rparr>) k)) (\<lambda>_ k.
                Ok (r, bs) k)))
         else if read_fd (the_pipe i k) \<noteq> fd then Ok (-1, []) k
         else bnd (acquire (PipeLock i) k) (\<lambda>_ k. pipe_read i n k)))"

definition fileread_wake :: "nat \<Rightarrow> int \<Rightarrow> kernel \<Rightarrow> (kernel, int \<times> byte list) res" where
  "fileread_wake i n k = bnd (sleep_wake (PipeLock i) k) (\<lambda>_ k. pipe_read i n k)"

text \<open>The \<open>for\<close> loop of a pipe write over the bytes still to write; \<open>r\<close> counts those written.\<close>

fun pipe_write :: "nat \<Rightarrow> byte list \<Rightarrow> int \<Rightarrow> kernel \<Rightarrow> (kernel, int) res" where
  "pipe_write i [] r k =
     bnd (wakeup (ChPipeRead i) k) (\<lambda>_ k. bnd (release (PipeLock i) k) (\<lambda>_ k. Ok r k))"
| "pipe_write i (c # bs) r k =
     (if p_tail (the_pipe i k) - p_head (the_pipe i k) = PIPESIZE then
        bnd (wakeup (ChPipeRead i) k) (\<lambda>_ k.
        bnd (sleep (ChPipeWrite i) (PipeLock i) k) (\<lambda>_ k. Undef ''sched returned''))
      else if f_ref (ftable k ! i) = 1 then bnd (release (PipeLock i) k) (\<lambda>_ k. Ok (-1) k)
      else if p_tail (the_pipe i k) < 0 then Undef ''pipe index''
      else pipe_write i bs (r + 1) (upd_pipe i (\<lambda>q. q\<lparr>p_buf := (p_buf q)[nat (p_tail q mod PIPESIZE) := c],
                                                    p_tail := i32 (p_tail q + 1)\<rparr>) k))"

definition filewrite :: "int \<Rightarrow> byte list \<Rightarrow> int \<Rightarrow> kernel \<Rightarrow> (kernel, int) res" where
  "filewrite fd buf n k =
     bnd (myproc k) (\<lambda>p k.
     bnd (get_fd p fd k) (\<lambda>d k.
     case d of
       None \<Rightarrow> Ok (-1) k
     | Some i \<Rightarrow>
         if \<not> isPipe (ftable k ! i) then
           if f_iptr (ftable k ! i) = None then Ok (-1) k
           else if access_permission (ftable k ! i) = 0 then Ok (-1) k
           else concurrent_writei (f_iptr (ftable k ! i)) buf (u32 (f_offset (ftable k ! i))) (u32 n) k
         else if length buf < nat n then Undef ''buffer overrun''
         else bnd (acquire (PipeLock i) k) (\<lambda>_ k. pipe_write i (take (nat n) buf) 0 k)))"

definition filewrite_wake :: "nat \<Rightarrow> byte list \<Rightarrow> int \<Rightarrow> kernel \<Rightarrow> (kernel, int) res" where
  "filewrite_wake i bs r k = bnd (sleep_wake (PipeLock i) k) (\<lambda>_ k. pipe_write i bs r k)"

text \<open>The loop over the descriptor table: it fills at most two free entries, whose indices are added
  to \<open>fds\<close>.\<close>

primrec pipe_fds :: "nat list \<Rightarrow> nat \<Rightarrow> nat \<Rightarrow> nat list \<Rightarrow> kernel \<Rightarrow> nat list \<times> kernel" where
  "pipe_fds [] p i fds k = (fds, k)"
| "pipe_fds (j # js) p i fds k =
     (if pftable (ptable k ! p) ! j = None \<and> length fds < 2
      then pipe_fds js p i (fds @ [j]) (upd_file i (\<lambda>f. f\<lparr>f_ref := f_ref f + 1\<rparr>) (set_fd p j (Some i) k))
      else pipe_fds js p i fds k)"

text \<open>\<open>pipe\<close>: the value returned and the descriptors stored. When the process has fewer than two free
  descriptors, \<open>kfree\<close> is called on an address inside \<open>ftable\<close>, below \<open>end\<close>: it panics.\<close>

definition pipe_open :: "kernel \<Rightarrow> (kernel, int \<times> nat list) res" where
  "pipe_open k =
     bnd (myproc k) (\<lambda>p k.
     case find_index (\<lambda>f. f_ref f = 0) (ftable k) of
       None \<Rightarrow> bnd (cprintf (map of_char ''no slot found in ftable '') [] k) (\<lambda>_ k. Ok (-1, []) k)
     | Some i \<Rightarrow>
         (case pipe_fds [0 ..< NOFILE] p i []
                 (upd_file i (\<lambda>f. f\<lparr>isPipe := True, access_permission := 2\<rparr>) k) of
            (fds, k) \<Rightarrow>
              if length fds < 2 then Panic ''kfree''
              else Ok (0, fds) (upd_pipe i (\<lambda>q. q\<lparr>read_fd := int (fds ! 0), write_fd := int (fds ! 1),
                     p_head := 0, p_tail := 0, p_full := False, p_empty := True\<rparr>) k)))"

section \<open>A pipe is a queue\<close>

text \<open>The bytes in the pipe of slot \<open>i\<close>, oldest first, as a list.\<close>

definition pipe_rel :: "nat \<Rightarrow> byte list \<Rightarrow> kernel \<Rightarrow> bool" where
  "pipe_rel i q k \<longleftrightarrow> i < length (ftable k) \<and> isPipe (ftable k ! i) \<and> length (p_buf (the_pipe i k)) = 2048 \<and>
     0 \<le> p_head (the_pipe i k) \<and> p_tail (the_pipe i k) = p_head (the_pipe i k) + int (length q) \<and>
     p_tail (the_pipe i k) < 2147483648 \<and> length q \<le> 2048 \<and>
     (\<forall>m < length q. p_buf (the_pipe i k) ! nat ((p_head (the_pipe i k) + int m) mod 2048) = q ! m)"

lemma pipe_rel_cong: "ftable k' = ftable k \<Longrightarrow> pipe_rel i q k' = pipe_rel i q k"
  by (simp add: pipe_rel_def)

lemma upd_file_frame [simp]:
  "held (upd_file i f k) = held k" "ptable (upd_file i f k) = ptable k" "curproc (upd_file i f k) = curproc k"
  "held (upd_pipe i g k) = held k" "ptable (upd_pipe i g k) = ptable k" "curproc (upd_pipe i g k) = curproc k"
  "length (ftable (upd_file i f k)) = length (ftable k)"
  "length (ftable (upd_pipe i g k)) = length (ftable k)"
  by (simp_all add: upd_file_def upd_pipe_def)

lemma the_pipe_upd [simp]: "i < length (ftable k) \<Longrightarrow> ftable (upd_pipe i g k) ! i =
    (ftable k ! i)\<lparr>pipe_buffer := g (the_pipe i k)\<rparr>"
  by (simp add: upd_pipe_def upd_file_def)

lemma ring_distinct:
  assumes "m < n" "n < 2048"
  shows "nat ((h + int m) mod 2048) \<noteq> nat ((h + int n) mod 2048)"
proof
  assume "nat ((h + int m) mod 2048) = nat ((h + int n) mod 2048)"
  then have "(h + int n) mod 2048 = (h + int m) mod 2048" by (simp add: eq_nat_nat_iff)
  then have "2048 dvd (h + int n) - (h + int m)" by (simp only: mod_eq_dvd_iff)
  moreover have "0 < (h + int n) - (h + int m)" "(h + int n) - (h + int m) < 2048" using assms by simp_all
  ultimately show False using zdvd_imp_le by fastforce
qed

lemma pipe_push:
  assumes rel: "pipe_rel i q k" and room: "length q < 2048" "p_tail (the_pipe i k) + 1 < 2147483648"
  shows "pipe_rel i (q @ [c]) (upd_pipe i (\<lambda>p. p\<lparr>p_buf := (p_buf p)[nat (p_tail p mod PIPESIZE) := c],
           p_tail := i32 (p_tail p + 1)\<rparr>) k)"
proof -
  let ?h = "p_head (the_pipe i k)" and ?b = "p_buf (the_pipe i k)"
  note r = rel [unfolded pipe_rel_def]
  have i32: "i32 (p_tail (the_pipe i k) + 1) = p_tail (the_pipe i k) + 1" using r room by (intro i32_id) auto
  have t: "nat ((?h + int (length q)) mod 2048) < 2048" by (simp add: nat_less_iff)
  have "?b[nat ((?h + int (length q)) mod 2048) := c] ! nat ((?h + int m) mod 2048) = (q @ [c]) ! m"
    if m: "m < Suc (length q)" for m
  proof (cases "m = length q")
    case True
    then show ?thesis using t r by simp
  next
    case False
    then have "m < length q" using m by simp
    moreover have "nat ((?h + int m) mod 2048) \<noteq> nat ((?h + int (length q)) mod 2048)"
      using ring_distinct [of m "length q" ?h] room calculation by simp
    ultimately show ?thesis using r by (simp add: nth_append)
  qed
  then show ?thesis using r room i32 by (simp add: pipe_rel_def)
qed

lemma pipe_pop:
  assumes "pipe_rel i (c # q) k"
  shows "pipe_rel i q (upd_pipe i (\<lambda>p. p\<lparr>p_head := i32 (p_head p + 1)\<rparr>) k)"
    "p_buf (the_pipe i k) ! nat (p_head (the_pipe i k) mod PIPESIZE) = c"
    "0 \<le> p_head (the_pipe i k)" "p_head (the_pipe i k) \<noteq> p_tail (the_pipe i k)"
proof -
  let ?h = "p_head (the_pipe i k)" and ?b = "p_buf (the_pipe i k)"
  note r = assms [unfolded pipe_rel_def]
  have "?b ! nat ((?h + int 0) mod 2048) = (c # q) ! 0" using r by blast
  then show "?b ! nat (?h mod PIPESIZE) = c" by simp
  have i32: "i32 (?h + 1) = ?h + 1" using r by (intro i32_id) auto
  have "?b ! nat ((?h + 1 + int m) mod 2048) = q ! m" if "m < length q" for m
  proof -
    have "?b ! nat ((?h + int (Suc m)) mod 2048) = (c # q) ! Suc m" using r that by (metis Suc_less_eq length_Cons)
    then show ?thesis by (simp add: add.assoc)
  qed
  then show "pipe_rel i q (upd_pipe i (\<lambda>p. p\<lparr>p_head := i32 (p_head p + 1)\<rparr>) k)"
    using r i32 by (simp add: pipe_rel_def)
  show "0 \<le> ?h" "?h \<noteq> p_tail (the_pipe i k)" using r by simp_all
qed

lemma upd_pipe_comp: "i < length (ftable k) \<Longrightarrow> upd_pipe i g (upd_pipe i h k) = upd_pipe i (g \<circ> h) k"
  by (simp add: upd_pipe_def upd_file_def)

lemma upd_pipe_id: "i < length (ftable k) \<Longrightarrow> upd_pipe i (\<lambda>p. p) k = k"
  by (simp add: upd_pipe_def upd_file_def)

lemma upd_pipe_held [simp]: "upd_pipe i g (k\<lparr>held := h\<rparr>) = (upd_pipe i g k)\<lparr>held := h\<rparr>"
  by (simp add: upd_pipe_def upd_file_def)

lemma pipe_rel_frame [simp]:
  "pipe_rel i q (k\<lparr>held := h\<rparr>) = pipe_rel i q k" "pipe_rel i q (k\<lparr>curproc := c\<rparr>) = pipe_rel i q k"
  "pipe_rel i q (wakeup1 ch k) = pipe_rel i q k" "pipe_rel i q (upd_proc p f k) = pipe_rel i q k"
  by (auto intro!: pipe_rel_cong simp: wakeup1_def upd_proc_def)

lemma pipe_write_pushes:
  assumes "pipe_rel i q k" "length q + length bs \<le> 2048" "p_tail (the_pipe i k) + int (length bs) < 2147483648"
    and "f_ref (ftable k ! i) \<noteq> 1" "PtableLock \<notin> held k"
  shows "\<exists>g. pipe_rel i (q @ bs) (upd_pipe i g k) \<and>
    pipe_write i bs r k = bnd (release (PipeLock i) (wakeup1 (ChPipeRead i) (upd_pipe i g k)))
      (\<lambda>_. Ok (r + int (length bs)))"
  using assms
proof (induction bs arbitrary: q r k)
  case Nil
  then have "i < length (ftable k)" by (simp add: pipe_rel_def)
  then show ?case using Nil by (intro exI [of _ "\<lambda>p. p"]) (simp add: upd_pipe_id wakeup_eq)
next
  case (Cons c bs)
  let ?f = "\<lambda>p. p\<lparr>p_buf := (p_buf p)[nat (p_tail p mod PIPESIZE) := c], p_tail := i32 (p_tail p + 1)\<rparr>"
  have i: "i < length (ftable k)" and ht: "p_tail (the_pipe i k) = p_head (the_pipe i k) + int (length q)"
      "0 \<le> p_tail (the_pipe i k)" using Cons.prems(1) by (auto simp: pipe_rel_def)
  have rel: "pipe_rel i (q @ [c]) (upd_pipe i ?f k)" using pipe_push [of i q k c] Cons.prems by simp
  have "i32 (p_tail (the_pipe i k) + 1) = p_tail (the_pipe i k) + 1" using Cons.prems ht by (intro i32_id) auto
  then have "\<exists>g. pipe_rel i ((q @ [c]) @ bs) (upd_pipe i g (upd_pipe i ?f k)) \<and>
      pipe_write i bs (r + 1) (upd_pipe i ?f k) = bnd (release (PipeLock i) (wakeup1 (ChPipeRead i) (upd_pipe i g (upd_pipe i ?f k))))
        (\<lambda>_. Ok (r + 1 + int (length bs)))"
    using Cons.prems i by (intro Cons.IH [OF rel]) simp_all
  then obtain g where g: "pipe_rel i (q @ c # bs) (upd_pipe i g k)"
      "pipe_write i bs (r + 1) (upd_pipe i ?f k) = bnd (release (PipeLock i) (wakeup1 (ChPipeRead i) (upd_pipe i g k)))
        (\<lambda>_. Ok (r + 1 + int (length bs)))" by (auto simp: upd_pipe_comp i)
  have "pipe_write i (c # bs) r k = pipe_write i bs (r + 1) (upd_pipe i ?f k)" using Cons.prems ht by simp
  then show ?case using g by (intro exI [of _ g]) (simp add: algebra_simps)
qed

lemma pipe_read_pops:
  assumes "pipe_rel i q k" "curproc k = Some p" "\<not> killed (ptable k ! p)" "PtableLock \<notin> held k"
  shows "\<exists>g. pipe_rel i (drop n q) (upd_pipe i g k) \<and>
    pipe_read_loop i n r k = bnd (release (PipeLock i) (wakeup1 (ChPipeWrite i) (upd_pipe i g k)))
      (\<lambda>_. Ok (r + int (min n (length q)), take n q))"
  using assms
proof (induction n arbitrary: q r k)
  case 0
  then have "i < length (ftable k)" by (simp add: pipe_rel_def)
  then show ?case using 0 by (intro exI [of _ "\<lambda>p. p"]) (simp add: upd_pipe_id wakeup_eq)
next
  case (Suc n)
  have i: "i < length (ftable k)" using Suc.prems(1) by (simp add: pipe_rel_def)
  show ?case
  proof (cases q)
    case Nil
    then have "p_head (the_pipe i k) = p_tail (the_pipe i k)" using Suc.prems(1) by (simp add: pipe_rel_def)
    then show ?thesis using Suc.prems Nil i by (intro exI [of _ "\<lambda>p. p"]) (simp add: upd_pipe_id wakeup_eq)
  next
    case (Cons c q')
    let ?f = "\<lambda>p. p\<lparr>p_head := i32 (p_head p + 1)\<rparr>"
    note pop = pipe_pop [OF Suc.prems(1) [unfolded Cons]]
    have "\<exists>g. pipe_rel i (drop n q') (upd_pipe i g (upd_pipe i ?f k)) \<and>
        pipe_read_loop i n (r + 1) (upd_pipe i ?f k) = bnd (release (PipeLock i) (wakeup1 (ChPipeWrite i) (upd_pipe i g (upd_pipe i ?f k))))
          (\<lambda>_. Ok (r + 1 + int (min n (length q')), take n q'))"
      using Suc.prems by (intro Suc.IH [OF pop(1)]) simp_all
    then obtain g where g: "pipe_rel i (drop n q') (upd_pipe i g k)"
        "pipe_read_loop i n (r + 1) (upd_pipe i ?f k) = bnd (release (PipeLock i) (wakeup1 (ChPipeWrite i) (upd_pipe i g k)))
          (\<lambda>_. Ok (r + 1 + int (min n (length q')), take n q'))" by (auto simp: upd_pipe_comp i)
    have "pipe_read_loop i (Suc n) r k = bnd (pipe_read_loop i n (r + 1) (upd_pipe i ?f k)) (\<lambda>(r, bs) k. Ok (r, c # bs) k)"
      using Suc.prems pop by simp
    then show ?thesis using g Cons
      by (intro exI [of _ g]) (simp add: bnd_assoc algebra_simps)
  qed
qed

lemma filewrite_pipe:
  assumes rel: "pipe_rel i q k" and cur: "curproc k = Some p"
    and fd: "0 \<le> fd" "fd < 16" "pftable (ptable k ! p) ! nat fd = Some i"
    and locks: "PipeLock i \<notin> held k" "PtableLock \<notin> held k"
    and room: "length q + length bs \<le> 2048" "p_tail (the_pipe i k) + int (length bs) < 2147483648" "f_ref (ftable k ! i) \<noteq> 1"
  shows "\<exists>g. filewrite fd bs (int (length bs)) k = Ok (int (length bs)) (wakeup1 (ChPipeRead i) (upd_pipe i g k)) \<and>
    pipe_rel i (q @ bs) (upd_pipe i g k)"
proof -
  let ?k = "k\<lparr>held := insert (PipeLock i) (held k)\<rparr>"
  have "\<exists>g. pipe_rel i (q @ bs) (upd_pipe i g ?k) \<and>
      pipe_write i bs 0 ?k = bnd (release (PipeLock i) (wakeup1 (ChPipeRead i) (upd_pipe i g ?k))) (\<lambda>_. Ok (0 + int (length bs)))"
    using rel locks room by (intro pipe_write_pushes) simp_all
  then obtain g where g: "pipe_rel i (q @ bs) (upd_pipe i g k)" "pipe_write i bs 0 ?k =
      bnd (release (PipeLock i) (wakeup1 (ChPipeRead i) (upd_pipe i g ?k))) (\<lambda>_. Ok (int (length bs)))" by auto
  have "isPipe (ftable k ! i)" using rel by (simp add: pipe_rel_def)
  then have "filewrite fd bs (int (length bs)) k = Ok (int (length bs)) (wakeup1 (ChPipeRead i) (upd_pipe i g k))"
    using cur fd locks g(2) by (simp add: filewrite_def get_fd_def)
  with g(1) show ?thesis by blast
qed

lemma pipe_read_some:
  assumes rel: "pipe_rel i q k" and ne: "q \<noteq> []" and cur: "curproc k = Some p" "\<not> killed (ptable k ! p)"
    and locks: "PipeLock i \<notin> h" "PtableLock \<notin> h" "held k = insert (PipeLock i) h"
  shows "\<exists>g. pipe_read i (int n) k = Ok (int (min n (length q)), take n q)
      ((wakeup1 (ChPipeWrite i) (upd_pipe i g k))\<lparr>held := h\<rparr>) \<and> pipe_rel i (drop n q) (upd_pipe i g k)"
proof -
  have ht: "p_head (the_pipe i k) \<noteq> p_tail (the_pipe i k)" using rel ne by (simp add: pipe_rel_def)
  have "\<exists>g. pipe_rel i (drop n q) (upd_pipe i g k) \<and> pipe_read_loop i n 0 k =
      bnd (release (PipeLock i) (wakeup1 (ChPipeWrite i) (upd_pipe i g k))) (\<lambda>_. Ok (0 + int (min n (length q)), take n q))"
    using rel locks cur by (intro pipe_read_pops) simp_all
  then show ?thesis using ht locks by (auto simp: pipe_read_def)
qed

section \<open>Properties of pipes\<close>

text \<open>C14: A pipe is a first-in first-out queue: for the list \<open>q\<close> of the bytes in the pipe, a write
  that fits appends its bytes and returns their number, and a read by the read end of a pipe that is not empty
  returns the oldest bytes, at most as many as asked for, and removes them. Both leave the locks as they
  found them. The ring indices run on modulo the size of the buffer, so the bytes may wrap around.\<close>

theorem pipe_fifo:
  assumes rel: "pipe_rel i q k" and cur: "curproc k = Some p" "\<not> killed (ptable k ! p)"
    and fd: "0 \<le> fd" "fd < 16" "pftable (ptable k ! p) ! nat fd = Some i"
    and locks: "PipeLock i \<notin> held k" "PtableLock \<notin> held k"
  shows "(length q + length bs \<le> 2048 \<and> p_tail (the_pipe i k) + int (length bs) < 2147483648 \<and> f_ref (ftable k ! i) \<noteq> 1 \<longrightarrow>
      (\<exists>k'. filewrite fd bs (int (length bs)) k = Ok (int (length bs)) k' \<and> pipe_rel i (q @ bs) k' \<and> held k' = held k)) \<and>
    (q \<noteq> [] \<and> read_fd (the_pipe i k) = fd \<longrightarrow>
      (\<exists>k'. fileread fd (int n) k = Ok (int (min n (length q)), take n q) k' \<and> pipe_rel i (drop n q) k' \<and> held k' = held k))"
proof (intro conjI impI; elim conjE)
  assume "length q + length bs \<le> 2048" "p_tail (the_pipe i k) + int (length bs) < 2147483648" "f_ref (ftable k ! i) \<noteq> 1"
  from filewrite_pipe [OF rel cur(1) fd locks this]
  show "\<exists>k'. filewrite fd bs (int (length bs)) k = Ok (int (length bs)) k' \<and> pipe_rel i (q @ bs) k' \<and> held k' = held k"
    by auto
next
  assume ne: "q \<noteq> []" "read_fd (the_pipe i k) = fd"
  let ?k = "k\<lparr>held := insert (PipeLock i) (held k)\<rparr>"
  have "isPipe (ftable k ! i)" using rel by (simp add: pipe_rel_def)
  then have "fileread fd (int n) k = pipe_read i (int n) ?k"
    using cur(1) fd locks(1) ne(2) by (simp add: fileread_def get_fd_def)
  moreover have "\<exists>g. pipe_read i (int n) ?k = Ok (int (min n (length q)), take n q)
      ((wakeup1 (ChPipeWrite i) (upd_pipe i g ?k))\<lparr>held := held k\<rparr>) \<and> pipe_rel i (drop n q) (upd_pipe i g ?k)"
    using rel cur locks by (intro pipe_read_some [OF _ ne(1)]) simp_all
  ultimately show "\<exists>k'. fileread fd (int n) k = Ok (int (min n (length q)), take n q) k' \<and> pipe_rel i (drop n q) k' \<and> held k' = held k"
    by auto
qed

text \<open>A pipe opened by the running process, as \<open>pipe_open\<close> leaves it on descriptors 0 and 1.\<close>

definition k0_pipe :: kernel where
  "k0_pipe = (case pipe_open k0 of Ok _ k \<Rightarrow> k | _ \<Rightarrow> k0)"

lemma replicate_100: "replicate 100 x = x # replicate 99 x"
  using replicate_Suc [of 99 x] by simp

lemmas k0_pipe_simps = k0_pipe_def pipe_open_def k0_def proc0_def upt_conv_Cons file0_def pipe0_def upd_file_def
  upd_pipe_def set_fd_def upd_proc_def pipe_rel_def replicate_100

lemma pipe_open_k0: "pipe_open k0 = Ok (0, [0, 1]) k0_pipe"
  by (simp add: k0_pipe_simps)

lemma k0_pipe_state:
  "pipe_rel 0 [] k0_pipe" "curproc k0_pipe = Some 0" "\<not> killed (ptable k0_pipe ! 0)"
  "pftable (ptable k0_pipe ! 0) ! 0 = Some 0" "pftable (ptable k0_pipe ! 0) ! 1 = Some 0" "held k0_pipe = {}"
  "f_ref (ftable k0_pipe ! 0) = 2" "read_fd (the_pipe 0 k0_pipe) = 0" "p_tail (the_pipe 0 k0_pipe) = 0"
  "length (ptable k0_pipe) = 64"
  by (simp_all add: k0_pipe_simps)

theorem pipe_fifo_witness:
  "\<exists>k'. filewrite 1 [7, 8, 9] 3 k0_pipe = Ok 3 k' \<and> pipe_rel 0 [7, 8, 9] k' \<and> held k' = {}"
  using pipe_fifo [of 0 "[]" k0_pipe 0 1 "[7, 8, 9]"] k0_pipe_state by simp

end
