(* ===== verification/Fdrefs.thy ===== *)
theory Fdrefs
  imports File
begin

text \<open>
  The reference counts of the open-file table: the count of an entry is the number of descriptors, over
  all processes, that point to it, so an entry with count zero, which \<open>fileopen\<close> and \<open>pipe\<close> hand
  out again, is one nobody can reach. Every operation of \<open>kernel/file.c\<close> keeps this. Also: a process
  waiting on an empty pipe is woken by a write and then gets the bytes.
\<close>

section \<open>The invariant\<close>

definition fdtabs :: "kernel \<Rightarrow> nat option list list" where
  "fdtabs k = map pftable (ptable k)"

definition fd_refs :: "nat \<Rightarrow> nat option list list \<Rightarrow> int" where
  "fd_refs i ts = sum_list (map (\<lambda>t. int (count_if (\<lambda>d. d = Some i) t)) ts)"

definition fd_ok :: "nat option list list \<Rightarrow> file_info list \<Rightarrow> bool" where
  "fd_ok ts fs \<longleftrightarrow> length ts = NPROC \<and>
     (\<forall>t \<in> set ts. length t = NOFILE \<and> (\<forall>i. Some i \<in> set t \<longrightarrow> i < length fs)) \<and>
     (\<forall>i < length fs. f_ref (fs ! i) = fd_refs i ts)"

definition fd_inv :: "kernel \<Rightarrow> bool" where
  "fd_inv k \<longleftrightarrow> fd_ok (fdtabs k) (ftable k)"

lemma fdtabs_frame [simp]:
  "fdtabs (k\<lparr>held := h\<rparr>) = fdtabs k" "fdtabs (upd_file i f k) = fdtabs k" "fdtabs (upd_pipe i g k) = fdtabs k"
  "ftable (set_fd p fd v k) = ftable k" "held (set_fd p fd v k) = held k" "curproc (set_fd p fd v k) = curproc k"
  "length (fdtabs k) = length (ptable k)"
  by (simp_all add: fdtabs_def upd_file_def upd_pipe_def set_fd_def upd_proc_def)

lemma length_ptable_set_fd [simp]: "length (ptable (set_fd p fd v k)) = length (ptable k)"
  by (simp add: set_fd_def)

lemma fdtabs_set_fd: "p < length (ptable k) \<Longrightarrow> fdtabs (set_fd p fd v k) = (fdtabs k)[p := (fdtabs k ! p)[fd := v]]"
  by (simp add: fdtabs_def set_fd_def upd_proc_def map_update)

lemma fdtabs_nth: "p < length (ptable k) \<Longrightarrow> fdtabs k ! p = pftable (ptable k ! p)"
  by (simp add: fdtabs_def)

lemma fd_refs_set:
  assumes "p < length ts" "fd < length (ts ! p)"
  shows "fd_refs i (ts[p := (ts ! p)[fd := v]]) =
    fd_refs i ts + (if v = Some i then 1 else 0) - (if ts ! p ! fd = Some i then 1 else 0)"
  using assms by (simp add: fd_refs_def map_update sum_list_update_int count_if_update)

lemma fd_refs_le:
  assumes "fd_ok ts fs"
  shows "fd_refs i ts \<le> 1024"
proof -
  have "sum_list (map (\<lambda>t. int (count_if (\<lambda>d. d = Some i) t)) ts) \<le> sum_list (map (\<lambda>t. 16) ts)"
  proof (rule sum_list_mono)
    fix t assume "t \<in> set ts"
    then have "length t = 16" using assms by (simp add: fd_ok_def)
    then show "int (count_if (\<lambda>d. d = Some i) t) \<le> 16" using count_if_le [of "\<lambda>d. d = Some i" t] by simp
  qed
  then show ?thesis using assms by (simp add: fd_refs_def fd_ok_def sum_list_triv)
qed

lemma fd_refs_pos:
  assumes "p < length ts" "fd < length (ts ! p)" "ts ! p ! fd = Some i"
  shows "1 \<le> fd_refs i ts"
proof -
  have "0 \<le> fd_refs i (ts[p := (ts ! p)[fd := None]])" unfolding fd_refs_def by (rule sum_list_nonneg) auto
  then show ?thesis using fd_refs_set [OF assms(1,2), of i None] assms(3) by simp
qed

text \<open>One descriptor changes and the counts follow.\<close>

lemma fd_ok_set:
  assumes ok: "fd_ok ts fs" and p: "p < length ts" and fd: "fd < length (ts ! p)"
    and v: "\<And>i. v = Some i \<Longrightarrow> i < length fs" and len: "length fs' = length fs"
    and ref: "\<And>i. i < length fs \<Longrightarrow> f_ref (fs' ! i) =
      f_ref (fs ! i) + (if v = Some i then 1 else 0) - (if ts ! p ! fd = Some i then 1 else 0)"
  shows "fd_ok (ts[p := (ts ! p)[fd := v]]) fs'"
proof -
  have "t \<in> set ts \<or> t = (ts ! p)[fd := v]" if "t \<in> set (ts[p := (ts ! p)[fd := v]])" for t
    using that set_update_subset_insert by fastforce
  moreover have "ts ! p \<in> set ts" using p by simp
  moreover have "d \<in> set (ts ! p) \<or> d = v" if "d \<in> set ((ts ! p)[fd := v])" for d
    using that set_update_subset_insert by fastforce
  ultimately show ?thesis using ok v len ref fd_refs_set [OF p fd, of _ v]
    unfolding fd_ok_def by (metis length_list_update)
qed

lemma fd_inv_set:
  assumes inv: "fd_inv k" and p: "p < length (ptable k)" and fd: "fd < 16"
    and v: "\<And>i. v = Some i \<Longrightarrow> i < length (ftable k)" and len: "length (ftable k') = length (ftable k)"
    and ts: "fdtabs k' = fdtabs (set_fd p fd v k)"
    and ref: "\<And>i. i < length (ftable k) \<Longrightarrow> f_ref (ftable k' ! i) = f_ref (ftable k ! i) +
      (if v = Some i then 1 else 0) - (if pftable (ptable k ! p) ! fd = Some i then 1 else 0)"
  shows "fd_inv k'"
proof -
  have "fdtabs k ! p \<in> set (fdtabs k)" using p by simp
  then have "length (fdtabs k ! p) = 16" using inv unfolding fd_inv_def fd_ok_def by blast
  then show ?thesis unfolding fd_inv_def ts fdtabs_set_fd [OF p]
    using inv p fd v len ref by (intro fd_ok_set [of _ "ftable k"]) (simp_all add: fd_inv_def fdtabs_nth)
qed

lemma fd_inv_entry:
  assumes "fd_inv k" "p < length (ptable k)"
  shows "length (pftable (ptable k ! p)) = 16"
    "fd < 16 \<Longrightarrow> pftable (ptable k ! p) ! fd = Some i \<Longrightarrow> i < length (ftable k) \<and> 1 \<le> f_ref (ftable k ! i)"
    "i < length (ftable k) \<Longrightarrow> f_ref (ftable k ! i) \<le> 1024"
proof -
  have mem: "pftable (ptable k ! p) \<in> set (fdtabs k)" using assms(2) by (simp add: fdtabs_def)
  show len: "length (pftable (ptable k ! p)) = 16" using assms(1) mem by (simp add: fd_inv_def fd_ok_def)
  show "i < length (ftable k) \<and> 1 \<le> f_ref (ftable k ! i)"
    if "fd < 16" "pftable (ptable k ! p) ! fd = Some i"
  proof -
    have "Some i \<in> set (pftable (ptable k ! p))" using that len by (metis nth_mem)
    then have i: "i < length (ftable k)" using assms(1) mem unfolding fd_inv_def fd_ok_def by blast
    have "1 \<le> fd_refs i (fdtabs k)" using that len assms(2) by (intro fd_refs_pos [of p _ fd]) (simp_all add: fdtabs_nth)
    with i assms(1) show ?thesis by (simp add: fd_inv_def fd_ok_def)
  qed
  show "f_ref (ftable k ! i) \<le> 1024" if "i < length (ftable k)"
    using assms(1) that fd_refs_le [of "fdtabs k" "ftable k" i] by (simp add: fd_inv_def fd_ok_def)
qed

section \<open>The operations\<close>

lemma get_fd_Ok_iff: "get_fd p fd k = Ok d k' \<longleftrightarrow> 0 \<le> fd \<and> fd < 16 \<and> d = pftable (ptable k ! p) ! nat fd \<and> k' = k"
  by (auto simp: get_fd_def)

lemma upd_file_held: "upd_file i f (k\<lparr>held := h\<rparr>) = (upd_file i f k)\<lparr>held := h\<rparr>"
  by (simp add: upd_file_def)

lemma set_fd_held: "set_fd p fd v (k\<lparr>held := h\<rparr>) = (set_fd p fd v k)\<lparr>held := h\<rparr>"
  by (simp add: set_fd_def upd_proc_def)

lemma upd_file_set_fd: "upd_file i f (set_fd p fd v k) = set_fd p fd v (upd_file i f k)"
  by (simp add: set_fd_def upd_file_def upd_proc_def)

lemma held_drop: "l \<notin> held k \<Longrightarrow> held k' = held k \<Longrightarrow> k'\<lparr>held := held k - {l}\<rparr> = k'"
  by simp

lemma fd_inv_held [simp]: "fd_inv (k\<lparr>held := h\<rparr>) = fd_inv k"
  by (simp add: fd_inv_def)

lemma upd_file_nth: "j < length (ftable k) \<Longrightarrow>
    ftable (upd_file i f k) ! j = (if i = j then f (ftable k ! j) else ftable k ! j)"
  by (auto simp: upd_file_def nth_list_update)

lemma find_fd:
  assumes "fd_inv k" "p < length (ptable k)" "find_index (\<lambda>d. d = None) (pftable (ptable k ! p)) = Some j"
  shows "j < 16" "pftable (ptable k ! p) ! j = None"
  using find_index_Some [OF assms(3)] fd_inv_entry(1) [OF assms(1,2)] by auto

text \<open>A free descriptor starts to point to entry \<open>i\<close>, whose count goes up.\<close>

lemma fd_inv_add:
  assumes inv: "fd_inv k" and p: "p < length (ptable k)" and fd: "fd < 16" "pftable (ptable k ! p) ! fd = None"
    and i: "i < length (ftable k)" and f: "f_ref (f (ftable k ! i)) = f_ref (ftable k ! i) + 1"
  shows "fd_inv (upd_file i f (set_fd p fd (Some i) k))"
  using fd i f by (intro fd_inv_set [OF inv p, of fd "Some i"]) (auto simp: upd_file_nth)

lemma i32_ref:
  assumes "fd_inv k" "p < length (ptable k)" "pftable (ptable k ! p) ! fd = Some i" "fd < 16"
  shows "i32 (f_ref (ftable k ! i) + 1) = f_ref (ftable k ! i) + 1"
proof -
  note e = fd_inv_entry [OF assms(1,2)]
  have "1 \<le> f_ref (ftable k ! i)" "f_ref (ftable k ! i) \<le> 1024" using e(2) [OF assms(4,3)] e(3) by blast+
  then show ?thesis by (intro i32_id) simp_all
qed

lemma filedup_cases:
  assumes cur: "curproc k = Some p" and ok: "filedup fd k = Ok r k'"
  obtains "k' = k"
  | i j where "0 \<le> fd" "fd < 16" "pftable (ptable k ! p) ! nat fd = Some i"
      "find_index (\<lambda>d. d = None) (pftable (ptable k ! p)) = Some j"
      "k' = upd_file i (\<lambda>f. f\<lparr>f_ref := i32 (f_ref f + 1)\<rparr>) (set_fd p j (Some i) k)"
proof -
  have fd: "\<not> fd < 0" "fd < 16" using cur ok by (auto simp: filedup_def res_iff get_fd_Ok_iff)
  show ?thesis
  proof (cases "pftable (ptable k ! p) ! nat fd")
    case None
    then show ?thesis using that(1) cur ok fd by (simp add: filedup_def get_fd_def)
  next
    case (Some i)
    let ?g = "\<not> isPipe (ftable k ! i) \<and> f_iptr (ftable k ! i) = None"
    show ?thesis
    proof (cases "?g \<or> find_index (\<lambda>d. d = None) (pftable (ptable k ! p)) = None")
      case True
      then show ?thesis using that(1) cur ok fd Some by (auto simp: filedup_def get_fd_def split: if_splits)
    next
      case False
      then obtain j where j: "find_index (\<lambda>d. d = None) (pftable (ptable k ! p)) = Some j" by auto
      let ?k = "upd_file i (\<lambda>f. f\<lparr>f_ref := i32 (f_ref f + 1)\<rparr>) (set_fd p j (Some i) k)"
      have "bnd (acquire FtableLock k) (\<lambda>_ k. bnd (release FtableLock (upd_file i
          (\<lambda>f. f\<lparr>f_ref := i32 (f_ref f + 1)\<rparr>) (set_fd p j (Some i) k))) (\<lambda>_ k. Ok (int j) k)) = Ok r k'"
        using cur ok fd Some False j by (auto simp: filedup_def get_fd_def)
      then have "FtableLock \<notin> held k" "k' = ?k\<lparr>held := held k - {FtableLock}\<rparr>"
        by (auto simp: res_iff acquire_Ok_iff release_Ok_iff upd_file_held set_fd_held)
      then have "k' = ?k" by (simp add: held_drop)
      with that(2) fd Some j show ?thesis by force
    qed
  qed
qed

lemma filedup_inv:
  assumes "fd_inv k" "curproc k = Some p" "p < length (ptable k)" "filedup fd k = Ok r k'"
  shows "fd_inv k'"
  using assms(2,4)
proof (cases rule: filedup_cases)
  case (2 i j)
  have fd: "nat fd < 16" using 2(1,2) by simp
  show ?thesis unfolding 2(5)
    using fd_inv_entry(2) [OF assms(1,3) fd 2(3)] i32_ref [OF assms(1,3) 2(3) fd] find_fd [OF assms(1,3) 2(4)]
    by (intro fd_inv_add [OF assms(1,3)]) simp_all
qed (use assms(1) in simp)

lemma irelease_frame:
  assumes "irelease ip k = Ok u k'"
  shows "ftable k' = ftable k" "ptable k' = ptable k" "held k' = held k"
  using assms by (cases ip; auto simp: irelease_def res_iff acquire_Ok_iff release_Ok_iff Let_def)+

lemma irelease_free:
  assumes "IcacheLock \<notin> held k"
  obtains k' where "irelease ip k = Ok () k'" "ptable k' = ptable k" "curproc k' = curproc k" "initproc k' = initproc k" "held k' = held k"
  by (rule that [of "case irelease ip k of Ok _ k' \<Rightarrow> k'"]; cases ip) (use assms in \<open>simp_all add: irelease_def Let_def\<close>)

lemma fileclose_closes:
  assumes k: "held k = {}" "curproc k = Some p" and fd: "fd < NOFILE"
    and i: "pftable (ptable k ! p) ! fd = Some i" "isPipe (ftable k ! i) \<or> f_iptr (ftable k ! i) \<noteq> None"
  shows "\<exists>k1. fileclose (int fd) k = Ok 0 (set_fd p fd None k1) \<and> ptable k1 = ptable k \<and> curproc k1 = curproc k \<and>
    initproc k1 = initproc k \<and> held k1 = {} \<and>
    ftable k1 = (ftable k)[i := (if 1 < f_ref (ftable k ! i) then (ftable k ! i)\<lparr>f_ref := f_ref (ftable k ! i) - 1\<rparr>
      else (ftable k ! i)\<lparr>f_iptr := None, f_ref := 0, f_path := 0, access_permission := 0, f_offset := 0\<rparr>)]"
proof -
  let ?f = "ftable k ! i" and ?k = "k\<lparr>held := {FtableLock}\<rparr>"
  let ?u = "\<lambda>f. f\<lparr>f_iptr := None, f_ref := 0, f_path := 0, access_permission := 0, f_offset := 0\<rparr>"
  obtain k1 where k1: "irelease (the (f_iptr ?f)) ?k = Ok () k1" "ptable k1 = ptable k" "curproc k1 = curproc k"
    "initproc k1 = initproc k" "held k1 = {FtableLock}"
    by (rule irelease_free [of ?k "the (f_iptr ?f)"]) (simp, rule that, simp_all)
  have ft: "ftable k1 = ftable k" using irelease_frame(1) [OF k1(1)] by simp
  consider (many) "\<not> (\<not> isPipe ?f \<and> f_iptr ?f = None)" "1 < f_ref ?f" | (pipe) "isPipe ?f" "\<not> 1 < f_ref ?f"
    | (last) "\<not> isPipe ?f" "f_iptr ?f \<noteq> None" "\<not> 1 < f_ref ?f" using i(2) by argo
  then show ?thesis
  proof cases
    case many
    then show ?thesis using k fd i(1)
      by (intro exI [of _ "upd_file i (\<lambda>f. f\<lparr>f_ref := f_ref f - 1\<rparr>) k"]) (simp add: fileclose_def myproc_def get_fd_def upd_file_def)
  next
    case pipe
    then show ?thesis using k fd i(1)
      by (intro exI [of _ "upd_file i ?u k"]) (simp add: fileclose_def myproc_def get_fd_def upd_file_def)
  next
    case last
    then show ?thesis using k fd i(1) k1 ft
      by (intro exI [of _ "(upd_file i ?u k1)\<lparr>held := {}\<rparr>"]) (simp add: fileclose_def myproc_def get_fd_def upd_file_def)
  qed
qed

lemma fileclose_cases:
  assumes cur: "curproc k = Some p" and ok: "fileclose fd k = Ok r k'"
  obtains "k' = k"
  | i where "pftable (ptable k ! p) ! nat fd = Some i" "1 < f_ref (ftable k ! i)"
      "k' = upd_file i (\<lambda>f. f\<lparr>f_ref := f_ref f - 1\<rparr>) (set_fd p (nat fd) None k)"
  | i k1 where "pftable (ptable k ! p) ! nat fd = Some i" "f_ref (ftable k ! i) \<le> 1"
      "ftable k1 = ftable k" "ptable k1 = ptable k" "k' = upd_file i (\<lambda>f. f\<lparr>f_iptr := None, f_ref := 0, f_path := 0,
         access_permission := 0, f_offset := 0\<rparr>) (set_fd p (nat fd) None k1)"
proof (cases "pftable (ptable k ! p) ! nat fd")
  case None
  then show ?thesis using that(1) cur ok by (auto simp: fileclose_def res_iff get_fd_Ok_iff)
next
  case (Some i)
  have fd: "\<not> fd < 0" "fd < 16" using cur ok by (auto simp: fileclose_def res_iff get_fd_Ok_iff)
  let ?f = "ftable k ! i" and ?k = "k\<lparr>held := insert FtableLock (held k)\<rparr>"
  let ?g = "\<lambda>f :: file_info. f\<lparr>f_iptr := None, f_ref := 0, f_path := 0, access_permission := 0, f_offset := 0\<rparr>"
  show ?thesis
  proof (cases "\<not> isPipe ?f \<and> f_iptr ?f = None")
    case True
    then show ?thesis using that(1) cur ok Some by (auto simp: fileclose_def res_iff get_fd_Ok_iff)
  next
    case False
    have "FtableLock \<notin> held k" using cur ok Some False by (auto simp: fileclose_def res_iff get_fd_Ok_iff acquire_Ok_iff)
    note fd = fd this
    show ?thesis
    proof (cases "1 < f_ref ?f")
      case True
      then have "k' = upd_file i (\<lambda>f. f\<lparr>f_ref := f_ref f - 1\<rparr>) (set_fd p (nat fd) None k)" using cur ok Some False
        by (auto simp: fileclose_def res_iff get_fd_Ok_iff acquire_Ok_iff release_Ok_iff upd_file_held set_fd_held upd_file_set_fd held_drop)
      with that(2) [OF Some True] show ?thesis .
    next
      case r1: False
      define X where "X = (if \<not> isPipe ?f then irelease (the (f_iptr ?f)) ?k else Ok () ?k)"
      have "bnd (bnd X (\<lambda>_ k. Ok () (upd_file i ?g k))) (\<lambda>_ k. bnd (release FtableLock k) (\<lambda>_ k.
          Ok 0 (set_fd p (nat fd) None k))) = Ok r k'"
        using cur ok Some False r1 fd by (simp add: fileclose_def get_fd_def X_def cong: if_cong)
      then obtain k1 where k1: "X = Ok () k1" "k' = set_fd p (nat fd) None (upd_file i ?g k1\<lparr>held := held k1 - {FtableLock}\<rparr>)"
        by (auto simp: res_iff release_Ok_iff)
      have "ftable k1 = ftable k" "ptable k1 = ptable k"
        using k1(1) irelease_frame [of "the (f_iptr ?f)" ?k "()" k1] by (auto simp: X_def split: if_splits)
      then show ?thesis using r1 k1(2)
        by (intro that(3) [of i "k1\<lparr>held := held k1 - {FtableLock}\<rparr>"]) (simp_all add: Some upd_file_held set_fd_held upd_file_set_fd)
    qed
  qed
qed

lemma fileclose_inv:
  assumes "fd_inv k" "curproc k = Some p" "p < length (ptable k)" "fileclose fd k = Ok r k'"
  shows "fd_inv k'"
proof -
  let ?d = "pftable (ptable k ! p) ! nat fd"
  have fd: "0 \<le> fd" "fd < 16" using assms by (auto simp: fileclose_def res_iff get_fd_Ok_iff)
  from assms(2,4) show ?thesis
  proof (cases rule: fileclose_cases)
    case (2 i)
    show ?thesis unfolding 2(3) using fd 2(1)
      by (intro fd_inv_set [OF assms(1,3), of "nat fd" None]) (auto simp: upd_file_nth)
  next
    case (3 i k1)
    have ts: "fdtabs (set_fd p (nat fd) None k1) = fdtabs (set_fd p (nat fd) None k)"
      using 3(4) by (simp add: fdtabs_def set_fd_def upd_proc_def)
    have "f_ref (ftable k ! i) = 1" using 3(2) fd_inv_entry(2) [OF assms(1,3) _ 3(1)] fd by auto
    then show ?thesis unfolding 3(5) using 3(1,3) ts fd
      by (intro fd_inv_set [OF assms(1,3), of "nat fd" None]) (auto simp: upd_file_nth)
  qed (use assms(1) in simp)
qed

lemma fd_inv_upd: "(\<And>f. f_ref (g f) = f_ref f) \<Longrightarrow> fd_inv (upd_file i g k) = fd_inv k"
  by (simp add: fd_inv_def fd_ok_def upd_file_nth)

lemma fd_inv_cong: "ftable k' = ftable k \<Longrightarrow> map pftable (ptable k') = map pftable (ptable k) \<Longrightarrow> fd_inv k' = fd_inv k"
  by (simp add: fd_inv_def fdtabs_def)

lemma pipe_fds_inv:
  "fd_inv k \<Longrightarrow> p < length (ptable k) \<Longrightarrow> i < length (ftable k) \<Longrightarrow> \<forall>j \<in> set js. j < 16 \<Longrightarrow>
     pipe_fds js p i fds k = (fds', k') \<Longrightarrow> fd_inv k'"
proof (induction js arbitrary: fds k)
  case (Cons j js)
  let ?k = "upd_file i (\<lambda>f. f\<lparr>f_ref := f_ref f + 1\<rparr>) (set_fd p j (Some i) k)"
  show ?case
  proof (cases "pftable (ptable k ! p) ! j = None \<and> length fds < 2")
    case True
    have "fd_inv ?k" using True Cons.prems by (intro fd_inv_add [OF Cons.prems(1,2)]) simp_all
    moreover have "length (ptable ?k) = length (ptable k)" "length (ftable ?k) = length (ftable k)"
      by simp_all
    ultimately show ?thesis using True Cons.prems Cons.IH [of ?k "fds @ [j]"] by simp
  qed (use Cons in auto)
qed simp

lemma consputc_step: "consputc c k = Ok u k' \<Longrightarrow> cons_step k k'"
  by (auto simp: consputc_def cgaputc_def cga_place_def res_iff cons_step_def cons_erase_def uartputc_def Let_def
      split: if_splits prod.splits)

lemma consputs_step: "consputs cs k = Ok u k' \<Longrightarrow> cons_step k k'"
  by (induction cs arbitrary: k) (auto simp: res_iff dest!: consputc_step intro: cons_step_trans)

lemma cprintf_step:
  assumes "cprintf fmt args k = Ok u k'"
  shows "cons_step k k'"
proof -
  let ?k = "if cons_locking k then k\<lparr>held := insert ConsLock (held k)\<rparr> else k"
  have c: "cons_locking k \<longrightarrow> ConsLock \<notin> held k" using assms by (auto simp: cprintf_def res_iff acquire_Ok_iff)
  obtain out where out: "cfmt fmt args = Some out"
    using assms by (auto simp: cprintf_def res_iff split: option.splits)
  have "bnd (consputs (map uint out) ?k) (\<lambda>_ k. if cons_locking k then release ConsLock k else Ok () k) = Ok u k'"
    using assms c out by (cases "cons_locking k") (simp_all add: cprintf_def)
  then obtain k1 where k1: "consputs (map uint out) ?k = Ok () k1"
    and k': "(if cons_locking k1 then release ConsLock k1 else Ok () k1) = Ok () k'" by (auto elim: bnd_OkE)
  note step = consputs_step [OF k1]
  have k': "k' = (if cons_locking k then k1\<lparr>held := held k\<rparr> else k1)"
    using k' c cons_stepD(1,8) [OF step] by (auto simp: release_Ok_iff split: if_splits)
  show ?thesis
  proof (cases "cons_locking k")
    case True
    have e: "cons_erase (x\<lparr>held := h\<rparr>) = (cons_erase x)\<lparr>held := h\<rparr>" for x h by (simp add: cons_erase_def)
    have "(cons_erase k)\<lparr>held := held k\<rparr> = cons_erase k" by (simp add: cons_erase_def)
    then show ?thesis using True step by (simp add: k' cons_step_def e)
  qed (use step in \<open>simp add: k'\<close>)
qed

lemma fs_inv_console: "fs_inv h (k\<lparr>cons_out := a, crt := b, crt_pos := c\<rparr>) = fs_inv h k"
proof -
  let ?k = "k\<lparr>cons_out := a, crt := b, crt_pos := c\<rparr>"
  have same: "same_fs k ?k" by (simp add: same_fs_def)
  have "disk_ready ?k = disk_ready k" by (simp add: disk_ready_def bc_inv_def bc_shape_def buf_ok_def fs_ready_def)
  moreover have "ic_inv ?k = ic_inv k" by (simp add: ic_inv_def)
  moreover have "icache_inode ?k = icache_inode k" by simp
  ultimately show ?thesis by (simp only: fs_inv_def entry_ok_same [OF same] same_fsD(4) [OF same])
qed

lemma cprintf_frame:
  assumes "cprintf fmt args k = Ok u k'"
  shows "fd_inv k' = fd_inv k" "ptable k' = ptable k" "curproc k' = curproc k" "fs_inv None k' = fs_inv None k"
    "same_fs k k'" "refs k' = refs k"
proof -
  note step = cprintf_step [OF assms]
  show "fs_inv None k' = fs_inv None k"
    by (rule cons_step_field [OF step, of "fs_inv None"]) (rule fs_inv_console)
  have f: "ftable k' = ftable k" "memdisk k' = memdisk k" "icache_inodefile k' = icache_inodefile k"
    "disksize k' = disksize k" "icache_inode k' = icache_inode k" by (rule cons_step_field [OF step], simp)+
  show "ptable k' = ptable k" "curproc k' = curproc k" using cons_stepD [OF step] by simp_all
  then show "fd_inv k' = fd_inv k" "same_fs k k'" using f by (simp_all add: same_fs_def fd_inv_def fdtabs_def)
  show "refs k' = refs k" by (simp add: fun_eq_iff refs_def f)
qed

lemma pipe_open_inv:
  assumes "fd_inv k" "curproc k = Some p" "p < length (ptable k)" "pipe_open k = Ok r k'"
  shows "fd_inv k'"
proof (cases "find_index (\<lambda>f. f_ref f = 0) (ftable k)")
  case None
  then show ?thesis using assms cprintf_frame(1) by (auto simp: pipe_open_def res_iff)
next
  case (Some i)
  let ?k = "upd_file i (\<lambda>f. f\<lparr>isPipe := True, access_permission := 2\<rparr>) k"
  obtain fds k1 where k1: "pipe_fds [0 ..< NOFILE] p i [] ?k = (fds, k1)" by fastforce
  have "i < length (ftable k)" using find_index_lessD [OF Some] .
  moreover have "fd_inv ?k" using assms(1) by (simp add: fd_inv_upd)
  ultimately have "fd_inv k1" using pipe_fds_inv [OF _ _ _ _ k1] assms(3) by simp
  then have "fd_inv (upd_pipe i g k1)" for g by (simp add: upd_pipe_def fd_inv_upd)
  then show ?thesis using assms(2,4) Some k1 by (auto simp: pipe_open_def split: if_splits)
qed

text \<open>\<open>filecopy\<close> into a process whose descriptors are all free.\<close>

lemma filecopy_loop_inv:
  "fd_inv k \<Longrightarrow> pa < length (ptable k) \<Longrightarrow> ch < length (ptable k) \<Longrightarrow> pa \<noteq> ch \<Longrightarrow> distinct fds \<Longrightarrow>
     \<forall>fd \<in> set fds. fd < 16 \<and> pftable (ptable k ! ch) ! fd = None \<Longrightarrow>
     filecopy_loop fds pa ch k = Ok u k' \<Longrightarrow> fd_inv k'"
proof (induction fds arbitrary: k)
  case (Cons fd fds)
  show ?case
  proof (cases "pftable (ptable k ! pa) ! fd")
    case None
    then show ?thesis using Cons by (simp add: filecopy1_def)
  next
    case (Some i)
    let ?k = "upd_file i (\<lambda>f. f\<lparr>f_ref := i32 (f_ref f + 1)\<rparr>) (set_fd ch fd (Some i) k)"
    have fd: "fd < 16" "pftable (ptable k ! ch) ! fd = None" using Cons.prems(6) by simp_all
    have lock: "FtableLock \<notin> held k" using Cons.prems(7) Some by (auto simp: filecopy1_def res_iff acquire_Ok_iff)
    then have k: "filecopy1 pa ch fd k = Ok () ?k"
      using Some by (simp add: filecopy1_def upd_file_held set_fd_held held_drop)
    have inv: "fd_inv ?k"
      using fd_inv_entry(2) [OF Cons.prems(1,2) fd(1) Some] i32_ref [OF Cons.prems(1,2) Some fd(1)] fd
      by (intro fd_inv_add [OF Cons.prems(1,3)]) simp_all
    have pt: "length (ptable ?k) = length (ptable k)" "pftable (ptable (set_fd ch fd (Some i) k) ! ch) = (pftable (ptable k ! ch))[fd := Some i]"
      using Cons.prems(3) by (simp_all add: set_fd_def upd_proc_def)
    have free: "\<forall>fd' \<in> set fds. fd' < 16 \<and> pftable (ptable ?k ! ch) ! fd' = None"
    proof
      fix fd' assume "fd' \<in> set fds"
      moreover from this have "fd' \<noteq> fd" using Cons.prems(5) by auto
      ultimately show "fd' < 16 \<and> pftable (ptable ?k ! ch) ! fd' = None" using Cons.prems(6) by (simp add: pt(2))
    qed
    have rest: "filecopy_loop fds pa ch ?k = Ok u k'" using Cons.prems(7) k by simp
    show ?thesis by (rule Cons.IH [OF inv _ _ Cons.prems(4) _ free rest]) (use Cons.prems(2,3,5) in \<open>simp_all add: pt(1)\<close>)
  qed
qed simp

text \<open>\<open>fileopen\<close> of an absolute path.\<close>

lemma concurrent_stati_frame:
  assumes "fs_inv None k" "j < NINODE" "0 < i_ref (icache_inode k ! j)" "concurrent_stati (Some (Icache j)) k = Ok st k'"
  shows "same_fs k k'"
proof -
  obtain k1 where k1: "locki (Some (Icache j)) k = Ok () k1" "fs_inv (Some j) k1" "same_fs k k1"
    "i_ref (icache_inode k1 ! j) = i_ref (icache_inode k ! j)" using locki_fs [OF assms(1-3)] by blast
  have "held k1 = {}" using k1(2) disk_readyD(1) by (simp add: fs_inv_def)
  then obtain st' where "stati (Icache j) k1 = Ok st' k1"
    using assms(4) k1(1) by (auto simp: concurrent_stati_def stati_def holdingsleep_eq res_iff Let_def split: if_splits)
  then have "unlocki (Some (Icache j)) k1 = Ok () k'"
    using assms(4) k1(1) by (auto simp: concurrent_stati_def res_iff)
  moreover obtain k2 where "unlocki (Some (Icache j)) k1 = Ok () k2" "same_fs k1 k2"
    using unlocki_fs [OF k1(2) assms(2)] k1(4) assms(3) by auto
  ultimately show ?thesis using k1(3) same_fs_trans by auto
qed

definition fileopen_slot :: "nat \<Rightarrow> int \<Rightarrow> nat \<Rightarrow> nat \<Rightarrow> kernel \<Rightarrow> (kernel, int) res" where
  "fileopen_slot pa mode p j k =
     (if mode = T_DEV then Ok (-1) k
      else case find_index (\<lambda>d. d = None) (pftable (ptable k ! p)) of
        None \<Rightarrow> Ok (-1) k
      | Some pfd \<Rightarrow>
          (case find_index (\<lambda>f. f_ref f = 0) (ftable k) of
             None \<Rightarrow> Ok (int pfd) k
           | Some gfd \<Rightarrow>
               bnd (acquire FtableLock k) (\<lambda>_ k.
               let k = upd_file gfd (\<lambda>f. f\<lparr>f_ref := 1, f_iptr := Some (Icache j),
                         access_permission := mode, f_path := pa\<rparr>) k
               in bnd (release FtableLock (set_fd p pfd (Some gfd) k)) (\<lambda>_ k. Ok (int pfd) k))))"

lemma fileopen_slot_inv:
  assumes inv: "fd_inv k" "p < length (ptable k)" and ok: "fileopen_slot pa mode p j k = Ok r k'"
  shows "fd_inv k'"
proof (cases "k' = k")
  case False
  then obtain pfd gfd where pfd: "find_index (\<lambda>d. d = None) (pftable (ptable k ! p)) = Some pfd"
    and gfd: "find_index (\<lambda>f. f_ref f = 0) (ftable k) = Some gfd"
    using ok by (auto simp: fileopen_slot_def split: if_splits option.splits)
  let ?k = "upd_file gfd (\<lambda>f. f\<lparr>f_ref := 1, f_iptr := Some (Icache j), access_permission := mode, f_path := pa\<rparr>)
    (set_fd p pfd (Some gfd) k)"
  have "FtableLock \<notin> held k" "k' = ?k\<lparr>held := held k - {FtableLock}\<rparr>"
    using ok False pfd gfd
    by (auto simp: fileopen_slot_def res_iff acquire_Ok_iff release_Ok_iff upd_file_held set_fd_held upd_file_set_fd
        Let_def split: if_splits)
  then have "k' = ?k" by (simp add: held_drop)
  moreover have "fd_inv ?k" using find_fd [OF inv pfd] find_index_Some [OF gfd] by (intro fd_inv_add [OF inv]) auto
  ultimately show ?thesis by simp
qed (use inv in simp)

lemma fileopen_inv:
  assumes inv: "fd_inv k" and cur: "curproc k = Some p" "p < length (ptable k)"
    and fs: "fs_inv None k" "fs_wf k" "has_dinode ROOTINO k" "di_type (dinode_at ROOTINO k) \<noteq> 0" "roomy (refs k)"
    and ok: "fileopen pa (47 # path) mode k = Ok r k'"
  shows "fd_inv k'"
proof -
  obtain k1 where k1: "cprintf (map of_char ''file open path %s'' @ [10]) [PStr (Some (47 # path))] k = Ok () k1"
    using ok by (auto simp: fileopen_def res_iff)
  note f1 = cprintf_frame [OF k1]
  obtain d k2 where k2: "namei (47 # path) k1 = Ok d k2" using ok k1 by (auto simp: fileopen_def res_iff)
  have fs1: "fs_inv None k1" "fs_wf k1" "has_dinode ROOTINO k1" "di_type (dinode_at ROOTINO k1) \<noteq> 0" "roomy (refs k1)"
    using fs f1(4,6) same_fsD [OF f1(5)] walk_same(2) [OF f1(5)] by simp_all
  from namei_walk [OF fs1, of path] k2 have f2: "same_fs k1 k2" "fs_inv None k2"
    and j: "\<And>j. d = Some j \<Longrightarrow> j < NINODE \<and> 0 < i_ref (icache_inode k2 ! j)"
    by (auto split: option.splits prod.splits)
  have inv_same: "fd_inv a \<Longrightarrow> same_fs a b \<Longrightarrow> fd_inv b" for a b using fd_inv_cong [of b a] by (simp add: same_fs_def)
  have inv2: "fd_inv k2" using inv f1(1) inv_same [OF _ f2(1)] by simp
  show ?thesis
  proof (cases d)
    case None
    then show ?thesis using ok k1 k2 inv2 by (auto simp: fileopen_def res_iff cprintf_frame(1))
  next
    case (Some i)
    obtain st k3 where k3: "concurrent_stati (Some (Icache i)) k2 = Ok st k3"
      using ok k1 k2 Some by (auto simp: fileopen_def res_iff)
    have s3: "same_fs k2 k3" using concurrent_stati_frame [OF f2(2) _ _ k3] j [OF Some] by blast
    have inv3: "fd_inv k3" using inv_same [OF inv2 s3] .
    have len: "length (ptable a) = length (ptable b)" if "same_fs b a" for a b
      using that map_eq_imp_length_eq unfolding same_fs_def by blast
    have cur3: "curproc k3 = Some p" using cur f1(3) f2(1) s3 by (simp add: same_fs_def)
    have p3: "p < length (ptable k3)" using cur(2) f1(2) len [OF f2(1)] len [OF s3] by simp
    have rest: "fileopen pa (47 # path) mode k = fileopen_slot pa mode p i k3"
      using k1 k2 k3 Some cur3 by (simp add: fileopen_def fileopen_slot_def)
    from fileopen_slot_inv [OF inv3 p3 ok [unfolded rest]] show ?thesis .
  qed
qed

section \<open>Properties\<close>


lemma k0_fd_inv: "fd_inv k0"
proof -
  have "count_if (\<lambda>d. d = Some i) (pftable p) = 0" if "p \<in> set (ptable k0)" for p i
    using that by (auto simp: k0_def proc0_def count_if_def)
  then have "fd_refs i (fdtabs k0) = 0" for i by (simp add: fd_refs_def fdtabs_def comp_def cong: map_cong)
  moreover have "length (pftable p) = 16 \<and> (\<forall>i. Some i \<notin> set (pftable p))" if "p \<in> set (ptable k0)" for p
    using that by (auto simp: k0_def proc0_def)
  ultimately show ?thesis by (auto simp: fd_inv_def fd_ok_def) (auto simp: fdtabs_def k0_def file0_def)
qed


text \<open>C23: No wake-up is lost on a pipe: a process that reads an empty pipe goes to sleep with only
  \<open>ptable.lock\<close> held, a write by another process makes it runnable, and when it runs again it
  gets the oldest bytes written and leaves the rest in the pipe, with no lock held. The context switches of
  the scheduler are written out between the calls.\<close>

theorem pipe_reader_woken:
  assumes rel: "pipe_rel i [] k" and held: "held k = {}" and cur: "curproc k = Some p" "p < length (ptable k)"
    and fd: "0 \<le> fd" "fd < 16" "pftable (ptable k ! p) ! nat fd = Some i" "read_fd (the_pipe i k) = fd"
    and ref: "f_ref (ftable k ! i) \<noteq> 1" and alive: "\<not> killed (ptable k ! p)"
    and w: "w < length (ptable k)" "w \<noteq> p" "0 \<le> wfd" "wfd < 16" "pftable (ptable k ! w) ! nat wfd = Some i"
    and bs: "bs \<noteq> []" "length bs \<le> 2048" "p_tail (the_pipe i k) + int (length bs) < 2147483648"
  shows "\<exists>k1 k2 k3. fileread fd (int n) k = Sleeps k1 \<and> p_state (ptable k1 ! p) = SLEEPING \<and> held k1 = {PtableLock} \<and>
    filewrite wfd bs (int (length bs)) (k1\<lparr>held := {}, curproc := Some w\<rparr>) = Ok (int (length bs)) k2 \<and>
    p_state (ptable k2 ! p) = RUNNABLE \<and>
    fileread_wake i (int n) ((upd_proc p (\<lambda>r. r\<lparr>p_state := RUNNING\<rparr>) k2)\<lparr>held := {PtableLock}, curproc := Some p\<rparr>) =
      Ok (int (min n (length bs)), take n bs) k3 \<and>
    pipe_rel i (drop n bs) k3 \<and> held k3 = {}"
proof -
  let ?s = "\<lambda>q. q\<lparr>p_chan := ChPipeRead i, p_state := SLEEPING\<rparr>"
  define k1 where "k1 = (upd_proc p ?s (wakeup1 (ChPipeWrite i) k))\<lparr>held := {PtableLock}\<rparr>"
  have i: "i < length (ftable k)" and pipe: "isPipe (ftable k ! i)" and ht: "p_head (the_pipe i k) = p_tail (the_pipe i k)"
    using rel by (auto simp: pipe_rel_def)
  have sleeps: "fileread fd (int n) k = Sleeps k1"
    using cur fd held pipe ht ref alive wakeup1_nth [of p k]
    by (simp add: fileread_def get_fd_def pipe_read_def wakeup_eq sleep_def sched_def holding_def upd_proc_def
        k1_def insert_Diff_if)
  define kw where "kw = k1\<lparr>held := {}, curproc := Some w\<rparr>"
  have pt1: "ptable k1 ! p = ?s (ptable (wakeup1 (ChPipeWrite i) k) ! p)" "length (ptable k1) = length (ptable k)"
    "pftable (ptable kw ! w) = pftable (ptable k ! w)" "ftable kw = ftable k" "killed (ptable k1 ! p) = killed (ptable k ! p)"
    using cur(2) w(1,2) wakeup1_nth [of w k] wakeup1_nth [of p k] by (auto simp: k1_def kw_def upd_proc_def wakeup1_def)
  have relw: "pipe_rel i [] kw" using rel pipe_rel_cong [OF pt1(4)] by simp
  have "\<exists>g. filewrite wfd bs (int (length bs)) kw = Ok (int (length bs)) (wakeup1 (ChPipeRead i) (upd_pipe i g kw)) \<and>
      pipe_rel i ([] @ bs) (upd_pipe i g kw)"
    using w pt1(3,4) bs ref by (intro filewrite_pipe [OF relw, of w]) (simp_all add: kw_def)
  then obtain g where g: "filewrite wfd bs (int (length bs)) kw = Ok (int (length bs)) (wakeup1 (ChPipeRead i) (upd_pipe i g kw))"
    "pipe_rel i bs (upd_pipe i g kw)" by auto
  define k2 where "k2 = wakeup1 (ChPipeRead i) (upd_pipe i g kw)"
  have pt2: "ptable k2 ! p = (ptable k1 ! p)\<lparr>p_state := RUNNABLE\<rparr>" "length (ptable k2) = length (ptable k)"
    using cur(2) pt1(1,2) wakeup1_nth [of p "upd_pipe i g kw" "ChPipeRead i"] by (simp_all add: k2_def kw_def)
  define kr where "kr = (upd_proc p (\<lambda>r. r\<lparr>p_state := RUNNING\<rparr>) k2)\<lparr>held := {PtableLock}, curproc := Some p\<rparr>"
  define kr' where "kr' = (upd_proc p (\<lambda>q. q\<lparr>p_chan := ChNull\<rparr>) kr)\<lparr>held := {PipeLock i}\<rparr>"
  have "sleep_wake (PipeLock i) kr = Ok () kr'" by (simp add: kr'_def sleep_wake_eq kr_def)
  then have wake: "fileread_wake i (int n) kr = pipe_read i (int n) kr'" by (simp add: fileread_wake_def)
  have "pipe_rel i bs kr'" using g(2) by (simp add: kr'_def kr_def k2_def)
  moreover have "\<not> killed (ptable kr' ! p)"
    using alive pt1(5) pt2 cur(2) by (simp add: kr'_def kr_def upd_proc_def)
  ultimately have "\<exists>g. pipe_read i (int n) kr' = Ok (int (min n (length bs)), take n bs)
      ((wakeup1 (ChPipeWrite i) (upd_pipe i g kr'))\<lparr>held := {}\<rparr>) \<and> pipe_rel i (drop n bs) (upd_pipe i g kr')"
    using bs(1) by (intro pipe_read_some) (simp_all add: kr'_def kr_def)
  then obtain k3 where "fileread_wake i (int n) kr = Ok (int (min n (length bs)), take n bs) k3" "pipe_rel i (drop n bs) k3" "held k3 = {}"
    using wake by auto
  moreover have "p_state (ptable k1 ! p) = SLEEPING" "held k1 = {PtableLock}" using pt1(1) by (simp_all add: k1_def)
  moreover have "p_state (ptable k2 ! p) = RUNNABLE" by (simp add: pt2(1))
  ultimately show ?thesis using sleeps g(1) [folded k2_def, unfolded kw_def] unfolding kr_def
    by (intro exI [of _ k1] exI [of _ k2] exI [of _ k3] conjI)
qed

theorem pipe_reader_woken_witness:
  "\<exists>k1 k2 k3. fileread 0 2 (set_fd 1 1 (Some 0) k0_pipe) = Sleeps k1 \<and> p_state (ptable k1 ! 0) = SLEEPING \<and>
    held k1 = {PtableLock} \<and> filewrite 1 [7, 8, 9] 3 (k1\<lparr>held := {}, curproc := Some 1\<rparr>) = Ok 3 k2 \<and>
    p_state (ptable k2 ! 0) = RUNNABLE \<and>
    fileread_wake 0 2 ((upd_proc 0 (\<lambda>r. r\<lparr>p_state := RUNNING\<rparr>) k2)\<lparr>held := {PtableLock}, curproc := Some 0\<rparr>) =
      Ok (2, [7, 8]) k3 \<and> pipe_rel 0 [9] k3 \<and> held k3 = {}"
proof -
  let ?k = "set_fd 1 1 (Some 0) k0_pipe"
  have pt: "ptable ?k ! 0 = ptable k0_pipe ! 0" "pftable (ptable ?k ! 1) ! 1 = Some 0" "length (ptable ?k) = 64"
    by (simp_all add: set_fd_def upd_proc_def k0_pipe_simps)
  have "pipe_rel 0 [] ?k" using k0_pipe_state(1) by (simp add: set_fd_def)
  with pipe_reader_woken [of 0 ?k 0 0 1 1 "[7, 8, 9]" 2] k0_pipe_state pt show ?thesis by simp
qed

end
