(* ===== verification/Proc.thy ===== *)
theory Proc
  imports VSpace Fdrefs
begin

text \<open>
  The life of a process, \<open>kernel/proc.c\<close>: \<open>allocproc\<close>, \<open>userinit\<close>, \<open>sbrk\<close>, \<open>fork\<close>, \<open>exit\<close>, \<open>wait\<close>,
  \<open>forkret\<close>, \<open>procdump\<close>, and the loop of \<open>scheduler\<close> as a step relation between the scan of the process table
  and the run of one process. An operation works on the \<open>struct vspace\<close> in the process table and stores it back.
\<close>

section \<open>Creating a process\<close>

text \<open>The trap frame and the first context lie at the top of the new kernel stack; they are the fields \<open>p_tf\<close>
  and \<open>p_context\<close>. What the trap frame holds before it is written is left as it was.\<close>

definition allocproc :: "kernel \<Rightarrow> (kernel, nat option) res" where
  "allocproc k =
     bnd (acquire PtableLock k) (\<lambda>_ k.
     case find_index (\<lambda>p. p_state p = UNUSED) (ptable k) of
       None \<Rightarrow> bnd (release PtableLock k) (\<lambda>_ k. Ok None k)
     | Some i \<Rightarrow>
         let k = upd_proc i (\<lambda>p. p\<lparr>p_state := EMBRYO, pid := nextpid k, killed := False\<rparr>) k;
             k = k\<lparr>nextpid := nextpid k + 1\<rparr>
         in bnd (release PtableLock k) (\<lambda>_ k.
            bnd (kalloc k) (\<lambda>s k.
            let k = upd_proc i (\<lambda>p. p\<lparr>kstack := s\<rparr>) k
            in if s = 0 then Ok None (upd_proc i (\<lambda>p. p\<lparr>p_state := UNUSED\<rparr>) k)
               else Ok (Some i) (upd_proc i (\<lambda>p. p\<lparr>p_context := k_forkret k\<rparr>) k))))"

definition set_vspace :: "nat \<Rightarrow> vspace \<Rightarrow> kernel \<Rightarrow> kernel" where
  "set_vspace i vs k = upd_proc i (\<lambda>p. p\<lparr>p_vspace := vs\<rparr>) k"

definition vspace_of :: "nat \<Rightarrow> kernel \<Rightarrow> vspace" where
  "vspace_of i k = p_vspace (ptable k ! i)"

definition trap_frame0 :: trap_frame where
  "trap_frame0 = \<lparr>rax = 0, rbx = 0, rcx = 0, rdx = 0, rbp = 0, rsi = 0, rdi = 0, r8 = 0, r9 = 0, r10 = 0, r11 = 0,
     r12 = 0, r13 = 0, r14 = 0, r15 = 0, trapno = 0, tf_err = 0, rip = 0, tf_cs = 0, rflags = 0, rsp = 0, tf_ss = 0\<rparr>"

text \<open>\<open>safestrcpy(p->name, s, sizeof(p->name))\<close> on the list of the sixteen bytes of the name, for a string \<open>s\<close>
  without its terminator.\<close>

definition name_cpy :: "byte list \<Rightarrow> byte list \<Rightarrow> byte list" where
  "name_cpy old s = take 15 s @ [0] @ drop (Suc (length (take 15 s))) old"

abbreviation (input) SEG_UCODE :: nat where "SEG_UCODE \<equiv> 4"
abbreviation (input) SEG_UDATA :: nat where "SEG_UDATA \<equiv> 5"
abbreviation (input) DPL_USER :: nat where "DPL_USER \<equiv> 3"
abbreviation (input) FLAGS_IF :: nat where "FLAGS_IF \<equiv> 512"

text \<open>The code of the first process is a binary the linker embeds: its bytes are the argument.\<close>

definition userinit :: "byte list \<Rightarrow> kernel \<Rightarrow> (kernel, unit) res" where
  "userinit initcode k =
     bnd (allocproc k) (\<lambda>r k.
     let k = k\<lparr>initproc := r\<rparr>
     in case r of None \<Rightarrow> Undef ''null process''
        | Some p \<Rightarrow>
            bnd (vspaceinit (vspace_of p k) k) (\<lambda>(r, vs) k.
            if r \<noteq> 0 then Panic ''error initializing process's virtual address descriptor''
            else
              bnd (vspaceinitcode vs initcode (length initcode) k) (\<lambda>vs k.
              let tf = trap_frame0\<lparr>tf_cs := SEG_UCODE * 8 + DPL_USER, tf_ss := SEG_UDATA * 8 + DPL_USER,
                         rflags := FLAGS_IF, rip := VRBOT (regions vs ! VR_CODE), rsp := VRTOP (regions vs ! VR_USTACK)\<rparr>;
                  k = upd_proc p (\<lambda>q. q\<lparr>p_vspace := vs, p_tf := tf,
                        p_name := name_cpy (p_name q) (map of_char ''initcode'')\<rparr>) k
              in bnd (acquire PtableLock k) (\<lambda>_ k.
                 release PtableLock (upd_proc p (\<lambda>q. q\<lparr>p_state := RUNNABLE\<rparr>) k)))))"

section \<open>Growing the heap\<close>

text \<open>The conversion of a non-negative \<open>int\<close> to a \<open>float\<close>: 24 significant bits, rounded to nearest, ties to
  even. Dividing by 4096 is exact.\<close>

definition float_of_int :: "nat \<Rightarrow> nat" where
  "float_of_int n =
     (let e = length (takeWhile (\<lambda>j. 2 ^ (24 + j) \<le> n) [0 ..< 8]); q = n div 2 ^ e; r = n mod 2 ^ e
      in (if 2 * r > 2 ^ e \<or> 2 * r = 2 ^ e \<and> odd q \<and> e > 0 then q + 1 else q) * 2 ^ e)"

text \<open>The branch for a negative \<open>n\<close> frees from the address of the field \<open>va_base\<close> itself: the address of the
  region in the kernel's data is the argument \<open>vr_addr\<close>.\<close>

definition sbrk_npages :: "nat \<Rightarrow> nat" where
  "sbrk_npages n = (if float_of_int n > n div 4096 * 4096 then n div 4096 + 1 else n div 4096)"

definition sbrk :: "nat \<Rightarrow> int \<Rightarrow> kernel \<Rightarrow> (kernel, int) res" where
  "sbrk vr_addr n k =
     bnd (myproc k) (\<lambda>p k.
     let vr = regions (vspace_of p k) ! VR_HEAP;
         old_bound = w64 (va_base vr + vr_size vr);
         put = (\<lambda>vr k. set_vspace p (upd_region VR_HEAP (\<lambda>_. vr) (vspace_of p k)) k);
         fin = (\<lambda>k. bnd (vspaceinvalidate (vspace_of p k) k) (\<lambda>vs k. Ok (s32 old_bound) (set_vspace p vs k)))
     in if n > 0 then
          bnd (vregionaddmap vr old_bound (nat n) True True k) (\<lambda>(vr, r) k.
          if r < 0 then Ok (-1) (put vr k)
          else fin (put (vr\<lparr>vr_size := w64 (vr_size vr + nat n)\<rparr>) k))
        else if n < 0 then
          (let n = nat (- n)
           in if n > vr_size vr then Ok (s32 old_bound) k
              else
                bnd (freerange (w64 (vr_addr + vr_size vr))
                      (P2V (u64_of_int (i32 (int (sbrk_npages n * PGSIZE))))) k) (\<lambda>_ k.
                fin (put (vr\<lparr>vr_size := vr_size vr - n\<rparr>) k)))
        else fin k)"

section \<open>fork\<close>

primrec fork_files :: "nat list \<Rightarrow> nat \<Rightarrow> nat \<Rightarrow> kernel \<Rightarrow> (kernel, unit) res" where
  "fork_files [] p c k = Ok () k"
| "fork_files (i # is) p c k =
     bnd (acquire PtableLock k) (\<lambda>_ k.
     bnd (release PtableLock
           (case pftable (ptable k ! p) ! i of
              None \<Rightarrow> k
            | Some f \<Rightarrow>
                upd_proc c (\<lambda>q. q\<lparr>pftable := (pftable q)[i := Some f]\<rparr>)
                  (k\<lparr>ftable := (ftable k)[f := (ftable k ! f)\<lparr>f_ref := f_ref (ftable k ! f) + 1\<rparr>]\<rparr>))) (\<lambda>_ k.
     fork_files is p c k))"

text \<open>The value of \<open>vspacecopy\<close> is not looked at.\<close>

definition fork :: "kernel \<Rightarrow> (kernel, int) res" where
  "fork k =
     bnd (allocproc k) (\<lambda>r k.
     case r of None \<Rightarrow> Ok (-1) k
     | Some c \<Rightarrow>
         bnd (vspaceinit (vspace_of c k) k) (\<lambda>(r, vs) k.
         if r \<noteq> 0 then Panic ''error initializing process's virtual address descriptor''
         else
           bnd (myproc k) (\<lambda>p k.
           bnd (vspacecopy vs (vspace_of p k) k) (\<lambda>(_, dst, src) k.
           let k = set_vspace c dst (set_vspace p src k);
               k = upd_proc c (\<lambda>q. q\<lparr>p_tf := p_tf (ptable k ! p)\<rparr>) k
           in bnd (fork_files [0 ..< NOFILE] p c k) (\<lambda>_ k.
              bnd (acquire PtableLock k) (\<lambda>_ k.
              let k = upd_proc c (\<lambda>q. q\<lparr>p_state := RUNNABLE, p_tf := (p_tf q)\<lparr>rax := 0\<rparr>, parent := Some p\<rparr>) k
              in bnd (release PtableLock k) (\<lambda>_ k.
                 bnd (vspaceinstall (Some p) k) (\<lambda>_ k.
                 Ok (pid (ptable k ! c)) k))))))))"

section \<open>exit\<close>

primrec exit_files :: "nat list \<Rightarrow> nat \<Rightarrow> kernel \<Rightarrow> (kernel, unit) res" where
  "exit_files [] p k = Ok () k"
| "exit_files (i # is) p k =
     bnd (case pftable (ptable k ! p) ! i of None \<Rightarrow> Ok () k
          | Some _ \<Rightarrow> bnd (fileclose (int i) k) (\<lambda>_ k. Ok () k)) (\<lambda>_ k.
     exit_files is p k)"

text \<open>A process without a parent has a null \<open>parent\<close>, and the loop reads \<open>parent->pid\<close> all the same: \<open>nullpid\<close> is
  the \<open>int\<close> found there.\<close>

primrec exit_children :: "nat list \<Rightarrow> int \<Rightarrow> int \<Rightarrow> kernel \<Rightarrow> (kernel, unit) res" where
  "exit_children [] nullpid me k = Ok () k"
| "exit_children (i # is) nullpid me k =
     (if (case parent (ptable k ! i) of None \<Rightarrow> nullpid | Some q \<Rightarrow> pid (ptable k ! q)) = me
      then let k = upd_proc i (\<lambda>q. q\<lparr>parent := initproc k\<rparr>) k
           in case initproc k of None \<Rightarrow> Undef ''null initproc''
              | Some j \<Rightarrow>
                  exit_children is nullpid me
                    (if p_state (ptable k ! j) = SLEEPING then wakeup1 (ChProc j) k else k)
      else exit_children is nullpid me k)"

definition proc_chan :: "nat option \<Rightarrow> chan" where
  "proc_chan q = (case q of None \<Rightarrow> ChNull | Some j \<Rightarrow> ChProc j)"

definition proc_exit :: "int \<Rightarrow> kernel \<Rightarrow> (kernel, unit) res" where
  "proc_exit nullpid k =
     bnd (myproc k) (\<lambda>p k.
     bnd (exit_files [0 ..< NOFILE] p k) (\<lambda>_ k.
     bnd (acquire PtableLock k) (\<lambda>_ k.
     bnd (exit_children [0 ..< NPROC] nullpid (pid (ptable k ! p)) k) (\<lambda>_ k.
     let k = wakeup1 (proc_chan (parent (ptable k ! p))) k;
         k = upd_proc p (\<lambda>q. q\<lparr>p_state := ZOMBIE\<rparr>) k
     in bnd (sched k) (\<lambda>_ k. release PtableLock k)))))"

section \<open>wait\<close>

primrec wait_scan :: "nat list \<Rightarrow> nat \<Rightarrow> bool \<Rightarrow> kernel \<Rightarrow> (kernel, bool) res" where
  "wait_scan [] p b k = Ok b k"
| "wait_scan (i # is) p b k =
     bnd (acquire PtableLock k) (\<lambda>_ k.
     let b = (b \<or> parent (ptable k ! i) = Some p \<and> p_state (ptable k ! i) \<noteq> UNUSED)
     in bnd (release PtableLock k) (\<lambda>_ k. wait_scan is p b k))"

definition reap :: "nat \<Rightarrow> kernel \<Rightarrow> (kernel, int) res" where
  "reap i k =
     (let child_pid = pid (ptable k ! i);
          k = upd_proc i (\<lambda>q. q\<lparr>p_state := UNUSED\<rparr>) k
      in bnd (vspacefree (vspace_of i k) k) (\<lambda>vs k.
         let k = set_vspace i vs k
         in bnd (kfree (kstack (ptable k ! i)) k) (\<lambda>_ k.
            bnd (release PtableLock
                  (upd_proc i (\<lambda>q. q\<lparr>kstack := 0, parent := None, pid := 0, killed := False\<rparr>) k)) (\<lambda>_ k.
            Ok child_pid k))))"

text \<open>One round of \<open>while (true)\<close>, entered with the table locked; \<open>wait_wake\<close> is where a process that slept in
  it goes on.\<close>

definition wait_loop :: "nat \<Rightarrow> kernel \<Rightarrow> (kernel, int) res" where
  "wait_loop p k =
     (case find_index (\<lambda>q. parent q = Some p \<and> p_state q = ZOMBIE) (ptable k) of
        Some i \<Rightarrow> reap i k
      | None \<Rightarrow> bnd (sleep (ChProc p) PtableLock k) (\<lambda>_ k. Ok 0 k))"

definition wait :: "kernel \<Rightarrow> (kernel, int) res" where
  "wait k =
     bnd (myproc k) (\<lambda>p k.
     bnd (wait_scan [0 ..< NPROC] p False k) (\<lambda>b k.
     if \<not> b then Ok (-1) k
     else bnd (acquire PtableLock k) (\<lambda>_ k. wait_loop p k)))"

definition wait_wake :: "kernel \<Rightarrow> (kernel, int) res" where
  "wait_wake k =
     bnd (myproc k) (\<lambda>p k. bnd (sleep_wake PtableLock k) (\<lambda>_ k. wait_loop p k))"

section \<open>The first return to user space, the process listing\<close>

text \<open>\<open>first\<close> is the static variable; the value is what it is after the call.\<close>

definition forkret :: "bool \<Rightarrow> kernel \<Rightarrow> (kernel, bool) res" where
  "forkret first k =
     bnd (release PtableLock k) (\<lambda>_ k.
     if first then bnd (iinit 1 k) (\<lambda>_ k. Ok False k) else Ok first k)"

primrec state_name :: "procstate \<Rightarrow> string" where
  "state_name UNUSED = ''unused''"
| "state_name EMBRYO = ''embryo''"
| "state_name SLEEPING = ''sleep ''"
| "state_name RUNNABLE = ''runble''"
| "state_name RUNNING = ''run   ''"
| "state_name ZOMBIE = ''zombie''"

primrec dump_pcs :: "nat list \<Rightarrow> kernel \<Rightarrow> (kernel, unit) res" where
  "dump_pcs [] k = Ok () k"
| "dump_pcs (a # as) k =
     (if a = 0 then Ok () k
      else bnd (cprintf (map of_char '' %p'') [PInt (int a)] k) (\<lambda>_ k. dump_pcs as k))"

text \<open>\<open>mem\<close> and \<open>ctx_rbp\<close> are the kernel stacks: the words of memory and the saved frame pointer of a process.\<close>

primrec dump_procs :: "nat list \<Rightarrow> (nat \<Rightarrow> nat) \<Rightarrow> (nat \<Rightarrow> nat) \<Rightarrow> kernel \<Rightarrow> (kernel, unit) res" where
  "dump_procs [] mem ctx_rbp k = Ok () k"
| "dump_procs (i # is) mem ctx_rbp k =
     (let p = ptable k ! i
      in if p_state p = UNUSED then dump_procs is mem ctx_rbp k
         else
           bnd (cprintf (map of_char ''%d %s %s'')
                 [PInt (pid p), PStr (Some (map of_char (state_name (p_state p)))),
                  PStr (Some (takeWhile (\<lambda>c. c \<noteq> 0) (p_name p)))] k) (\<lambda>_ k.
           bnd (if p_state p = SLEEPING then dump_pcs (getcallerpcs mem (ctx_rbp i)) k else Ok () k) (\<lambda>_ k.
           bnd (cprintf [10] [] k) (\<lambda>_ k.
           dump_procs is mem ctx_rbp k))))"

definition procdump :: "(nat \<Rightarrow> nat) \<Rightarrow> (nat \<Rightarrow> nat) \<Rightarrow> kernel \<Rightarrow> (kernel, unit) res" where
  "procdump mem ctx_rbp k = dump_procs [0 ..< NPROC] mem ctx_rbp k"

section \<open>The scheduler\<close>

text \<open>The scheduler is either scanning the table, about to look at slot \<open>i\<close> with the table locked, or it has
  switched to process \<open>i\<close>.\<close>

datatype sched_at = Scan nat kernel | Run nat kernel

definition sched_enter :: "nat \<Rightarrow> kernel \<Rightarrow> (kernel, unit) res" where
  "sched_enter i k =
     bnd (vspaceinstall (Some i) (k\<lparr>curproc := Some i\<rparr>)) (\<lambda>_ k.
     Ok () (upd_proc i (\<lambda>p. p\<lparr>p_state := RUNNING\<rparr>) k))"

definition sched_leave :: "kernel \<Rightarrow> kernel" where
  "sched_leave k = (vspaceinstallkern k)\<lparr>curproc := None\<rparr>"

text \<open>\<open>body i k k'\<close>: process \<open>i\<close>, switched to in \<open>k\<close>, switches back in \<open>k'\<close>.\<close>

inductive sched_step :: "(nat \<Rightarrow> kernel \<Rightarrow> kernel \<Rightarrow> bool) \<Rightarrow> sched_at \<Rightarrow> sched_at \<Rightarrow> bool"
  for body :: "nat \<Rightarrow> kernel \<Rightarrow> kernel \<Rightarrow> bool" where
  skip: "i < NPROC \<Longrightarrow> p_state (ptable k ! i) \<noteq> RUNNABLE \<Longrightarrow> sched_step body (Scan i k) (Scan (Suc i) k)"
| pick: "i < NPROC \<Longrightarrow> p_state (ptable k ! i) = RUNNABLE \<Longrightarrow> sched_enter i k = Ok () k' \<Longrightarrow>
    sched_step body (Scan i k) (Run i k')"
| leave: "body i k k' \<Longrightarrow> sched_step body (Run i k) (Scan (Suc i) (sched_leave k'))"
| again: "release PtableLock k = Ok () k1 \<Longrightarrow> acquire PtableLock k1 = Ok () k2 \<Longrightarrow>
    sched_step body (Scan NPROC k) (Scan 0 k2)"

inductive_cases sched_step_ScanE: "sched_step body (Scan i k) s"
inductive_cases sched_step_RunE: "sched_step body (Run i k) s"

end
