(* ===== verification/Fault.thy ===== *)
theory Fault
  imports Proc
begin

text \<open>
  The page-fault branch of \<open>trap\<close> and \<open>growuserstack\<close> (\<open>kernel/trap.c\<close>), and the accesses of the kernel to user
  memory that may cause one. A user address is translated by the page table in \<open>cr3\<close>; \<open>entry.S\<close> sets \<open>CR0_WP\<close>,
  so a write of the kernel to a read-only page faults as a write of the program does.
\<close>

unbundle bit_operations_syntax

section \<open>Growing the stack on demand\<close>

definition growuserstack :: "kernel \<Rightarrow> (kernel, int) res" where
  "growuserstack k =
     bnd (myproc k) (\<lambda>p k.
     let vr = regions (vspace_of p k) ! VR_USTACK;
         old_bound = sub64 (sub64 (va_base vr) (vr_size vr)) PGSIZE;
         put = (\<lambda>vr k. set_vspace p (upd_region VR_USTACK (\<lambda>_. vr) (vspace_of p k)) k)
     in if vr_size vr \<ge> 10 * PGSIZE then Ok (-1) k
        else
          bnd (vregionaddmap vr old_bound PGSIZE True True k) (\<lambda>(vr, r) k.
          if r < 0 then Ok (-1) (put vr k)
          else
            let k = put (vr\<lparr>vr_size := w64 (vr_size vr + PGSIZE)\<rparr>) k
            in bnd (vspaceinvalidate (vspace_of p k) k) (\<lambda>vs k.
               Ok (s32 old_bound) (set_vspace p vs k))))"

section \<open>Copy on write\<close>

text \<open>Rebuild the page table of the current process and load it.\<close>

definition reload :: "nat \<Rightarrow> kernel \<Rightarrow> (kernel, unit) res" where
  "reload p k =
     bnd (vspaceinvalidate (vspace_of p k) k) (\<lambda>vs k. vspaceinstall (Some p) (set_vspace p vs k))"

text \<open>The page is shared: the process gets a copy of its own. When no page is free the handler does nothing.\<close>

definition cow_copy :: "vpi_ptr \<Rightarrow> vpage_info \<Rightarrow> nat \<Rightarrow> kernel \<Rightarrow> (kernel, bool) res" where
  "cow_copy vpi v e k =
     bnd (kalloc k) (\<lambda>data k.
     if data = 0 then Ok False k
     else
       let k = k\<lparr>phys := (phys k)(PGNUM (V2P data) := zero_page)\<rparr>
       in bnd (rd_bytes (ppn v) 0 PGSIZE k) (\<lambda>bs k.
          bnd (wr_bytes (PGNUM (V2P data)) 0 bs k) (\<lambda>_ k.
          bnd (acquire_core_map_lock k) (\<lambda>_ k.
          let k = k\<lparr>core_map := (core_map k)[e := (core_map k ! e)\<lparr>ref_count := ref_count (core_map k ! e) - 1\<rparr>]\<rparr>
          in bnd (wr_vpi vpi (\<lambda>v. v\<lparr>used := True, writable := True, present := True, cow_page := False,
                    ppn := PGNUM (V2P data)\<rparr>) k) (\<lambda>_ k.
             bnd (release_core_map_lock k) (\<lambda>_ k. Ok True k))))))"

text \<open>The process is the only one left with the page: it takes it over.\<close>

definition cow_take :: "vpi_ptr \<Rightarrow> kernel \<Rightarrow> (kernel, unit) res" where
  "cow_take vpi k =
     bnd (acquire_core_map_lock k) (\<lambda>_ k.
     bnd (wr_vpi vpi (\<lambda>v. v\<lparr>writable := True, cow_page := False\<rparr>) k) (\<lambda>_ k.
     release_core_map_lock k))"

text \<open>The handler up to the test for the stack: whether it leaves the \<open>switch\<close>.\<close>

definition cow_fault :: "nat \<Rightarrow> nat \<Rightarrow> kernel \<Rightarrow> (kernel, bool) res" where
  "cow_fault p addr k =
     (case va2vregion (vspace_of p k) addr of
        None \<Rightarrow> Ok False k
      | Some i \<Rightarrow>
          bnd (va2vpage_info (regions (vspace_of p k) ! i) addr k) (\<lambda>(vr, r) k.
          let k = set_vspace p (upd_region i (\<lambda>_. vr) (vspace_of p k)) k
          in case r of None \<Rightarrow> Ok False k
             | Some vpi \<Rightarrow>
                 bnd (rd_vpi vpi k) (\<lambda>v k.
                 bnd (pa2page (w64 (ppn v * 4096)) k) (\<lambda>e k.
                 if cow_page v \<and> ref_count (core_map k ! e) > 1 \<and> \<not> writable v then
                   bnd (cow_copy vpi v e k) (\<lambda>copied k.
                   if copied then bnd (reload p k) (\<lambda>_ k. Ok True k) else Ok True k)
                 else if cow_page v \<and> ref_count (core_map k ! e) = 1 \<and> \<not> writable v then
                   bnd (cow_take vpi k) (\<lambda>_ k. bnd (reload p k) (\<lambda>_ k. Ok True k))
                 else Ok False k))))"

text \<open>The whole branch: whether the faulting instruction is resumed.\<close>

definition page_fault :: "nat \<Rightarrow> kernel \<Rightarrow> (kernel, bool) res" where
  "page_fault addr k =
     (let k = k\<lparr>num_page_faults := num_page_faults k + 1\<rparr>
      in bnd (myproc k) (\<lambda>p k.
         bnd (cow_fault p addr k) (\<lambda>b k.
         if b then Ok True k
         else if addr < SZ_2G \<and> addr \<ge> SZ_2G - 10 * PGSIZE
         then bnd (growuserstack k) (\<lambda>r k. Ok (r \<noteq> -1) k)
         else Ok False k)))"

section \<open>User memory\<close>

text \<open>The entry the processor finds for an address: it walks the same four levels as \<open>walkpml4\<close>.\<close>

definition mmu_entry :: "nat \<Rightarrow> kernel \<Rightarrow> (kernel, u64) res" where
  "mmu_entry va k =
     bnd (walkpml4 (P2V (cr3 k)) va False k) (\<lambda>r k.
     case r of None \<Rightarrow> Ok 0 k | Some (t, i) \<Rightarrow> rd_entry t i k)"

text \<open>An access of the kernel: the physical page, after as many faults as it takes. A fault that is not handled
  is a panic, since it comes from the kernel. A fault grows the stack by a page or makes a page writable, so
  twelve faults are enough for any access, unless no page is free and the handler returns without a change.\<close>

primrec touch :: "nat \<Rightarrow> bool \<Rightarrow> nat \<Rightarrow> kernel \<Rightarrow> (kernel, nat) res" where
  "touch 0 w va k = OutOfFuel"
| "touch (Suc fuel) w va k =
     bnd (mmu_entry va k) (\<lambda>e k.
     if e AND PTE_P \<noteq> 0 \<and> (w \<longrightarrow> e AND PTE_W \<noteq> 0) then Ok (PGNUM (PTE_ADDR e)) k
     else
       bnd (page_fault va k) (\<lambda>b k. if b then touch fuel w va k else Panic ''trap''))"

primrec user_rd :: "nat \<Rightarrow> nat \<Rightarrow> kernel \<Rightarrow> (kernel, byte list) res" where
  "user_rd va 0 k = Ok [] k"
| "user_rd va (Suc n) k =
     bnd (touch 13 False va k) (\<lambda>pn k.
     bnd (rd_bytes pn (va mod PGSIZE) 1 k) (\<lambda>b k.
     bnd (user_rd (w64 (va + 1)) n k) (\<lambda>bs k. Ok (b @ bs) k)))"

primrec user_wr :: "nat \<Rightarrow> byte list \<Rightarrow> kernel \<Rightarrow> (kernel, unit) res" where
  "user_wr va [] k = Ok () k"
| "user_wr va (b # bs) k =
     bnd (touch 13 True va k) (\<lambda>pn k.
     bnd (wr_bytes pn (va mod PGSIZE) [b] k) (\<lambda>_ k.
     user_wr (w64 (va + 1)) bs k))"

end
