(* ===== verification/Syscall.thy ===== *)
theory Syscall
  imports Fault
begin

text \<open>
  The system calls: fetching and checking arguments and the dispatch table (\<open>kernel/syscall.c\<close>), \<open>exec\<close>
  (\<open>kernel/exec.c\<close>), and the handlers of \<open>kernel/sysproc.c\<close> and \<open>kernel/sysfile.c\<close>. A \<open>char *\<close> argument is the
  address; the bytes are read and written through the page table (\<open>user_rd\<close>, \<open>user_wr\<close>). A handler that blocks ends
  with \<open>Sleeps\<close>, like the operation it calls.
\<close>

section \<open>Arguments\<close>

definition fetcharg :: "nat \<Rightarrow> kernel \<Rightarrow> (kernel, nat) res" where
  "fetcharg n k =
     bnd (myproc k) (\<lambda>p k.
     let tf = p_tf (ptable k ! p)
     in if n = 0 then Ok (rdi tf) k
        else if n = 1 then Ok (rsi tf) k
        else if n = 2 then Ok (rdx tf) k
        else if n = 3 then Ok (rcx tf) k
        else if n = 4 then Ok (r8 tf) k
        else if n = 5 then Ok (r9 tf) k
        else Panic ''more than 6 arguments for a syscall'')"

definition argint :: "nat \<Rightarrow> kernel \<Rightarrow> (kernel, int) res" where
  "argint n k = bnd (fetcharg n k) (\<lambda>a k. Ok (s32 a) k)"

text \<open>The \<open>int64_t\<close> is used as an address only, where it is converted back to the same \<open>uint64_t\<close>.\<close>

definition argint64 :: "nat \<Rightarrow> kernel \<Rightarrow> (kernel, nat) res" where
  "argint64 n k = fetcharg n k"

text \<open>\<open>fetchint\<close> and \<open>fetchint64_t\<close>: none is the value -1.\<close>

definition fetch :: "nat \<Rightarrow> nat \<Rightarrow> kernel \<Rightarrow> (kernel, nat option) res" where
  "fetch w addr k =
     bnd (myproc k) (\<lambda>p k.
     if \<exists>r \<in> set (regions (vspace_of p k)). vregioncontains r addr (int w)
     then bnd (user_rd addr w k) (\<lambda>bs k. Ok (Some (le_nat bs)) k)
     else Ok None k)"

definition fetchint :: "nat \<Rightarrow> kernel \<Rightarrow> (kernel, int option) res" where
  "fetchint addr k = bnd (fetch 4 addr k) (\<lambda>r k. Ok (map_option s32 r) k)"

definition fetchint64_t :: "nat \<Rightarrow> kernel \<Rightarrow> (kernel, nat option) res" where
  "fetchint64_t addr k = fetch 8 addr k"

text \<open>\<open>for (s = *pp; s < ep; s++) if (*s == 0) return s - *pp;\<close>\<close>

primrec scan_nul :: "nat \<Rightarrow> nat \<Rightarrow> nat \<Rightarrow> kernel \<Rightarrow> (kernel, nat option) res" where
  "scan_nul 0 s len k = Ok None k"
| "scan_nul (Suc n) s len k =
     bnd (user_rd s 1 k) (\<lambda>b k. if b = [0] then Ok (Some len) k else scan_nul n (w64 (s + 1)) (Suc len) k)"

primrec fetchstr_regions :: "vregion list \<Rightarrow> nat \<Rightarrow> kernel \<Rightarrow> (kernel, nat option) res" where
  "fetchstr_regions [] addr k = Ok None k"
| "fetchstr_regions (r # rs) addr k =
     (if vregioncontains r addr 0
      then bnd (scan_nul (VRTOP r - addr) addr 0 k) (\<lambda>l k.
           case l of None \<Rightarrow> fetchstr_regions rs addr k | Some n \<Rightarrow> Ok (Some n) k)
      else fetchstr_regions rs addr k)"

text \<open>The length; the pointer stored is the address.\<close>

definition fetchstr :: "nat \<Rightarrow> kernel \<Rightarrow> (kernel, nat option) res" where
  "fetchstr addr k = bnd (myproc k) (\<lambda>p k. fetchstr_regions (regions (vspace_of p k)) addr k)"

text \<open>The pointer, when the whole range lies in one region of the process.\<close>

definition argptr :: "nat \<Rightarrow> int \<Rightarrow> kernel \<Rightarrow> (kernel, nat option) res" where
  "argptr n sz k =
     bnd (argint64 n k) (\<lambda>i k.
     if sz < 0 then Ok None k
     else
       bnd (myproc k) (\<lambda>p k.
       if \<exists>r \<in> set (regions (vspace_of p k)). vregioncontains r i sz then Ok (Some i) k else Ok None k))"

text \<open>The address goes through an \<open>int\<close>: the pointer stored and the length.\<close>

definition argstr :: "nat \<Rightarrow> kernel \<Rightarrow> (kernel, (nat \<times> nat) option) res" where
  "argstr n k =
     bnd (argint n k) (\<lambda>a k.
     bnd (fetchstr (u64_of_int a) k) (\<lambda>l k. Ok (map_option (\<lambda>m. (u64_of_int a, m)) l) k))"

definition argfd :: "int \<Rightarrow> int" where
  "argfd fd = (if fd < 0 \<or> fd \<ge> int NOFILE then -1 else 1)"

section \<open>Leaving\<close>

text \<open>The \<open>pid\<close> of a null \<open>parent\<close> is read from user memory, at the offset of the field in \<open>struct proc\<close>.\<close>

abbreviation (input) PID_OFFSET :: nat where "PID_OFFSET \<equiv> 116"

definition exit_current :: "kernel \<Rightarrow> (kernel, unit) res" where
  "exit_current k = bnd (user_rd PID_OFFSET 4 k) (\<lambda>bs k. proc_exit (s32 (le_nat bs)) k)"

section \<open>exec\<close>

text \<open>The arguments are copied to the stack one below the other; the value is the addresses and where the last one
  starts, or none when a write failed. A write advances at least one byte a round or never ends: its fuel is the
  number of bytes.\<close>

primrec exec_args :: "byte list list \<Rightarrow> nat \<Rightarrow> vspace \<Rightarrow> kernel \<Rightarrow> (kernel, vspace \<times> (nat list \<times> nat) option) res" where
  "exec_args [] va vs k = Ok (vs, Some ([], va)) k"
| "exec_args (s # ss) va vs k =
     (let sz = length s + 1 + 8;
          va = sub64 va (sz div 8 * 8)
      in bnd (vspacewritetova (Suc (Suc sz)) vs va (s @ [0]) (i32 (int (sz - 8))) k) (\<lambda>(vs, r) k.
         if r < 0 then Ok (vs, None) k
         else bnd (exec_args ss va vs k) (\<lambda>(vs, r) k.
              Ok (vs, map_option (\<lambda>(as, top). (va # as, top)) r) k)))"

definition exec_fail :: "vspace \<Rightarrow> kernel \<Rightarrow> (kernel, int) res" where
  "exec_fail temp k = bnd (vspacefree temp k) (\<lambda>_ k. Ok (-1) k)"

text \<open>\<open>argv\<close> as the list of its strings. A \<open>vspaceinit\<close> that fails leaves the regions of \<open>temp\<close> uninitialised.\<close>

definition exec :: "byte list \<Rightarrow> byte list list \<Rightarrow> kernel \<Rightarrow> (kernel, int) res" where
  "exec path argv k =
     bnd (vspaceinit \<lparr>regions = [], pgtbl = 0\<rparr> k) (\<lambda>(r, temp) k.
     if r \<noteq> 0 then Undef ''uninitialised vspace''
     else
       bnd (vspaceloadcode temp path k) (\<lambda>(temp, sz, entry) k.
       if sz = 0 then exec_fail temp k
       else
         bnd (vspaceinitstack temp SZ_2G k) (\<lambda>(res, temp) k.
         if res < 0 then exec_fail temp k
         else
           bnd (exec_args argv SZ_2G temp k) (\<lambda>(temp, r) k.
           case r of None \<Rightarrow> exec_fail temp k
           | Some (as, va) \<Rightarrow>
               let n = length argv;
                   copyLen = (n + 2) * 8;
                   va = sub64 va copyLen;
                   ptrs = concat (map (le_bytes 8) (0 # as @ [0]))
               in bnd (vspacewritetova (Suc (Suc copyLen)) temp va ptrs (int copyLen) k) (\<lambda>(temp, r) k.
                  if r < 0 then exec_fail temp k
                  else
                    bnd (myproc k) (\<lambda>p k.
                    let k = upd_proc p (\<lambda>q. q\<lparr>p_tf := (p_tf q)\<lparr>rip := entry, rsi := w64 (va + 8), rdi := n,
                              rsp := va\<rparr>\<rparr>) k
                    in bnd (vspacecopy (vspace_of p k) temp k) (\<lambda>(res, dst, temp) k.
                       bnd (vspacefree temp (set_vspace p dst k)) (\<lambda>_ k.
                       if res < 0 then Ok (-1) k
                       else bnd (vspaceinstall (Some p) k) (\<lambda>_ k. Ok 0 k)))))))))"

section \<open>sysproc.c\<close>

definition sys_crashn :: "kernel \<Rightarrow> (kernel, int) res" where
  "sys_crashn k = bnd (argint 0 k) (\<lambda>n k. Ok 0 (k\<lparr>crashn_enable := True, crashn := n\<rparr>))"

definition sys_fork :: "kernel \<Rightarrow> (kernel, int) res" where
  "sys_fork k = fork k"

definition sys_exit :: "kernel \<Rightarrow> (kernel, int) res" where
  "sys_exit k = bnd (exit_current k) (\<lambda>_ k. Ok 0 k)"

definition sys_wait :: "kernel \<Rightarrow> (kernel, int) res" where
  "sys_wait k = wait k"

definition sys_kill :: "kernel \<Rightarrow> (kernel, int) res" where
  "sys_kill k = bnd (argint 0 k) (\<lambda>n k. kill n k)"

definition sys_getpid :: "kernel \<Rightarrow> (kernel, int) res" where
  "sys_getpid k = bnd (myproc k) (\<lambda>p k. Ok (pid (ptable k ! p)) k)"

text \<open>The amount is not negative, so the address that \<open>sbrk\<close> uses for a negative one is never looked at.\<close>

definition sys_sbrk :: "kernel \<Rightarrow> (kernel, int) res" where
  "sys_sbrk k = bnd (argint 0 k) (\<lambda>n k. sbrk 0 (if n < 0 then 0 else n) k)"

text \<open>\<open>ticks - ticks0 < n\<close> compares unsigned numbers. One test of the loop; \<open>sleep_wake\<close> comes back to it.\<close>

definition sleep_loop :: "int \<Rightarrow> nat \<Rightarrow> kernel \<Rightarrow> (kernel, int) res" where
  "sleep_loop n ticks0 k =
     (if sub32 (ticks k) ticks0 < u32 n then
        bnd (myproc k) (\<lambda>p k.
        if killed (ptable k ! p) then bnd (release TicksLock k) (\<lambda>_ k. Ok (-1) k)
        else bnd (sleep ChTicks TicksLock k) (\<lambda>_ k. Undef ''sched returned''))
      else bnd (release TicksLock k) (\<lambda>_ k. Ok 0 k))"

definition sys_sleep :: "kernel \<Rightarrow> (kernel, int) res" where
  "sys_sleep k =
     bnd (argint 0 k) (\<lambda>n k.
     bnd (acquire TicksLock k) (\<lambda>_ k. sleep_loop n (ticks k) k))"

definition sys_sleep_wake :: "int \<Rightarrow> nat \<Rightarrow> kernel \<Rightarrow> (kernel, int) res" where
  "sys_sleep_wake n ticks0 k = bnd (sleep_wake TicksLock k) (\<lambda>_ k. sleep_loop n ticks0 k)"

definition sys_uptime :: "kernel \<Rightarrow> (kernel, int) res" where
  "sys_uptime k =
     bnd (acquire TicksLock k) (\<lambda>_ k.
     let x = ticks k in bnd (release TicksLock k) (\<lambda>_ k. Ok (s32 x) k))"

section \<open>sysfile.c\<close>

definition sys_dup :: "kernel \<Rightarrow> (kernel, int) res" where
  "sys_dup k = bnd (argint 0 k) (\<lambda>fd k. if argfd fd < 0 then Ok (-1) k else filedup fd k)"

text \<open>\<open>fileread\<close> stores the bytes it read into the buffer.\<close>

definition sys_read :: "kernel \<Rightarrow> (kernel, int) res" where
  "sys_read k =
     bnd (argint 0 k) (\<lambda>fd k.
     if argfd fd < 0 then Ok (-1) k
     else
       bnd (argint 2 k) (\<lambda>n k.
       if n < 0 then Ok (-1) k
       else
         bnd (argptr 1 n k) (\<lambda>r k.
         case r of None \<Rightarrow> Ok (-1) k
         | Some buf \<Rightarrow>
             bnd (fileread fd n k) (\<lambda>(m, bs) k. bnd (user_wr buf bs k) (\<lambda>_ k. Ok m k)))))"

text \<open>Whether \<open>filewrite\<close> gets as far as its buffer.\<close>

definition writes :: "nat \<Rightarrow> int \<Rightarrow> kernel \<Rightarrow> bool" where
  "writes p fd k =
     (case pftable (ptable k ! p) ! nat fd of
        None \<Rightarrow> False
      | Some i \<Rightarrow> isPipe (ftable k ! i) \<or> f_iptr (ftable k ! i) \<noteq> None \<and> access_permission (ftable k ! i) \<noteq> 0)"

definition sys_write :: "kernel \<Rightarrow> (kernel, int) res" where
  "sys_write k =
     bnd (argint 0 k) (\<lambda>fd k.
     if argfd fd < 0 then Ok (-1) k
     else
       bnd (argint 2 k) (\<lambda>n k.
       bnd (argptr 1 n k) (\<lambda>r k.
       if r = None then Ok (-1) k
       else
         bnd (argstr 1 k) (\<lambda>r k.
         case r of None \<Rightarrow> Ok (-1) k
         | Some (buf, _) \<Rightarrow>
             bnd (myproc k) (\<lambda>p k.
             bnd (if writes p fd k then user_rd buf (nat n) k else Ok [] k) (\<lambda>bs k.
             filewrite fd bs n k))))))"

definition sys_close :: "kernel \<Rightarrow> (kernel, int) res" where
  "sys_close k = bnd (argint 0 k) (\<lambda>fd k. if argfd fd < 0 then Ok (-1) k else fileclose fd k)"

text \<open>\<open>stati\<close> stores the fields of the \<open>struct stat\<close>; the two bytes after \<open>type\<close> are padding. The range checked is
  the size of a pointer.\<close>

definition sys_fstat :: "kernel \<Rightarrow> (kernel, int) res" where
  "sys_fstat k =
     bnd (argint 0 k) (\<lambda>fd k.
     if argfd fd < 0 then Ok (-1) k
     else
       bnd (argptr 1 8 k) (\<lambda>r k.
       case r of None \<Rightarrow> Ok (-1) k
       | Some a \<Rightarrow>
           bnd (filestat fd k) (\<lambda>(m, st) k.
           case st of None \<Rightarrow> Ok m k
           | Some s \<Rightarrow>
               bnd (user_wr a (le_bytes 2 (u16_of (st_type s))) k) (\<lambda>_ k.
               bnd (user_wr (w64 (a + 4)) (le_bytes 4 (st_dev s) @ le_bytes 4 (st_ino s) @ le_bytes 4 (st_size s)) k)
                 (\<lambda>_ k. Ok m k)))))"

abbreviation (input) O_RDONLY :: int where "O_RDONLY \<equiv> 0"
abbreviation (input) O_WRONLY :: int where "O_WRONLY \<equiv> 1"
abbreviation (input) O_RDWR :: int where "O_RDWR \<equiv> 2"
abbreviation (input) O_CREATE :: int where "O_CREATE \<equiv> 512"

text \<open>Of the modes let through, those with \<open>O_CREATE\<close> in the bits \<open>0xF00\<close> are the last two.\<close>

definition sys_open :: "kernel \<Rightarrow> (kernel, int) res" where
  "sys_open k =
     bnd (argstr 0 k) (\<lambda>r k.
     case r of None \<Rightarrow> Ok (-1) k
     | Some (pa, len) \<Rightarrow>
         bnd (argint 1 k) (\<lambda>mode k.
         bnd (user_rd pa len k) (\<lambda>path k.
         bnd (namei path k) (\<lambda>ptr k.
         if mode \<noteq> O_RDONLY \<and> mode \<noteq> O_WRONLY \<and> mode \<noteq> O_RDWR \<and> mode \<noteq> O_CREATE \<and> mode \<noteq> O_CREATE + O_RDWR
         then Ok (-1) k
         else
           bnd (if mode div 256 mod 16 = 2 \<and> ptr = None then
                  bnd (cprintf (map of_char ''sys_open file creattion'' @ [10]) [] k) (\<lambda>_ k.
                  bnd (filecreate path k) (\<lambda>j k.
                  cprintf (10 # map of_char ''inode file dev %d inum %d'' @ [10])
                    [PInt (int (i_dev (icache_inode k ! j))), PInt (int (i_inum (icache_inode k ! j)))] k))
                else Ok () k) (\<lambda>_ k.
           fileopen pa path mode k)))))"

text \<open>The string at an address, up to its terminator.\<close>

primrec user_str :: "nat \<Rightarrow> nat \<Rightarrow> kernel \<Rightarrow> (kernel, byte list) res" where
  "user_str 0 va k = OutOfFuel"
| "user_str (Suc fuel) va k =
     bnd (user_rd va 1 k) (\<lambda>b k.
     if b = [0] then Ok [] k else bnd (user_str fuel (w64 (va + 1)) k) (\<lambda>bs k. Ok (b @ bs) k))"

text \<open>The loop over the vector of arguments; both the vector and its entries are read as \<open>int\<close>s. An argument
  that \<open>fetchstr\<close> accepted has a terminator within its length.\<close>

primrec exec_loop :: "nat list \<Rightarrow> nat \<Rightarrow> int \<Rightarrow> byte list list \<Rightarrow> kernel \<Rightarrow> (kernel, int) res" where
  "exec_loop [] path address args k = Ok (-1) k"
| "exec_loop (i # is) path address args k =
     bnd (fetchint (u64_of_int (i32 (address + 8 * int i))) k) (\<lambda>r k.
     case r of None \<Rightarrow> Ok (-1) k
     | Some aa \<Rightarrow>
         bnd (fetchstr (u64_of_int aa) k) (\<lambda>l k.
         case l of None \<Rightarrow> Ok (-1) k
         | Some n \<Rightarrow>
             if aa = 0 then bnd (user_str SZ_2G path k) (\<lambda>p k. exec p args k)
             else bnd (user_rd (u64_of_int aa) n k) (\<lambda>s k. exec_loop is path address (args @ [s]) k)))"

definition sys_exec :: "kernel \<Rightarrow> (kernel, int) res" where
  "sys_exec k =
     bnd (argstr 0 k) (\<lambda>r k.
     case r of None \<Rightarrow> Ok (-1) k
     | Some (_, len) \<Rightarrow>
         bnd (argptr 0 (int len) k) (\<lambda>r k.
         case r of None \<Rightarrow> Ok (-1) k
         | Some path \<Rightarrow>
             bnd (argint 1 k) (\<lambda>address k. exec_loop [0 ..< 32] path address [] k)))"

definition sys_pipe :: "kernel \<Rightarrow> (kernel, int) res" where
  "sys_pipe k =
     bnd (argptr 0 8 k) (\<lambda>r k.
     case r of None \<Rightarrow> Ok (-1) k
     | Some a \<Rightarrow>
         bnd (pipe_open k) (\<lambda>(m, fds) k.
         bnd (user_wr a (concat (map (le_bytes 4) fds)) k) (\<lambda>_ k. Ok m k)))"

section \<open>Dispatch\<close>

text \<open>One assignment to a field of the \<open>struct sys_info\<close>, whose address is checked for the size of a pointer.\<close>

definition put_info :: "nat \<Rightarrow> (kernel \<Rightarrow> int) \<Rightarrow> kernel \<Rightarrow> (kernel, unit) res" where
  "put_info a f k = user_wr (w64 a) (le_bytes 4 (u32 (f k))) k"

definition sys_sysinfo :: "kernel \<Rightarrow> (kernel, int) res" where
  "sys_sysinfo k =
     bnd (argptr 0 8 k) (\<lambda>r k.
     case r of None \<Rightarrow> Ok (-1) k
     | Some a \<Rightarrow>
         bnd (put_info a pages_in_use k) (\<lambda>_ k.
         bnd (put_info (a + 4) pages_in_swap k) (\<lambda>_ k.
         bnd (put_info (a + 8) free_pages k) (\<lambda>_ k.
         bnd (put_info (a + 12) num_page_faults k) (\<lambda>_ k.
         bnd (put_info (a + 16) num_disk_reads k) (\<lambda>_ k.
         Ok 0 k))))))"

definition syscalls :: "int \<Rightarrow> (kernel \<Rightarrow> (kernel, int) res) option" where
  "syscalls n = map_of
     [(1, sys_fork), (2, sys_exit), (3, sys_wait), (4, sys_pipe), (5, sys_read), (6, sys_kill), (7, sys_exec),
      (8, sys_fstat), (10, sys_dup), (11, sys_getpid), (12, sys_sbrk), (13, sys_sleep), (14, sys_uptime),
      (15, sys_open), (16, sys_write), (21, sys_close), (22, sys_sysinfo), (23, sys_crashn)] n"

definition set_rax :: "int \<Rightarrow> kernel \<Rightarrow> (kernel, unit) res" where
  "set_rax v k =
     bnd (myproc k) (\<lambda>p k. Ok () (upd_proc p (\<lambda>q. q\<lparr>p_tf := (p_tf q)\<lparr>rax := u64_of_int v\<rparr>\<rparr>) k))"

definition syscall :: "kernel \<Rightarrow> (kernel, unit) res" where
  "syscall k =
     bnd (myproc k) (\<lambda>p k.
     let num = s32 (rax (p_tf (ptable k ! p)))
     in case (if num > 0 \<and> num < 24 then syscalls num else None) of
          Some f \<Rightarrow> bnd (f k) (\<lambda>r k. set_rax r k)
        | None \<Rightarrow>
            bnd (cprintf (map of_char ''%d %s: unknown sys call %d'' @ [10])
                  [PInt (pid (ptable k ! p)), PStr (Some (takeWhile (\<lambda>c. c \<noteq> 0) (p_name (ptable k ! p)))), PInt num] k)
              (\<lambda>_ k. set_rax (-1) k))"

end
