(* ===== verification/Cow.thy ===== *)
theory Cow
  imports Fault
begin

text \<open>
  Copy on write across \<open>kernel/vspace.c\<close> and \<open>kernel/trap.c\<close>: what \<open>copy_vpi_page\<close>, called by \<open>fork\<close>, does to the
  descriptors of the two address spaces and to the reference counts of the pages, and what the page-fault
  handler does to a page that is shared.
\<close>

section \<open>Lists of descriptor pages\<close>

definition vpis :: "kernel \<Rightarrow> nat \<Rightarrow> vpage_info list" where
  "vpis k p = (case phys k p of VpiPage is _ \<Rightarrow> is | _ \<Rightarrow> [])"

text \<open>The list of descriptor pages that starts at address \<open>a\<close>.\<close>

primrec chain :: "kernel \<Rightarrow> nat \<Rightarrow> nat list \<Rightarrow> bool" where
  "chain k a [] \<longleftrightarrow> a = 0"
| "chain k a (p # ps) \<longleftrightarrow> a = KERNBASE + p * 4096 \<and> p < npages k \<and> p \<notin> avail_pages k \<and>
     (\<exists>is nx. phys k p = VpiPage is nx \<and> length is = 169 \<and> chain k nx ps)"

definition descs :: "kernel \<Rightarrow> nat list \<Rightarrow> vpage_info list" where
  "descs k ps = concat (map (vpis k) ps)"

definition shared :: "vpage_info \<Rightarrow> vpage_info" where
  "shared v = (if used v then v\<lparr>cow_page := True, writable := False\<rparr> else v)"

definition copied :: "vpage_info \<Rightarrow> vpage_info" where
  "copied v = (if used v then shared v else vpi0)"

section \<open>One page of descriptors\<close>

lemma pa2page_ppn: "npages k < 524288 \<Longrightarrow> n < npages k \<Longrightarrow> pa2page (w64 (n * 4096)) k = Ok n k"
  by (simp add: pa2page_def)

lemma rd_vpi_at: "p < 524288 \<Longrightarrow> phys k p = VpiPage is nx \<Longrightarrow> i < length is \<Longrightarrow> rd_vpi (KERNBASE + p * 4096, i) k = Ok (is ! i) k"
  by (simp add: rd_vpi_def rd_vpi_page_def)

lemma wr_vpi_at: "p < 524288 \<Longrightarrow> phys k p = VpiPage is nx \<Longrightarrow> i < length is \<Longrightarrow>
    wr_vpi (KERNBASE + p * 4096, i) f k = Ok () (k\<lparr>phys := (phys k)(p := VpiPage (is[i := f (is ! i)]) nx)\<rparr>)"
  by (simp add: wr_vpi_def rd_vpi_page_def wr_vpi_page_def)

text \<open>One round of the loop, on the two lists of descriptors and the core map.\<close>

definition bump :: "nat \<Rightarrow> core_map_entry list \<Rightarrow> core_map_entry list" where
  "bump p cm = cm[p := (cm ! p)\<lparr>ref_count := ref_count (cm ! p) + 1\<rparr>]"

fun cp_step :: "nat \<Rightarrow> vpage_info list \<times> vpage_info list \<times> core_map_entry list \<Rightarrow>
    vpage_info list \<times> vpage_info list \<times> core_map_entry list" where
  "cp_step i (ds, ss, cm) =
     (if used (ss ! i)
      then (ds[i := (ds ! i)\<lparr>used := True, present := present (ss ! i), cow_page := True, writable := False, ppn := ppn (ss ! i)\<rparr>],
            ss[i := (ss ! i)\<lparr>cow_page := True, writable := False\<rparr>], bump (ppn (ss ! i)) cm)
      else (ds, ss, cm))"

definition put_copy :: "nat \<Rightarrow> nat \<Rightarrow> nat \<Rightarrow> nat \<Rightarrow> kernel \<Rightarrow> vpage_info list \<times> vpage_info list \<times> core_map_entry list \<Rightarrow> kernel" where
  "put_copy d nd s ns k = (\<lambda>(ds, ss, cm). k\<lparr>phys := (phys k)(d := VpiPage ds nd, s := VpiPage ss ns), core_map := cm\<rparr>)"

lemma put_copy_frame [simp]:
  "npages (put_copy d nd s ns k x) = npages k" "kmem_free (put_copy d nd s ns k x) = kmem_free k"
  "put_copy d nd s ns (put_copy d nd s ns k x) y = put_copy d nd s ns k y"
  by (cases x; cases y; simp add: put_copy_def kmem_free_def)+

lemma copy_vpi_ok:
  assumes np: "npages k < 524288" "s < npages k" "d < npages k" "s \<noteq> d" "kmem_free k"
    and i: "i < length ss" "i < length ds" and v: "used (ss ! i) \<Longrightarrow> ppn (ss ! i) < npages k"
  shows "copy_vpi (KERNBASE + d * 4096) (KERNBASE + s * 4096) i (put_copy d nd s ns k (ds, ss, cm)) =
    Ok () (put_copy d nd s ns k (cp_step i (ds, ss, cm)))"
proof -
  let ?k = "put_copy d nd s ns k (ds, ss, cm)"
  have lt: "s < 524288" "d < 524288" using np by auto
  have ph: "phys ?k s = VpiPage ss ns" "phys ?k d = VpiPage ds nd" using np(4) by (simp_all add: put_copy_def)
  note rd = rd_vpi_at [OF lt(1) ph(1) i(1)]
  show ?thesis
  proof (cases "used (ss ! i)")
    case True
    let ?f = "\<lambda>x. x\<lparr>used := True, present := present (ss ! i), cow_page := True, writable := False, ppn := ppn (ss ! i)\<rparr>"
    let ?k1 = "put_copy d nd s ns k (ds[i := ?f (ds ! i)], ss, cm)"
    let ?k2 = "put_copy d nd s ns k (ds[i := ?f (ds ! i)], ss[i := (ss ! i)\<lparr>cow_page := True, writable := False\<rparr>], cm)"
    have w1: "wr_vpi (KERNBASE + d * 4096, i) ?f ?k = Ok () ?k1"
      using wr_vpi_at [OF lt(2) ph(2) i(2), of ?f] np(4) by (simp add: put_copy_def fun_upd_twist)
    have "phys ?k1 s = VpiPage ss ns" by (simp add: put_copy_def)
    then have w2: "wr_vpi (KERNBASE + s * 4096, i) (\<lambda>x. x\<lparr>cow_page := True, writable := False\<rparr>) ?k1 = Ok () ?k2"
      using wr_vpi_at [OF lt(1) _ i(1), of ?k1 ns "\<lambda>x. x\<lparr>cow_page := True, writable := False\<rparr>"] by (simp add: put_copy_def)
    have "pa2page (w64 (ppn (ss ! i) * 4096)) ?k2 = Ok (ppn (ss ! i)) ?k2"
      using np(1) v [OF True] by (intro pa2page_ppn) simp_all
    moreover have "kmem_free ?k2" using np(5) by simp
    ultimately show ?thesis
      using True w1 w2 by (cases "use_lock ?k2")
        (simp_all add: copy_vpi_def rd acquire_core_map_lock_def release_core_map_lock_def kmem_free_def,
         simp_all add: put_copy_def bump_def)
  qed (use rd in \<open>simp add: copy_vpi_def\<close>)
qed

lemma cp_step_lengths:
  "cp_step i (ds, ss, cm) = (ds', ss', cm') \<Longrightarrow> length ds' = length ds \<and> length ss' = length ss \<and> length cm' = length cm"
  by (auto simp: bump_def split: if_splits)

lemma cp_step_ppn:
  "cp_step i (ds, ss, cm) = (ds', ss', cm') \<Longrightarrow> used (ss' ! j) = used (ss ! j) \<and> ppn (ss' ! j) = ppn (ss ! j)"
  by (cases "i < length ss"; cases "i = j") (auto simp: list_update_beyond split: if_splits)

lemma copy_vpis_ok:
  assumes "npages k < 524288" "s < npages k" "d < npages k" "s \<noteq> d" "kmem_free k"
    and "\<forall>i \<in> set is. i < length ss \<and> i < length ds \<and> (used (ss ! i) \<longrightarrow> ppn (ss ! i) < npages k)"
  shows "copy_vpis is (KERNBASE + d * 4096) (KERNBASE + s * 4096) (put_copy d nd s ns k (ds, ss, cm)) =
    Ok () (put_copy d nd s ns k (fold cp_step is (ds, ss, cm)))"
  using assms(6)
proof (induction "is" arbitrary: ds ss cm)
  case (Cons i "is")
  obtain ds' ss' cm' where st: "cp_step i (ds, ss, cm) = (ds', ss', cm')" by (metis prod_cases3)
  have "copy_vpi (KERNBASE + d * 4096) (KERNBASE + s * 4096) i (put_copy d nd s ns k (ds, ss, cm)) =
      Ok () (put_copy d nd s ns k (ds', ss', cm'))"
    using Cons.prems copy_vpi_ok [OF assms(1-5), of i ss ds nd ns cm] by (simp add: st del: cp_step.simps)
  moreover have "\<forall>j \<in> set is. j < length ss' \<and> j < length ds' \<and> (used (ss' ! j) \<longrightarrow> ppn (ss' ! j) < npages k)"
    using Cons.prems cp_step_lengths [OF st] cp_step_ppn [OF st] by auto
  ultimately show ?case using Cons.IH by (simp add: st del: cp_step.simps)
qed simp

definition counted :: "vpage_info list \<Rightarrow> core_map_entry list \<Rightarrow> core_map_entry list" where
  "counted vs cm = map (\<lambda>p. (cm ! p)\<lparr>ref_count := ref_count (cm ! p) + int (count_if (\<lambda>v. used v \<and> ppn v = p) vs)\<rparr>)
     [0 ..< length cm]"

lemma counted_Nil [simp]: "counted [] cm = cm"
  by (simp add: counted_def count_if_def map_nth)

lemma counted_snoc:
  "(used v \<longrightarrow> ppn v < length cm) \<Longrightarrow>
     counted (vs @ [v]) cm = (if used v then bump (ppn v) (counted vs cm) else counted vs cm)"
  by (auto simp: counted_def bump_def count_if_def intro!: nth_equalityI)

lemma counted_append: "counted (vs @ ws) cm = counted ws (counted vs cm)"
  by (simp add: counted_def count_if_def)

lemma fold_cp_step:
  assumes "n \<le> length ss" "\<forall>v \<in> set ss. used v \<longrightarrow> ppn v < length cm"
  shows "fold cp_step [0 ..< n] (replicate (length ss) vpi0, ss, cm) =
    (map copied (take n ss) @ replicate (length ss - n) vpi0, map shared (take n ss) @ drop n ss, counted (take n ss) cm)"
  using assms(1)
proof (induction n)
  case (Suc n)
  let ?v = "ss ! n"
  from Suc.prems have n: "n < length ss" by simp
  have tk: "take (Suc n) ss = take n ss @ [?v]" using n by (simp add: take_Suc_conv_app_nth)
  have dr: "drop n ss = ?v # drop (Suc n) ss" using n by (simp add: Cons_nth_drop_Suc)
  have rp: "replicate (length ss - n) vpi0 = vpi0 # replicate (length ss - Suc n) vpi0"
    using n by (metis Suc_diff_Suc replicate_Suc)
  have at: "(map copied (take n ss) @ vpi0 # replicate (length ss - Suc n) vpi0) ! n = vpi0"
    "(map shared (take n ss) @ ?v # drop (Suc n) ss) ! n = ?v"
    using n by (simp_all add: nth_append)
  have up: "(map copied (take n ss) @ vpi0 # xs)[n := x] = map copied (take n ss) @ x # xs"
    "(map shared (take n ss) @ ?v # xs)[n := x] = map shared (take n ss) @ x # xs" for x xs
    using n by (simp_all add: list_update_append)
  have "counted (take (Suc n) ss) cm = (if used ?v then bump (ppn ?v) (counted (take n ss) cm) else counted (take n ss) cm)"
    using n assms(2) by (simp add: tk counted_snoc)
  then show ?case
    using Suc n by (simp add: rp dr at up) (simp add: tk copied_def shared_def vpi0_def)
qed simp

section \<open>The whole list\<close>

lemma chain_cong:
  assumes "\<And>p. p \<in> set ps \<Longrightarrow> phys k' p = phys k p" "avail_pages k' \<subseteq> avail_pages k" "npages k' = npages k"
  shows "chain k a ps \<Longrightarrow> chain k' a ps"
  using assms(1)
proof (induction ps arbitrary: a)
  case (Cons p ps)
  then obtain "is" nx where "phys k p = VpiPage is nx" "length is = 169" "chain k nx ps" by auto
  with Cons.IH [OF this(3)] Cons.prems assms(2,3) show ?case by auto
qed simp

lemma descs_cong: "(\<And>p. p \<in> set ps \<Longrightarrow> phys k' p = phys k p) \<Longrightarrow> descs k' ps = descs k ps"
  by (induction ps) (simp_all add: descs_def vpis_def)

lemma chain_avail: "chain k a ps \<Longrightarrow> set ps \<inter> avail_pages k = {}"
  by (induction ps arbitrary: a) auto

lemma length_counted [simp]: "length (counted vs cm) = length cm"
  by (simp add: counted_def)

lemma counted_nth: "p < length cm \<Longrightarrow> counted vs cm ! p =
    (cm ! p)\<lparr>ref_count := ref_count (cm ! p) + int (count_if (\<lambda>v. used v \<and> ppn v = p) vs)\<rparr>"
  by (simp add: counted_def)

text \<open>More references to pages in use keep the allocator's invariant.\<close>

lemma kmem_ready_counted:
  assumes ready: "kmem_ready k" and vs: "\<forall>v \<in> set vs. used v \<longrightarrow> ppn v \<notin> avail_pages k"
    and k': "core_map k' = counted vs (core_map k)" "npages k' = npages k" "free_pages k' = free_pages k"
      "kmem_free k' = kmem_free k" "k_end k' = k_end k"
  shows "kmem_ready k'" "avail_pages k' = avail_pages k"
proof -
  have av: "available (counted vs (core_map k) ! p) = available (core_map k ! p)" if "p < length (core_map k)" for p
    using that by (simp add: counted_nth)
  have map: "map available (counted vs (core_map k)) = map available (core_map k)"
    by (rule nth_equalityI) (simp_all add: av)
  have es: "count_if (\<lambda>e. available e = 1) es = count_if (\<lambda>a. a = 1) (map available es)" for es
    by (induction es) simp_all
  have cnt: "count_if (\<lambda>e. available e = 1) (counted vs (core_map k)) = count_if (\<lambda>e. available e = 1) (core_map k)"
    unfolding es map ..
  have 0: "count_if (\<lambda>v. used v \<and> ppn v = p) vs = 0" if "available (core_map k ! p) = 1" "p < length (core_map k)" for p
  proof -
    have "p \<in> avail_pages k" using that by (simp add: avail_pages_def)
    then have "filter (\<lambda>v. used v \<and> ppn v = p) vs = []" using vs unfolding filter_empty_conv by blast
    then show ?thesis by (simp add: count_if_def)
  qed
  have "0 \<le> ref_count e \<and> available e \<le> 1 \<and> (available e = 1 \<longrightarrow> ref_count e = 0)" if mem: "e \<in> set (counted vs (core_map k))" for e
  proof -
    obtain p where p: "p < length (core_map k)" "counted vs (core_map k) ! p = e"
      using mem unfolding in_set_conv_nth length_counted by blast
    have "kmem_inv k" using ready by (simp add: kmem_ready_def)
    note en = kmem_inv_entry [OF this p(1)] 0 [OF _ p(1)]
    show ?thesis using en unfolding p(2) [symmetric] counted_nth [OF p(1)] by simp
  qed
  then have ent: "\<forall>e \<in> set (core_map k'). 0 \<le> ref_count e \<and> available e \<le> 1 \<and> (available e = 1 \<longrightarrow> ref_count e = 0)"
    unfolding k'(1) by blast
  show eq: "avail_pages k' = avail_pages k" using av by (auto simp: avail_pages_def k'(1))
  have "kmem_inv k'" using ready ent unfolding kmem_ready_def kmem_inv_def k'(1) k'(2) k'(3) cnt by simp
  with ready show "kmem_ready k'" by (simp add: kmem_ready_def eq k')
qed

lemma page_refs_counted:
  "core_map k' = counted vs (core_map k) \<Longrightarrow> x < length (core_map k) \<Longrightarrow>
     page_refs x k' = page_refs x k + int (count_if (\<lambda>v. used v \<and> ppn v = x) vs)"
  by (simp add: page_refs_def counted_nth)

text \<open>The head of the list: a page is taken for the copy and its descriptors are filled in.\<close>

lemma copy_head:
  assumes ready: "kmem_ready k" and av: "avail_pages k \<noteq> {}"
    and p: "p < npages k" "p \<notin> avail_pages k" "phys k p = VpiPage is nx" "length is = 169"
    and vs: "\<forall>v \<in> set is. used v \<longrightarrow> ppn v < npages k \<and> ppn v \<notin> avail_pages k"
  shows "\<exists>d k1 k2. kalloc k = Ok (KERNBASE + d * 4096) k1 \<and> d \<in> avail_pages k \<and>
    copy_vpis [0 ..< 169] (KERNBASE + d * 4096) (KERNBASE + p * 4096) (clear_vpi_page (KERNBASE + d * 4096) k1) = Ok () k2 \<and>
    kmem_ready k2 \<and> avail_pages k2 = avail_pages k - {d} \<and> npages k2 = npages k \<and>
    phys k2 = (phys k)(d := VpiPage (map copied is) 0, p := VpiPage (map shared is) nx) \<and>
    (\<forall>x < npages k. page_refs x k2 = page_refs x k + int (count_if (\<lambda>v. used v \<and> ppn v = x) is) + (if x = d then 1 else 0))"
proof -
  obtain d k1 where d: "kalloc k = Ok (KERNBASE + d * 4096) k1" "d \<in> avail_pages k" "k1 = kalloc_entry d k" "kmem_ready k1"
    "avail_pages k1 = avail_pages k - {d}" "page_refs d k1 = 1" "\<forall>j. j \<noteq> d \<longrightarrow> page_refs j k1 = page_refs j k"
    using kalloc_ready [OF ready av] by blast
  have np: "npages k < 524288" "length (core_map k) = npages k" using ready by (auto simp: kmem_ready_def kmem_inv_def)
  have dlt: "d < npages k" "d < 524288" using d(2) np by (auto simp: avail_pages_def)
  have pd: "p \<noteq> d" using p(2) d(2) by auto
  have fr: "npages k1 = npages k" "phys k1 = phys k" "length (core_map k1) = npages k" using np(2) by (simp_all add: d(3))
  have free: "kmem_free k1" using d(4) by (simp add: kmem_ready_def)
  have clear: "clear_vpi_page (KERNBASE + d * 4096) k1 = put_copy d 0 p nx k1 (replicate 169 vpi0, is, core_map k1)"
    using p(3) dlt pd by (simp add: clear_vpi_page_def wr_vpi_page_def put_copy_def fr(2) fun_upd_twist fun_upd_idem)
  define k2 where "k2 = put_copy d 0 p nx k1 (map copied is, map shared is, counted is (core_map k1))"
  have "fold cp_step [0 ..< 169] (replicate 169 vpi0, is, core_map k1) = (map copied is, map shared is, counted is (core_map k1))"
    using fold_cp_step [of 169 "is" "core_map k1"] vs p(4) by (simp add: fr(3))
  moreover have "copy_vpis [0 ..< 169] (KERNBASE + d * 4096) (KERNBASE + p * 4096) (put_copy d 0 p nx k1 (replicate 169 vpi0, is, core_map k1)) =
      Ok () (put_copy d 0 p nx k1 (fold cp_step [0 ..< 169] (replicate 169 vpi0, is, core_map k1)))"
    using np p dlt pd free vs by (intro copy_vpis_ok) (auto simp: fr)
  ultimately have run: "copy_vpis [0 ..< 169] (KERNBASE + d * 4096) (KERNBASE + p * 4096) (clear_vpi_page (KERNBASE + d * 4096) k1) = Ok () k2"
    by (simp add: clear k2_def)
  have k2: "core_map k2 = counted is (core_map k1)" "npages k2 = npages k1" "free_pages k2 = free_pages k1"
    "kmem_free k2 = kmem_free k1" "k_end k2 = k_end k1"
    "phys k2 = (phys k)(d := VpiPage (map copied is) 0, p := VpiPage (map shared is) nx)"
    by (simp_all add: k2_def) (simp_all add: put_copy_def fr)
  have "\<forall>v \<in> set is. used v \<longrightarrow> ppn v \<notin> avail_pages k1" using vs d(5) by auto
  note rd = kmem_ready_counted [OF d(4) this k2(1-5)]
  have refs: "page_refs x k2 = page_refs x k + int (count_if (\<lambda>v. used v \<and> ppn v = x) is) + (if x = d then 1 else 0)"
    if "x < npages k" for x
  proof -
    have "page_refs d k = 0" using d(2) ready kmem_inv_entry(3) [of k d] by (auto simp: page_refs_def avail_pages_def kmem_ready_def)
    then show ?thesis using page_refs_counted [OF k2(1), of x] that d(6,7) fr by auto
  qed
  show ?thesis
    by (rule exI [of _ d], rule exI [of _ k1], rule exI [of _ k2]) (use d run rd k2 fr refs in simp)
qed

lemma count_descs_Cons:
  "phys k p = VpiPage is nx \<Longrightarrow> descs k (p # ps) = is @ descs k ps"
  by (simp add: descs_def vpis_def)

lemma count_if_append [simp]: "count_if P (xs @ ys) = count_if P xs + count_if P ys"
  by (simp add: count_if_def)

text \<open>What a copy of the list that starts at \<open>a\<close> gives.\<close>

definition copy_spec :: "nat \<Rightarrow> nat list \<Rightarrow> kernel \<Rightarrow> nat \<Rightarrow> nat list \<Rightarrow> kernel \<Rightarrow> bool" where
  "copy_spec a ps k b qs k' \<longleftrightarrow> kmem_ready k' \<and> npages k' = npages k \<and> chain k' a ps \<and> chain k' b qs \<and>
     distinct qs \<and> length qs = length ps \<and> set qs \<subseteq> avail_pages k \<and> avail_pages k' = avail_pages k - set qs \<and>
     descs k' ps = map shared (descs k ps) \<and> descs k' qs = map copied (descs k ps) \<and>
     (\<forall>x. x \<notin> set ps \<union> set qs \<longrightarrow> phys k' x = phys k x) \<and>
     (\<forall>x < npages k. page_refs x k' = page_refs x k + int (count_if (\<lambda>v. used v \<and> ppn v = x) (descs k ps)) +
        (if x \<in> set qs then 1 else 0))"

text \<open>Linking a copied head to the copy of the rest.\<close>

lemma copy_spec_Cons:
  assumes ready: "kmem_ready k" and p: "p < npages k" "p \<notin> avail_pages k" "p \<notin> set ps" "phys k p = VpiPage is nx" "length is = 169"
    and d: "d \<in> avail_pages k" "avail_pages k2 = avail_pages k - {d}" "npages k2 = npages k"
      "phys k2 = (phys k)(d := VpiPage (map copied is) 0, p := VpiPage (map shared is) nx)"
      "\<forall>x < npages k. page_refs x k2 = page_refs x k + int (count_if (\<lambda>v. used v \<and> ppn v = x) is) + (if x = d then 1 else 0)"
    and ps: "set ps \<inter> avail_pages k = {}" and sp: "copy_spec nx ps k2 b qs k3"
  shows "copy_spec (KERNBASE + p * 4096) (p # ps) k (KERNBASE + d * 4096) (d # qs)
    (wr_vpi_page (KERNBASE + d * 4096) (map copied is) b k3)" "phys k3 d = VpiPage (map copied is) 0"
proof -
  have np: "npages k < 524288" "length (core_map k) = npages k" using ready by (auto simp: kmem_ready_def kmem_inv_def)
  have dlt: "d < npages k" "d < 524288" using d(1) np by (auto simp: avail_pages_def)
  have ne: "p \<noteq> d" "d \<notin> set ps" "d \<notin> set qs" "p \<notin> set qs"
    using p d(1,2) ps sp by (auto simp: copy_spec_def)
  let ?k = "wr_vpi_page (KERNBASE + d * 4096) (map copied is) b k3"
  have ph: "phys ?k = (phys k3)(d := VpiPage (map copied is) b)" using dlt by (simp add: wr_vpi_page_def)
  have fr: "avail_pages ?k = avail_pages k3" "npages ?k = npages k3" "kmem_ready ?k = kmem_ready k3"
    "page_refs x ?k = page_refs x k3" for x by (simp_all add: wr_vpi_page_def) (simp add: page_refs_def)
  have ph3: "phys k3 d = VpiPage (map copied is) 0" "phys k3 p = VpiPage (map shared is) nx"
    using sp ne p(3) d(4) by (simp_all add: copy_spec_def)
  show "phys k3 d = VpiPage (map copied is) 0" by (fact ph3)
  have ch: "chain ?k nx ps" "chain ?k b qs"
    using sp ne by (auto simp: copy_spec_def fr ph intro!: chain_cong [of _ _ k3])
  have ps2: "descs k2 ps = descs k ps" by (rule descs_cong) (use ne p(3) in \<open>auto simp: d(4)\<close>)
  have "descs ?k ps = descs k3 ps" "descs ?k qs = descs k3 qs" by (rule descs_cong, use ne in \<open>auto simp: ph\<close>)+
  then have de: "descs ?k ps = map shared (descs k ps)" "descs ?k qs = map copied (descs k ps)"
    using sp by (simp_all add: copy_spec_def ps2)
  have av3: "avail_pages k3 = avail_pages k - insert d (set qs)" using sp d(2) by (auto simp: copy_spec_def)
  have "chain ?k (KERNBASE + p * 4096) (p # ps)" "chain ?k (KERNBASE + d * 4096) (d # qs)"
    using ch ph ph3 ne p dlt d(3) sp av3 by (auto simp: fr copy_spec_def)
  moreover have "descs ?k (p # ps) = map shared (descs k (p # ps))" "descs ?k (d # qs) = map copied (descs k (p # ps))"
    using de ph ph3 ne p(4) by (simp_all add: count_descs_Cons)
  moreover have "phys ?k x = phys k x" if "x \<notin> set (p # ps) \<union> set (d # qs)" for x
    using that sp by (simp add: copy_spec_def ph d(4))
  moreover have "page_refs x ?k = page_refs x k + int (count_if (\<lambda>v. used v \<and> ppn v = x) (descs k (p # ps))) +
      (if x \<in> set (d # qs) then 1 else 0)" if "x < npages k" for x
    using that sp d(3,5) ne(3) by (auto simp: copy_spec_def fr count_descs_Cons [OF p(4)] ps2)
  moreover have sz: "kmem_ready ?k" "npages ?k = npages k" "distinct (d # qs)" "length (d # qs) = length (p # ps)"
    "set (d # qs) \<subseteq> avail_pages k" "avail_pages ?k = avail_pages k - set (d # qs)"
    using sp ne(3) d(1-3) av3 by (auto simp: copy_spec_def fr)
  ultimately show "copy_spec (KERNBASE + p * 4096) (p # ps) k (KERNBASE + d * 4096) (d # qs) ?k"
    unfolding copy_spec_def by (intro conjI) (use sz in blast)+
qed

lemma copy_vpi_loop_ok:
  assumes "kmem_ready k" "chain k a ps" "distinct ps" "length ps \<le> card (avail_pages k)" "length ps < fuel"
    and "\<forall>v \<in> set (descs k ps). used v \<longrightarrow> ppn v < npages k \<and> ppn v \<notin> avail_pages k"
  shows "\<exists>b qs k'. copy_vpi_loop fuel a k = Ok (0, b) k' \<and> copy_spec a ps k b qs k'"
  using assms
proof (induction ps arbitrary: a k fuel)
  case Nil
  then obtain f where "fuel = Suc f" by (cases fuel) auto
  with Nil show ?case by (intro exI [of _ 0] exI [of _ "[]"] exI [of _ k]) (simp add: copy_spec_def descs_def count_if_def)
next
  case (Cons p ps)
  then obtain f "is" nx where f: "fuel = Suc f" "length ps < f"
    and p: "a = KERNBASE + p * 4096" "p < npages k" "p \<notin> avail_pages k" "phys k p = VpiPage is nx" "length is = 169" "chain k nx ps"
    by (cases fuel) auto
  have dc: "descs k (p # ps) = is @ descs k ps" by (rule count_descs_Cons [OF p(4)])
  have "avail_pages k \<noteq> {}" using Cons.prems(4) by auto
  from copy_head [OF Cons.prems(1) this p(2-5)] Cons.prems(6) obtain d k1 k2 where
    d: "kalloc k = Ok (KERNBASE + d * 4096) k1" "d \<in> avail_pages k"
    "copy_vpis [0 ..< 169] (KERNBASE + d * 4096) (KERNBASE + p * 4096) (clear_vpi_page (KERNBASE + d * 4096) k1) = Ok () k2"
    "kmem_ready k2" and k2: "avail_pages k2 = avail_pages k - {d}" "npages k2 = npages k"
    "phys k2 = (phys k)(d := VpiPage (map copied is) 0, p := VpiPage (map shared is) nx)"
    "\<forall>x < npages k. page_refs x k2 = page_refs x k + int (count_if (\<lambda>v. used v \<and> ppn v = x) is) + (if x = d then 1 else 0)"
    unfolding dc by auto
  have ps: "set ps \<inter> avail_pages k = {}" "p \<notin> set ps" using chain_avail [OF p(6)] Cons.prems(3) by auto
  have same: "phys k2 x = phys k x" if "x \<in> set ps" for x using that ps d(2) by (auto simp: k2(3))
  have "chain k2 nx ps" using p(6) same by (rule chain_cong [rotated 3]) (auto simp: k2)
  moreover have "length ps \<le> card (avail_pages k2)" using Cons.prems(4) d(2) by (simp add: k2(1) finite_avail)
  moreover have "\<forall>v \<in> set (descs k2 ps). used v \<longrightarrow> ppn v < npages k2 \<and> ppn v \<notin> avail_pages k2"
    using Cons.prems(6) descs_cong [OF same] unfolding dc k2(1,2) by auto
  ultimately obtain b qs k3 where k3: "copy_vpi_loop f nx k2 = Ok (0, b) k3" "copy_spec nx ps k2 b qs k3"
    using Cons.IH [OF d(4), of nx f] Cons.prems(3) f(2) by auto
  note sp = copy_spec_Cons [OF Cons.prems(1) p(2,3) ps(2) p(4,5) d(2) k2 ps(1) k3(2)]
  have lt: "d < 524288" "p < 524288"
    using d(2) p(2) Cons.prems(1) by (auto simp: avail_pages_def kmem_ready_def kmem_inv_def)
  have "p \<noteq> d" using p(3) d(2) by auto
  then have "copy_vpi_loop fuel a k = Ok (0, KERNBASE + d * 4096) (wr_vpi_page (KERNBASE + d * 4096) (map copied is) b k3)"
    using d(1,3) k3(1) sp(2) lt by (simp add: f(1) p(1) rd_vpi_page_def k2(3))
  with sp(1) show ?case unfolding p(1) by blast
qed

section \<open>Properties\<close>

text \<open>C2: \<open>fork\<close> shares memory and copies none of it: from a list of descriptor pages, with a free page for each of
  them, \<open>copy_vpi_page\<close> returns 0 and a list of as many new pages whose descriptors name the same physical pages
  as the old ones. In both lists every page in use is then read-only and marked for copy on write, and its reference count
  has grown by the number of descriptors that name it. No other page of memory changes, and the allocator's
  invariant holds.\<close>

theorem fork_shares_pages:
  assumes "kmem_ready k" "chain k a ps" "distinct ps" "length ps \<le> card (avail_pages k)"
    and "\<forall>v \<in> set (descs k ps). used v \<longrightarrow> ppn v < npages k \<and> ppn v \<notin> avail_pages k"
  shows "\<exists>b qs k'. copy_vpi_page a k = Ok (0, b) k' \<and> chain k' a ps \<and> chain k' b qs \<and> set qs \<subseteq> avail_pages k \<and>
    descs k' ps = map shared (descs k ps) \<and> descs k' qs = map copied (descs k ps) \<and>
    (\<forall>x. x \<notin> set ps \<union> set qs \<longrightarrow> phys k' x = phys k x) \<and>
    (\<forall>x < npages k. page_refs x k' = page_refs x k + int (count_if (\<lambda>v. used v \<and> ppn v = x) (descs k ps)) +
       (if x \<in> set qs then 1 else 0)) \<and> kmem_ready k' \<and> avail_pages k' = avail_pages k - set qs"
proof -
  have "card (avail_pages k) \<le> npages k"
    using assms(1) card_mono [of "{..< npages k}" "avail_pages k"]
    by (auto simp: kmem_ready_def kmem_inv_def avail_pages_def)
  then have "length ps < Suc (Suc (npages k))" using assms(4) by simp
  from copy_vpi_loop_ok [OF assms(1-4) this assms(5)] show ?thesis
    unfolding copy_vpi_page_def copy_spec_def by blast
qed

definition k0_vpi :: kernel where
  "k0_vpi = k0\<lparr>phys := (phys k0)(0 := VpiPage (vpi0\<lparr>used := True, present := True, writable := True, ppn := 1\<rparr> # replicate 168 vpi0) 0)\<rparr>"

lemma k0_vpi_ready: "kmem_ready k0_vpi" "avail_pages k0_vpi = {4, 5, 6, 7}" "npages k0_vpi = 8"
  using kmem_ready_k0 avail_pages_k0 by (simp_all add: k0_vpi_def) (simp add: k0_def)

lemma k0_vpi_chain: "chain k0_vpi KERNBASE [0]" "descs k0_vpi [0] = vpi0\<lparr>used := True, present := True, writable := True, ppn := 1\<rparr> # replicate 168 vpi0"
  using k0_vpi_ready by (simp_all add: descs_def vpis_def) (simp_all add: k0_vpi_def)

theorem fork_shares_pages_witness:
  "\<exists>b q k'. copy_vpi_page KERNBASE k0_vpi = Ok (0, b) k' \<and> q \<in> {4, 5, 6, 7} \<and> page_refs 1 k' = page_refs 1 k0_vpi + 1 \<and>
     hd (vpis k' q) = \<lparr>used = True, ppn = 1, present = True, writable = False, cow_page = True\<rparr> \<and>
     hd (vpis k' 0) = \<lparr>used = True, ppn = 1, present = True, writable = False, cow_page = True\<rparr>"
proof -
  have "\<forall>v \<in> set (descs k0_vpi [0]). used v \<longrightarrow> ppn v < npages k0_vpi \<and> ppn v \<notin> avail_pages k0_vpi"
    unfolding k0_vpi_chain k0_vpi_ready by (simp add: vpi0_def)
  from fork_shares_pages [OF k0_vpi_ready(1) k0_vpi_chain(1) _ _ this] obtain b qs k' where
    k': "copy_vpi_page KERNBASE k0_vpi = Ok (0, b) k'" "chain k' KERNBASE [0]" "chain k' b qs" "set qs \<subseteq> avail_pages k0_vpi"
    "descs k' [0] = map shared (descs k0_vpi [0])" "descs k' qs = map copied (descs k0_vpi [0])"
    "\<forall>x < npages k0_vpi. page_refs x k' = page_refs x k0_vpi + int (count_if (\<lambda>v. used v \<and> ppn v = x) (descs k0_vpi [0])) +
       (if x \<in> set qs then 1 else 0)"
    by (auto simp: k0_vpi_ready)
  have "descs k' qs \<noteq> []" unfolding k'(6) k0_vpi_chain(2) by simp
  then obtain q rs where qs: "qs = q # rs" by (cases qs) (simp_all add: descs_def)
  with k'(3) have "vpis k' q \<noteq> []" by (auto simp: vpis_def)
  with qs have "hd (vpis k' 0) = hd (descs k' [0])" "hd (vpis k' q) = hd (descs k' qs)" by (simp_all add: descs_def)
  moreover have "page_refs 1 k' = page_refs 1 k0_vpi + 1"
    using k'(4,7) by (auto simp: k0_vpi_ready k0_vpi_chain vpi0_def count_if_def)
  ultimately show ?thesis
    using k' qs by (intro exI [of _ b] exI [of _ q] exI [of _ k']) (simp add: k0_vpi_chain k0_vpi_ready shared_def copied_def vpi0_def)
qed

section \<open>A write to a shared page\<close>

lemma page_refs_bump:
  "i < length (core_map k) \<Longrightarrow> core_map k' = (core_map k)[i := (core_map k ! i)\<lparr>ref_count := r\<rparr>] \<Longrightarrow>
     page_refs j k' = (if j = i then r else page_refs j k)"
  by (simp add: page_refs_def)

lemma wr_bytes_zero: "phys k n = zero_page \<Longrightarrow> length b = 4096 \<Longrightarrow> wr_bytes n 0 b k = Ok () (k\<lparr>phys := (phys k)(n := Bytes b)\<rparr>)"
  by (simp add: wr_bytes_def zero_page_def overwrite_def)

lemma set_vspace_same [simp]: "vs = vspace_of p k \<Longrightarrow> set_vspace p vs k = k"
  by (simp add: set_vspace_def vspace_of_def upd_proc_def)

lemma upd_region_same [simp]: "upd_region r (\<lambda>_. regions vs ! r) vs = vs"
  by (simp add: upd_region_def)

lemma cow_tail:
  assumes "kmem_free k" "q < 524288" "phys k q = VpiPage is nx" "i < length is"
  shows "bnd (acquire_core_map_lock k) (\<lambda>_ k.
      bnd (wr_vpi (KERNBASE + q * 4096, i) f (k\<lparr>core_map := g (core_map k)\<rparr>)) (\<lambda>_ k.
      bnd (release_core_map_lock k) (\<lambda>_ k. Ok r k))) =
    Ok r (k\<lparr>phys := (phys k)(q := VpiPage (is[i := f (is ! i)]) nx), core_map := g (core_map k)\<rparr>)"
  using assms by (cases "use_lock k") (simp_all add: acquire_core_map_lock_def release_core_map_lock_def kmem_free_def wr_vpi_at)

lemma cow_copy_ok:
  assumes ready: "kmem_ready k" and av: "avail_pages k \<noteq> {}"
    and q: "q < npages k" "q \<notin> avail_pages k" "phys k q = VpiPage is nx" "i < length is" "is ! i = v"
    and v: "ppn v < npages k" "ppn v \<notin> avail_pages k" "phys k (ppn v) = Bytes b" "length b = 4096" "1 < page_refs (ppn v) k"
  shows "\<exists>n k'. cow_copy (KERNBASE + q * 4096, i) v (ppn v) k = Ok True k' \<and> n \<in> avail_pages k \<and>
    phys k' = (phys k)(n := Bytes b, q := VpiPage (is[i := v\<lparr>used := True, writable := True, present := True, cow_page := False, ppn := n\<rparr>]) nx) \<and>
    kmem_ready k' \<and> avail_pages k' = avail_pages k - {n} \<and> ptable k' = ptable k \<and> curproc k' = curproc k \<and>
    (\<forall>x. page_refs x k' = (if x = n then 1 else if x = ppn v then page_refs x k - 1 else page_refs x k))"
proof -
  obtain n k1 where n: "kalloc k = Ok (KERNBASE + n * 4096) k1" "n \<in> avail_pages k" "k1 = kalloc_entry n k" "kmem_ready k1"
    "avail_pages k1 = avail_pages k - {n}" "page_refs n k1 = 1" "\<forall>j. j \<noteq> n \<longrightarrow> page_refs j k1 = page_refs j k"
    using kalloc_ready [OF ready av] by blast
  have np: "npages k < 524288" "length (core_map k) = npages k" using ready by (auto simp: kmem_ready_def kmem_inv_def)
  have lt: "n < 524288" "q < 524288" "ppn v < 524288" using n(2) np q v by (auto simp: avail_pages_def)
  have ne: "q \<noteq> n" "ppn v \<noteq> n" "q \<noteq> ppn v" using q(2,3) v(2,3) n(2) by auto
  have cm: "length (core_map k1) = npages k" "kmem_free k1" "phys k1 = phys k" "ptable k1 = ptable k" "curproc k1 = curproc k"
    using n(4) np(2) by (simp_all add: n(3) kmem_ready_def) (simp_all add: kalloc_entry_def)
  let ?cm = "(core_map k1)[ppn v := (core_map k1 ! ppn v)\<lparr>ref_count := ref_count (core_map k1 ! ppn v) - 1\<rparr>]"
  let ?v = "v\<lparr>used := True, writable := True, present := True, cow_page := False, ppn := n\<rparr>"
  define k' where "k' = k1\<lparr>phys := (phys k)(n := Bytes b, q := VpiPage (is[i := ?v]) nx), core_map := ?cm\<rparr>"
  let ?kz = "k1\<lparr>phys := (phys k)(n := zero_page)\<rparr>"
  have rd: "rd_bytes (ppn v) 0 PGSIZE ?kz = Ok b ?kz" using v(3,4) ne(2) by (simp add: rd_bytes_def slice_def)
  have wr: "wr_bytes n 0 b ?kz = Ok () (k1\<lparr>phys := (phys k)(n := Bytes b)\<rparr>)" using v(4) wr_bytes_zero [of ?kz n b] by simp
  have "cow_copy (KERNBASE + q * 4096, i) v (ppn v) k = Ok True k'"
  proof -
    have ph: "phys (k1\<lparr>phys := (phys k)(n := Bytes b)\<rparr>) q = VpiPage is nx" using ne(1) q(3) by simp
    have fr: "kmem_free (k1\<lparr>phys := (phys k)(n := Bytes b)\<rparr>)" using cm(2) by (simp add: kmem_free_def)
    note tl = cow_tail [OF fr lt(2) ph q(4), of "\<lambda>v. v\<lparr>used := True, writable := True, present := True, cow_page := False, ppn := n\<rparr>"
        "\<lambda>cm. cm[ppn v := (cm ! ppn v)\<lparr>ref_count := ref_count (cm ! ppn v) - 1\<rparr>]" True]
    show ?thesis using lt(1) tl q(5) by (simp add: cow_copy_def n(1) rd wr cm(3) Let_def k'_def)
  qed
  moreover have rc: "page_refs (ppn v) k1 = page_refs (ppn v) k" "ref_count (core_map k1 ! ppn v) = page_refs (ppn v) k1"
    "available (core_map k1 ! ppn v) \<noteq> 1"
  proof -
    show "page_refs (ppn v) k1 = page_refs (ppn v) k" using n(7) ne(2) by simp
    show "ref_count (core_map k1 ! ppn v) = page_refs (ppn v) k1" using v(1) cm(1) by (simp add: page_refs_def)
    have "ppn v \<notin> avail_pages k1" using n(5) v(2) by simp
    then show "available (core_map k1 ! ppn v) \<noteq> 1" using v(1) cm(1) by (simp add: avail_pages_def)
  qed
  moreover have "kmem_inv k'"
  proof (rule kmem_inv_update [of k1 "ppn v" "(core_map k1 ! ppn v)\<lparr>ref_count := ref_count (core_map k1 ! ppn v) - 1\<rparr>"])
    show "kmem_inv k1" using n(4) by (simp add: kmem_ready_def)
    show "available ((core_map k1 ! ppn v)\<lparr>ref_count := ref_count (core_map k1 ! ppn v) - 1\<rparr>) \<le> 1"
      using kmem_inv_entry(2) [of k1 "ppn v"] n(4) v(1) cm(1) by (simp add: kmem_ready_def)
  qed (use rc v cm in \<open>simp_all add: k'_def\<close>)
  moreover have av': "avail_pages k' = avail_pages k1"
    using rc(3) v(1) cm(1) by (auto simp: avail_pages_def k'_def nth_list_update)
  ultimately show ?thesis
    using n cm ne(2) v(1) page_refs_bump [of "ppn v" k1 k'] cm(1)
    by (intro exI [of _ n] exI [of _ k']) (auto simp: kmem_ready_def kmem_free_def k'_def)
qed


text \<open>One process with a page of code that is shared: page 0 holds its descriptors, page 2 is the page of code.\<close>

definition vpi_cow :: vpage_info where
  "vpi_cow = \<lparr>used = True, ppn = 2, present = True, writable = False, cow_page = True\<rparr>"

definition k0_cow :: kernel where
  "k0_cow = k0_shared\<lparr>phys := (phys k0)(0 := VpiPage (vpi_cow # replicate 168 vpi0) 0, 2 := Bytes (replicate 4096 7)),
     ptable := [proc0\<lparr>p_vspace := \<lparr>regions = [region0\<lparr>vr_size := 4096, vr_pages := KERNBASE\<rparr>, region0, region0], pgtbl = 0\<rparr>\<rparr>]\<rparr>"

lemma k0_cow_ready: "kmem_ready k0_cow" "avail_pages k0_cow = {4, 5, 6, 7}" "npages k0_cow = 8" "page_refs 2 k0_cow = 2"
proof -
  have "avail_pages k0_shared = {4, 5, 6, 7}"
    by (auto simp: avail_pages_def k0_shared_def cme_def nth_append less_Suc_eq numeral_eq_Suc)
  then show "avail_pages k0_cow = {4, 5, 6, 7}" by (simp add: k0_cow_def avail_pages_def)
  show "kmem_ready k0_cow" using kmem_ready_k0_shared
    by (simp add: k0_cow_def kmem_ready_def kmem_inv_def kmem_free_def avail_pages_def)
  show "npages k0_cow = 8" "page_refs 2 k0_cow = 2"
    by (simp_all add: k0_cow_def k0_shared_def k0_def page_refs_def cme_def nth_append)
qed

lemma k0_cow_at:
  "va2vregion (vspace_of 0 k0_cow) 5 = Some 0"
  "va2vpage_info (regions (vspace_of 0 k0_cow) ! 0) 5 k0_cow = Ok (regions (vspace_of 0 k0_cow) ! 0, Some (KERNBASE + 0 * 4096, 0)) k0_cow"
  by (simp_all add: vspace_of_def k0_cow_def va2vregion_def region_has_def region0_def va2vpage_info_def va2vpi_idx_def
      vpi_fuel_def s32_def sub64_def w32_def)


end
