(* ===== verification/Vmframe.thy ===== *)
theory Vmframe
  imports VSpace
begin

text \<open>
  What the operations on page tables and address spaces leave alone: an operation of \<open>kernel/x86_64vm.c\<close> and
  \<open>kernel/vspace.c\<close> that returns has changed at most the contents of physical pages and the bookkeeping of the
  page allocator, and holds the same locks as before.
\<close>

named_theorems vm_keeps

section \<open>Frames\<close>

text \<open>A relation between the states before and after an operation that is reflexive and transitive, and the
  operations that stay within it when they return.\<close>

locale frame =
  fixes same :: "'s \<Rightarrow> 's \<Rightarrow> bool"
  assumes same_refl: "same k k" and same_trans: "same k k' \<Longrightarrow> same k' k'' \<Longrightarrow> same k k''"
begin

definition keeps :: "('s \<Rightarrow> ('s, 'a) res) \<Rightarrow> bool" where
  "keeps m \<longleftrightarrow> (\<forall>k r k'. m k = Ok r k' \<longrightarrow> same k k')"

lemma keepsD: "keeps m \<Longrightarrow> m k = Ok r k' \<Longrightarrow> same k k'"
  by (auto simp: keeps_def)

lemma keepsI: "(\<And>k r k'. m k = Ok r k' \<Longrightarrow> same k k') \<Longrightarrow> keeps m"
  by (auto simp: keeps_def)

lemma keeps_end: "keeps (\<lambda>k. Ok (r k) k)" "keeps (\<lambda>k. Panic (s k))" "keeps (\<lambda>k. Undef (s k))" "keeps (\<lambda>k. OutOfFuel)"
  "keeps (\<lambda>k. Sleeps (u k))"
  by (simp_all add: keeps_def same_refl)

lemma keeps_upd: "(\<And>k. same k (u k)) \<Longrightarrow> keeps (\<lambda>k. Ok (r k) (u k))"
  by (auto simp: keeps_def)

lemma keeps_bnd:
  assumes "keeps m" "\<And>x. keeps (g x)"
  shows "keeps (\<lambda>k. bnd (m k) g)"
  unfolding keeps_def bnd_Ok_iff using keepsD [OF assms(1)] keepsD [OF assms(2)] by (blast intro: same_trans)

lemma keeps_if: "keeps f \<Longrightarrow> keeps g \<Longrightarrow> keeps (\<lambda>k. if c k then f k else g k)"
  by (simp add: keeps_def)

lemma keeps_option: "keeps f \<Longrightarrow> (\<And>x. keeps (g x)) \<Longrightarrow> keeps (\<lambda>k. case z k of None \<Rightarrow> f k | Some x \<Rightarrow> g x k)"
  by (auto simp: keeps_def split: option.splits)

lemma keeps_prod: "(\<And>a b. keeps (g a b)) \<Longrightarrow> keeps (case p of (a, b) \<Rightarrow> g a b)"
  by (cases p) simp

lemma keeps_prod2: "(\<And>a b. keeps (g a b)) \<Longrightarrow> keeps (\<lambda>k. case p k of (a, b) \<Rightarrow> g a b k)"
  by (auto simp: keeps_def split: prod.splits)

lemma keeps_page:
  "(\<And>b. keeps (f b)) \<Longrightarrow> (\<And>t. keeps (g t)) \<Longrightarrow> (\<And>is nx. keeps (h is nx)) \<Longrightarrow>
     keeps (\<lambda>k. case q k of Bytes b \<Rightarrow> f b k | Table t \<Rightarrow> g t k | VpiPage is nx \<Rightarrow> h is nx k)"
  by (auto simp: keeps_def split: page.splits)

lemma keeps_pre: "keeps m \<Longrightarrow> (\<And>k. same k (u k)) \<Longrightarrow> keeps (\<lambda>k. m (u k))"
  unfolding keeps_def by (blast intro: same_trans)

lemma keeps_pre2: "(\<And>x. keeps (m x)) \<Longrightarrow> (\<And>k. same k (u k)) \<Longrightarrow> keeps (\<lambda>k. m (f k) (u k))"
  unfolding keeps_def by (blast intro: same_trans)

lemmas keeps_rules = keeps_end keeps_bnd keeps_if keeps_option keeps_prod keeps_prod2 keeps_page

end

section \<open>Changes of memory only\<close>

definition vm_erase :: "kernel \<Rightarrow> kernel" where
  "vm_erase k = k\<lparr>phys := \<lambda>_. junk, core_map := [], free_pages := 0, pages_in_use := 0\<rparr>"

definition vm_same :: "kernel \<Rightarrow> kernel \<Rightarrow> bool" where
  "vm_same k k' \<longleftrightarrow> vm_erase k' = vm_erase k"

interpretation vm: frame vm_same
  by unfold_locales (simp_all add: vm_same_def)

lemma vm_sameD:
  assumes "vm_same k k'"
  shows "ptable k' = ptable k" "held k' = held k" "curproc k' = curproc k" "ftable k' = ftable k" "initproc k' = initproc k"
    "nextpid k' = nextpid k" "npages k' = npages k" "k_end k' = k_end k" "use_lock k' = use_lock k"
proof -
  have *: "f k' = f k" if "\<And>k. f (vm_erase k) = f k" for f :: "kernel \<Rightarrow> 'a"
    using assms that unfolding vm_same_def by metis
  show "ptable k' = ptable k" "curproc k' = curproc k" "ftable k' = ftable k" "initproc k' = initproc k" "nextpid k' = nextpid k"
    by (rule *, simp add: vm_erase_def)+
  show "held k' = held k" "npages k' = npages k" "k_end k' = k_end k" "use_lock k' = use_lock k"
    by (rule *, simp add: vm_erase_def)+
qed

declare vm.same_refl [simp, intro] vm.keeps_end [vm_keeps]

lemma vm_same_upd [simp, intro]: "vm_same k (k\<lparr>phys := m\<rparr>)" "vm_same k (k\<lparr>core_map := c\<rparr>)"
  unfolding vm_same_def vm_erase_def by (rule kernel.equality, simp_all)+

lemma keeps_upd_vm [vm_keeps]:
  "vm.keeps (\<lambda>k. Ok (r k) (k\<lparr>phys := m k\<rparr>))" "vm.keeps (\<lambda>k. Ok (r k) (k\<lparr>core_map := c k\<rparr>))"
  by (rule vm.keeps_upd, simp)+

declare vm.keeps_bnd [vm_keeps] vm.keeps_if [vm_keeps] vm.keeps_option [vm_keeps] vm.keeps_prod [vm_keeps]
  vm.keeps_prod2 [vm_keeps] vm.keeps_page [vm_keeps]

lemma keeps_pre_phys [vm_keeps]: "vm.keeps m \<Longrightarrow> vm.keeps (\<lambda>k. m (k\<lparr>phys := p k\<rparr>))"
  by (erule vm.keeps_pre) simp

section \<open>The allocator and the page tables\<close>

lemma keeps_kalloc [vm_keeps]: "vm.keeps kalloc"
  unfolding vm.keeps_def
  by (auto simp: kalloc_def acquire_core_map_lock_def release_core_map_lock_def res_iff kalloc_entry_def vm_same_def vm_erase_def
      split: if_splits option.splits)

lemma keeps_kfree [vm_keeps]: "vm.keeps (kfree v)"
  unfolding vm.keeps_def
  by (auto simp: kfree_def acquire_core_map_lock_def release_core_map_lock_def pa2page_def res_iff kfree_entry_def vm_same_def
      vm_erase_def Let_def split: if_splits)

lemma keeps_pa2page [vm_keeps]: "vm.keeps (pa2page a)"
  unfolding pa2page_def by (intro vm_keeps)

lemma keeps_entry [vm_keeps]: "vm.keeps (rd_entry t i)" "vm.keeps (wr_entry t i e)"
  unfolding rd_entry_def wr_entry_def by (intro vm_keeps)+

lemma keeps_mark [vm_keeps]: "vm.keeps (mark_user_mem pa va)"
  unfolding mark_user_mem_def by (intro vm_keeps)

lemma keeps_clear_table [vm_keeps]: "vm.keeps m \<Longrightarrow> vm.keeps (\<lambda>k. m (clear_table a k))"
  unfolding clear_table_def by (intro vm_keeps)

lemma keeps_walk [vm_keeps]: "vm.keeps (walkpml4 t va alloc)"
  unfolding walkpml4_def walk_level_def by (intro vm_keeps)

lemma keeps_mappages [vm_keeps]: "vm.keeps (mappages t vp n pp perm kern)"
proof -
  have "vm.keeps (mappages_loop m t vp pp perm kern)" for m vp pp
  proof (induction m arbitrary: vp pp)
    case (Suc m)
    show ?case unfolding mappages_loop.simps [abs_def] mappage_def by (intro vm_keeps Suc)
  qed (simp add: vm.keeps_def)
  then show ?thesis unfolding mappages_def by (intro vm_keeps)
qed

lemma keeps_setupkvm [vm_keeps]: "vm.keeps setupkvm"
proof -
  have "vm.keeps (setupkvm_loop ms t)" for ms t
  proof (induction ms)
    case (Cons m ms)
    show ?case unfolding setupkvm_loop.simps [abs_def] by (intro vm_keeps Cons)
  qed (simp add: vm.keeps_def)
  then have "vm.keeps (\<lambda>k. setupkvm_loop (kmaps k) t (clear_table t k))" for t
    unfolding clear_table_def by (rule vm.keeps_pre2) simp
  then show ?thesis unfolding setupkvm_def by (intro vm_keeps)
qed

lemma keeps_freevm_pdpt [vm_keeps]: "vm.keeps (freevm_pdpt t)"
proof -
  have 1: "vm.keeps (freevm_pgdir_loop is t)" for "is" t
  proof (induction "is")
    case (Cons i "is")
    show ?case unfolding freevm_pgdir_loop.simps [abs_def] by (intro vm_keeps Cons)
  qed (simp only: freevm_pgdir_loop.simps [abs_def] keeps_kfree)
  have "vm.keeps (freevm_pdpt_loop is t)" for "is" t
  proof (induction "is")
    case (Cons i "is")
    show ?case unfolding freevm_pdpt_loop.simps [abs_def] freevm_pgdir_def by (intro vm_keeps Cons 1)
  qed (simp only: freevm_pdpt_loop.simps [abs_def] keeps_kfree)
  then show ?thesis unfolding freevm_pdpt_def .
qed

lemma keeps_deallocuvm [vm_keeps]: "vm.keeps (deallocuvm t start oldsz newsz)"
proof -
  have nx: "vm.keeps (find_next_possible_page t va)" for va unfolding find_next_possible_page_def by (intro vm_keeps)
  have "vm.keeps (deallocuvm_loop n t a stop)" for n a stop
  proof (induction n arbitrary: a)
    case (Suc n)
    show ?case unfolding deallocuvm_loop.simps [abs_def] by (intro vm_keeps Suc nx)
  qed (simp add: vm.keeps_def)
  then show ?thesis unfolding deallocuvm_def by (intro vm_keeps)
qed

lemma keeps_freevm [vm_keeps]: "vm.keeps (freevm t)"
proof -
  have "vm.keeps (freevm_loop is t)" for "is"
  proof (induction "is")
    case (Cons i "is")
    show ?case unfolding freevm_loop.simps [abs_def] by (intro vm_keeps Cons)
  qed (simp only: freevm_loop.simps [abs_def] keeps_kfree)
  then show ?thesis unfolding freevm_def by (intro vm_keeps)
qed

section \<open>Descriptors and regions\<close>

lemma keeps_vpi [vm_keeps]: "vm.keeps (rd_vpi_page a)" "vm.keeps (rd_vpi p)" "vm.keeps (wr_vpi p f)"
  "vm.keeps m \<Longrightarrow> vm.keeps (\<lambda>k. m (wr_vpi_page a is nx k))" "vm.keeps m \<Longrightarrow> vm.keeps (\<lambda>k. m (clear_vpi_page a k))"
  "vm.keeps (\<lambda>k. Ok (r k) (wr_vpi_page a is nx k))" "vm.keeps (\<lambda>k. Ok (r k) (clear_vpi_page a k))"
  unfolding rd_vpi_def wr_vpi_def rd_vpi_page_def wr_vpi_page_def clear_vpi_page_def
  by (intro vm_keeps | assumption)+

lemma keeps_va2vpage_info [vm_keeps]: "vm.keeps (va2vpage_info vr va)" "vm.keeps (va2vpage_deref vr va)"
proof -
  have "vm.keeps (vpi_walk n info idx)" for n info idx
  proof (induction n arbitrary: info idx)
    case (Suc n)
    show ?case unfolding vpi_walk.simps [abs_def] by (intro vm_keeps Suc)
  qed (simp add: vm.keeps_def)
  then show 1: "vm.keeps (va2vpage_info vr va)" unfolding va2vpage_info_def by (intro vm_keeps)
  show "vm.keeps (va2vpage_deref vr va)" unfolding va2vpage_deref_def by (intro vm_keeps 1)
qed

lemma keeps_vregionaddmap [vm_keeps]: "vm.keeps (vregionaddmap vr va n p w)"
proof -
  have 1: "vm.keeps (addmap_loop n vr a stop p w)" for n vr a stop
  proof (induction n arbitrary: vr a)
    case (Suc n)
    show ?case unfolding addmap_loop.simps [abs_def] Let_def by (intro vm_keeps Suc)
  qed (simp add: vm.keeps_def)
  have "vm.keeps (addmap_undo n vr a base)" for n vr a base
  proof (induction n arbitrary: vr a)
    case (Suc n)
    show ?case unfolding addmap_undo.simps [abs_def] Let_def by (intro vm_keeps Suc)
  qed (simp add: vm.keeps_def)
  with 1 show ?thesis unfolding vregionaddmap_def by (intro vm_keeps)
qed

lemma keeps_vspaceinvalidate [vm_keeps]: "vm.keeps (vspaceinvalidate vs)"
proof -
  have 1: "vm.keeps (invalidate_region n t vr start stop)" for n t vr start stop
  proof (induction n arbitrary: vr start)
    case (Suc n)
    show ?case unfolding invalidate_region.simps [abs_def] by (intro vm_keeps Suc)
  qed (simp add: vm.keeps_def)
  have 2: "vm.keeps (invalidate_regions is vs)" for "is" vs
  proof (induction "is" arbitrary: vs)
    case (Cons i "is")
    show ?case unfolding invalidate_regions.simps [abs_def] Let_def by (intro vm_keeps Cons 1)
  qed (simp add: vm.keeps_def)
  have "vm.keeps (invalidate_free is t)" for "is" t
  proof (induction "is")
    case (Cons i "is")
    show ?case unfolding invalidate_free.simps [abs_def] by (intro vm_keeps Cons)
  qed (simp add: vm.keeps_def)
  with 2 show ?thesis unfolding vspaceinvalidate_def by (intro vm_keeps)
qed

lemma keeps_vspaceinit [vm_keeps]: "vm.keeps (vspaceinit vs)"
  unfolding vspaceinit_def by (intro vm_keeps)

lemma keeps_vspacefree [vm_keeps]: "vm.keeps (vspacefree vs)"
proof -
  have 1: "vm.keeps (free_desc_loop n a)" for n a
  proof (induction n arbitrary: a)
    case (Suc n)
    show ?case unfolding free_desc_loop.simps [abs_def] by (intro vm_keeps Suc)
  qed (simp add: vm.keeps_def)
  then have "vm.keeps (free_page_desc_list a)" for a unfolding free_page_desc_list_def by (rule vm.keeps_pre2) simp
  then have "vm.keeps (vspacefree_loop is vs)" for "is" vs
  proof (induction "is" arbitrary: vs)
    case (Cons i "is")
    show ?case unfolding vspacefree_loop.simps [abs_def] by (intro vm_keeps Cons)
  qed (simp add: vm.keeps_def)
  then show ?thesis unfolding vspacefree_def by (intro vm_keeps)
qed

lemma keeps_copy_vpi [vm_keeps]: "vm.keeps (copy_vpi dst src i)"
proof -
  have cm: "vm.keeps (\<lambda>k. bnd (acquire_core_map_lock k) (\<lambda>_ k. release_core_map_lock (k\<lparr>core_map := c k\<rparr>)))" for c
    unfolding vm.keeps_def acquire_core_map_lock_def release_core_map_lock_def
    by (auto simp: res_iff vm_same_def vm_erase_def insert_ident split: if_splits)
  show ?thesis unfolding copy_vpi_def by (rule cm | rule vm_keeps)+
qed

lemma keeps_vspacecopy [vm_keeps]: "vm.keeps (vspacecopy dst src)"
proof -
  have 1: "vm.keeps (copy_vpis is d s)" for "is" d s
  proof (induction "is")
    case (Cons i "is")
    show ?case unfolding copy_vpis.simps [abs_def] by (intro vm_keeps Cons)
  qed (simp add: vm.keeps_def)
  have "vm.keeps (copy_vpi_loop n s)" for n s
  proof (induction n arbitrary: s)
    case (Suc n)
    show ?case unfolding copy_vpi_loop.simps [abs_def] by (intro vm_keeps Suc 1)
  qed (simp add: vm.keeps_def)
  then have 2: "vm.keeps (copy_vpi_page s)" for s unfolding copy_vpi_page_def by (rule vm.keeps_pre2) simp
  have "vm.keeps (vspacecopy_loop is d)" for "is" d
  proof (induction "is" arbitrary: d)
    case (Cons i "is")
    show ?case unfolding vspacecopy_loop.simps [abs_def] Let_def by (intro vm_keeps Cons 2)
  qed (simp add: vm.keeps_def)
  then show ?thesis unfolding vspacecopy_def by (intro vm_keeps)
qed

end
