(* ===== verification/Life.thy ===== *)
theory Life
  imports Proc Vmframe
begin

text \<open>
  The states of the processes (\<open>kernel/proc.c\<close>): at most one process is running, whatever the processes do between
  two context switches; and a process that exits leaves a zombie that its parent, woken up, finds.
\<close>

section \<open>The running processes\<close>

definition running :: "kernel \<Rightarrow> nat set" where
  "running k = {i. i < length (ptable k) \<and> p_state (ptable k ! i) = RUNNING}"

text \<open>Steps that neither start nor stop a process, nor change which one is current.\<close>

definition calm :: "kernel \<Rightarrow> kernel \<Rightarrow> bool" where
  "calm k k' \<longleftrightarrow> length (ptable k') = length (ptable k) \<and> curproc k' = curproc k \<and> running k' = running k"

interpretation calm: frame calm
  by unfold_locales (simp_all add: calm_def)

declare calm.same_refl [simp, intro]

lemma calm_ptable: "ptable k' = ptable k \<Longrightarrow> curproc k' = curproc k \<Longrightarrow> calm k k'"
  by (simp add: calm_def running_def)

lemma calm_vm: "vm.keeps m \<Longrightarrow> calm.keeps m"
  by (auto simp: vm.keeps_def calm.keeps_def intro!: calm_ptable dest: vm_sameD)

lemma calm_locks: "calm.keeps (acquire l)" "calm.keeps (release l)"
  by (auto simp: calm.keeps_def res_iff calm_ptable)

lemma calm_upd:
  assumes "i < length (ptable k) \<Longrightarrow> (p_state (f (ptable k ! i)) = RUNNING) = (p_state (ptable k ! i) = RUNNING)"
  shows "calm k (upd_proc i f k)"
  using assms by (cases "i < length (ptable k)") (auto simp: calm_def running_def upd_proc_def nth_list_update)

lemma calm_wakeup1: "calm k (wakeup1 ch k)"
  by (auto simp: calm_def running_def wakeup1_def split: if_splits)

lemma calm_allocproc: "calm.keeps allocproc"
proof (rule calm.keepsI)
  fix k r k' assume run: "allocproc k = Ok r k'"
  let ?k1 = "k\<lparr>held := insert PtableLock (held k)\<rparr>"
  from run have nl: "PtableLock \<notin> held k" by (auto simp: allocproc_def res_iff)
  show "calm k k'"
  proof (cases "find_index (\<lambda>p. p_state p = UNUSED) (ptable k)")
    case None
    with run nl have "k' = k" by (simp add: allocproc_def)
    then show ?thesis by simp
  next
    case (Some i)
    let ?p = "(ptable k ! i)\<lparr>p_state := EMBRYO, pid := nextpid k, killed := False\<rparr>"
    define k2 where "k2 = k\<lparr>ptable := (ptable k)[i := ?p], nextpid := nextpid k + 1\<rparr>"
    from Some have i: "i < length (ptable k)" "p_state (ptable k ! i) = UNUSED" using find_index_Some by (auto dest: find_index_lessD find_index_holdsD)
    have "calm k k2" using i by (auto simp: calm_def running_def k2_def nth_list_update)
    moreover obtain s k3 where k3: "kalloc k2 = Ok s k3"
      "k' = (if s = 0 then upd_proc i (\<lambda>p. p\<lparr>p_state := UNUSED\<rparr>) (upd_proc i (\<lambda>p. p\<lparr>kstack := s\<rparr>) k3)
             else upd_proc i (\<lambda>p. p\<lparr>p_context := k_forkret (upd_proc i (\<lambda>p. p\<lparr>kstack := s\<rparr>) k3)\<rparr>) (upd_proc i (\<lambda>p. p\<lparr>kstack := s\<rparr>) k3))"
      using run nl Some by (auto simp: allocproc_def upd_proc_def k2_def res_iff Let_def split: if_splits)
    moreover have vs: "vm_same k2 k3" using keeps_kalloc k3(1) by (rule vm.keepsD)
    then have "calm k2 k3" by (intro calm_ptable) (simp_all add: vm_sameD)
    moreover have "calm k3 k'"
    proof -
      let ?k = "upd_proc i (\<lambda>p. p\<lparr>kstack := s\<rparr>) k3"
      have "p_state (ptable ?k ! i) = EMBRYO" using i vm_sameD(1) [OF vs] by (simp add: k2_def upd_proc_def)
      then have "calm ?k k'" unfolding k3(2) by (auto intro: calm_upd)
      moreover have "calm k3 ?k" by (rule calm_upd) simp
      ultimately show ?thesis by (blast intro: calm.same_trans)
    qed
    ultimately show ?thesis by (blast intro: calm.same_trans)
  qed
qed

lemma allocproc_embryo: "allocproc k = Ok (Some i) k' \<Longrightarrow> i < length (ptable k') \<and> p_state (ptable k' ! i) = EMBRYO"
proof -
  assume run: "allocproc k = Ok (Some i) k'"
  then have nl: "PtableLock \<notin> held k" by (auto simp: allocproc_def res_iff)
  with run have f: "find_index (\<lambda>p. p_state p = UNUSED) (ptable k) = Some i"
    by (auto simp: allocproc_def res_iff Let_def split: option.splits if_splits)
  then have i: "i < length (ptable k)" by (rule find_index_lessD)
  define k2 where "k2 = k\<lparr>ptable := (ptable k)[i := (ptable k ! i)\<lparr>p_state := EMBRYO, pid := nextpid k, killed := False\<rparr>],
    nextpid := nextpid k + 1\<rparr>"
  obtain s k3 where "kalloc k2 = Ok s k3"
      "k' = upd_proc i (\<lambda>p. p\<lparr>p_context := k_forkret (upd_proc i (\<lambda>p. p\<lparr>kstack := s\<rparr>) k3)\<rparr>) (upd_proc i (\<lambda>p. p\<lparr>kstack := s\<rparr>) k3)"
    using run nl f by (auto simp: allocproc_def upd_proc_def k2_def res_iff Let_def split: if_splits)
  with i show ?thesis using vm_sameD(1) [OF vm.keepsD [OF keeps_kalloc, of k2 s k3]] by (simp add: upd_proc_def k2_def)
qed

text \<open>Steps that leave the state of every process as it is.\<close>

definition quiet :: "kernel \<Rightarrow> kernel \<Rightarrow> bool" where
  "quiet k k' \<longleftrightarrow> map p_state (ptable k') = map p_state (ptable k) \<and> curproc k' = curproc k"

interpretation quiet: frame quiet
  by unfold_locales (simp_all add: quiet_def)

declare quiet.same_refl [simp, intro]

lemma quiet_state: "quiet k k' \<Longrightarrow> i < length (ptable k) \<Longrightarrow> p_state (ptable k' ! i) = p_state (ptable k ! i)"
  unfolding quiet_def by (metis length_map nth_map)

lemma quiet_length: "quiet k k' \<Longrightarrow> length (ptable k') = length (ptable k)"
  unfolding quiet_def by (metis length_map)

lemma quiet_calm: "quiet k k' \<Longrightarrow> calm k k'"
  using quiet_state [of k k'] quiet_length [of k k'] by (auto simp: calm_def running_def quiet_def)

lemma quiet_ptable: "ptable k' = ptable k \<Longrightarrow> curproc k' = curproc k \<Longrightarrow> quiet k k'"
  by (simp add: quiet_def)

named_theorems quiet_keeps

declare quiet.keeps_end [quiet_keeps] quiet.keeps_bnd [quiet_keeps] quiet.keeps_if [quiet_keeps] quiet.keeps_option [quiet_keeps]
  quiet.keeps_prod [quiet_keeps] quiet.keeps_prod2 [quiet_keeps]

lemma quiet_vm: "vm.keeps m \<Longrightarrow> quiet.keeps m"
  by (auto simp: vm.keeps_def quiet.keeps_def intro!: quiet_ptable dest: vm_sameD)

lemma quiet_locks [quiet_keeps]: "quiet.keeps (acquire l)" "quiet.keeps (release l)"
  by (auto simp: quiet.keeps_def res_iff quiet_ptable)

lemma quiet_upd:
  assumes "\<And>p. p_state (f p) = p_state p"
  shows "quiet k (upd_proc i f k)"
proof -
  have "map p_state ((ptable k)[i := f (ptable k ! i)]) = map p_state (ptable k)"
    by (cases "i < length (ptable k)") (simp_all add: map_update assms list_update_same_conv list_update_beyond)
  then show ?thesis by (simp add: quiet_def upd_proc_def)
qed

lemma quiet_myproc [quiet_keeps]: "quiet.keeps myproc"
  unfolding myproc_def by (intro quiet_keeps)

lemma quiet_vspaceinstall [quiet_keeps]: "quiet.keeps (vspaceinstall p)"
  by (auto simp: quiet.keeps_def vspaceinstall_def Let_def quiet_ptable split: option.splits if_splits)

lemma quiet_fork_files [quiet_keeps]: "quiet.keeps (fork_files is p c)"
proof (induction "is")
  case (Cons i "is")
  have "quiet k (case pftable (ptable k ! p) ! i of None \<Rightarrow> k
      | Some f \<Rightarrow> upd_proc c (\<lambda>q. q\<lparr>pftable := (pftable q)[i := Some f]\<rparr>)
          (k\<lparr>ftable := (ftable k)[f := (ftable k ! f)\<lparr>f_ref := f_ref (ftable k ! f) + 1\<rparr>]\<rparr>))" for k
    by (auto split: option.split intro: quiet.same_trans [OF quiet_ptable quiet_upd])
  then show ?case unfolding fork_files.simps [abs_def]
    by (intro quiet.keeps_bnd quiet_locks Cons quiet.keeps_pre [OF quiet_locks(2)])
qed (simp add: quiet.keeps_def)

text \<open>The part of \<open>fork\<close> between the allocation of the child \<open>c\<close> and its becoming runnable; the value is the parent.\<close>

definition fork_body :: "nat \<Rightarrow> kernel \<Rightarrow> (kernel, nat) res" where
  "fork_body c k =
     bnd (vspaceinit (vspace_of c k) k) (\<lambda>(r, vs) k.
     if r \<noteq> 0 then Panic ''error initializing process's virtual address descriptor''
     else
       bnd (myproc k) (\<lambda>p k.
       bnd (vspacecopy vs (vspace_of p k) k) (\<lambda>(_, dst, src) k.
       bnd (fork_files [0 ..< NOFILE] p c (upd_proc c (\<lambda>q. q\<lparr>p_tf := p_tf (ptable (set_vspace c dst (set_vspace p src k)) ! p)\<rparr>)
              (set_vspace c dst (set_vspace p src k)))) (\<lambda>_ k.
       bnd (acquire PtableLock k) (\<lambda>_ k. Ok p k)))))"

lemma quiet_fork_body: "quiet.keeps (fork_body c)"
proof -
  have vsp: "quiet k (set_vspace i vs k)" for i vs k unfolding set_vspace_def by (rule quiet_upd) simp
  have "quiet k (upd_proc c (\<lambda>q. q\<lparr>p_tf := p_tf (ptable (set_vspace c dst (set_vspace p src k)) ! p)\<rparr>)
            (set_vspace c dst (set_vspace p src k)))" for k p dst src
    by (rule quiet.same_trans [OF quiet.same_trans [OF vsp vsp] quiet_upd]) simp
  then have ff: "quiet.keeps (\<lambda>k. fork_files is p c (upd_proc c (\<lambda>q. q\<lparr>p_tf := p_tf (ptable (set_vspace c dst (set_vspace p src k)) ! p)\<rparr>)
            (set_vspace c dst (set_vspace p src k))))" for "is" p dst src
    by (rule quiet.keeps_pre [OF quiet_fork_files])
  have vi: "quiet.keeps (\<lambda>k. vspaceinit (vspace_of c k) k)"
    by (rule quiet.keeps_pre2 [OF quiet_vm [OF keeps_vspaceinit]]) simp
  have vc: "quiet.keeps (\<lambda>k. vspacecopy vs (vspace_of p k) k)" for vs p
    by (rule quiet.keeps_pre2 [OF quiet_vm [OF keeps_vspacecopy]]) simp
  show ?thesis unfolding fork_body_def by (intro vi vc ff quiet_keeps)
qed

lemma fork_split:
  assumes "fork k = Ok r k'" "allocproc k = Ok (Some c) k1"
  obtains p k2 where "fork_body c k1 = Ok p k2"
    "bnd (release PtableLock (upd_proc c (\<lambda>q. q\<lparr>p_state := RUNNABLE, p_tf := (p_tf q)\<lparr>rax := 0\<rparr>, parent := Some p\<rparr>) k2))
         (\<lambda>_ k. bnd (vspaceinstall (Some p) k) (\<lambda>_ k. Ok (pid (ptable k ! c)) k)) = Ok r k'"
  using assms by (auto simp: fork_def fork_body_def res_iff Let_def split: prod.splits if_splits)

lemma calm_fork: "calm.keeps fork"
proof (rule calm.keepsI)
  fix k r k' assume run: "fork k = Ok r k'"
  then obtain r0 k1 where al: "allocproc k = Ok r0 k1" by (auto simp: fork_def res_iff)
  then have c1: "calm k k1" by (rule calm.keepsD [OF calm_allocproc])
  show "calm k k'"
  proof (cases r0)
    case None
    with run al have "k' = k1" by (simp add: fork_def)
    with c1 show ?thesis by simp
  next
    case (Some c)
    note em = allocproc_embryo [OF al [unfolded Some]]
    from fork_split [OF run al [unfolded Some]] obtain p k2 where k2: "fork_body c k1 = Ok p k2"
      "bnd (release PtableLock (upd_proc c (\<lambda>q. q\<lparr>p_state := RUNNABLE, p_tf := (p_tf q)\<lparr>rax := 0\<rparr>, parent := Some p\<rparr>) k2))
         (\<lambda>_ k. bnd (vspaceinstall (Some p) k) (\<lambda>_ k. Ok (pid (ptable k ! c)) k)) = Ok r k'" .
    have q: "quiet k1 k2" by (rule quiet.keepsD [OF quiet_fork_body k2(1)])
    let ?k3 = "upd_proc c (\<lambda>q. q\<lparr>p_state := RUNNABLE, p_tf := (p_tf q)\<lparr>rax := 0\<rparr>, parent := Some p\<rparr>) k2"
    have "calm k2 ?k3" using em quiet_state [OF q] by (intro calm_upd) simp
    moreover have "quiet.keeps (\<lambda>k. bnd (release PtableLock k) (\<lambda>_ k. bnd (vspaceinstall (Some p) k) (\<lambda>_ k. Ok (pid (ptable k ! c)) k)))"
      by (intro quiet_keeps)
    from quiet.keepsD [OF this k2(2)] have "quiet ?k3 k'" .
    ultimately show ?thesis using c1 q quiet_calm by (blast intro: calm.same_trans)
  qed
qed

lemma calm_wakeup: "calm.keeps (wakeup ch)"
  unfolding wakeup_def by (intro calm.keeps_bnd calm_locks calm.keeps_pre [OF calm_locks(2) calm_wakeup1])

lemma calm_kill: "calm.keeps (kill n)"
proof -
  have "calm k (upd_proc i (\<lambda>p. let p = p\<lparr>killed := True\<rparr> in if p_state p = SLEEPING then p\<lparr>p_state := RUNNABLE\<rparr> else p) k)" for i k
    by (rule calm_upd) (simp add: Let_def)
  then show ?thesis unfolding kill_def
    by (intro calm.keeps_bnd calm.keeps_option calm_locks calm.keeps_end calm.keeps_pre [OF calm_locks(2)])
qed

section \<open>Giving up the processor\<close>

text \<open>What the scheduler relies on: a process that was switched to as the only running one comes back as the
  current process, not running, with the process table locked and nothing else.\<close>

locale process =
  fixes body :: "nat \<Rightarrow> kernel \<Rightarrow> kernel \<Rightarrow> bool"
  assumes gives_up: "body i k k' \<Longrightarrow> curproc k = Some i \<Longrightarrow> running k = {i} \<Longrightarrow>
    curproc k' = Some i \<and> running k' = {} \<and> held k' = {PtableLock} \<and> length (ptable k') = length (ptable k)"
begin

primrec sched_ok :: "sched_at \<Rightarrow> bool" where
  "sched_ok (Scan i k) \<longleftrightarrow> length (ptable k) = NPROC \<and> held k = {PtableLock} \<and> curproc k = None \<and> running k = {}"
| "sched_ok (Run i k) \<longleftrightarrow> length (ptable k) = NPROC \<and> i < NPROC \<and> curproc k = Some i \<and> running k = {i}"

lemma sched_step_ok: "sched_step body s s' \<Longrightarrow> sched_ok s \<Longrightarrow> sched_ok s'"
proof (induction rule: sched_step.induct)
  case (pick i k k')
  then have st: "p_state (ptable k ! i) = RUNNABLE" "length (ptable k) = 64" "running k = {}" by auto
  from pick(3) have k': "ptable k' = (ptable k)[i := (ptable k ! i)\<lparr>p_state := RUNNING\<rparr>]" "curproc k' = Some i"
    by (auto simp: sched_enter_def vspaceinstall_def res_iff Let_def upd_proc_def split: if_splits)
  have no: "p_state (ptable k ! x) \<noteq> RUNNING" if "x < 64" for x using st(2,3) that by (auto simp: running_def)
  have "x \<in> running k' \<longleftrightarrow> x = i" for x
    using no [of x] pick(1) st(2) by (cases "x = i") (simp_all add: running_def k'(1))
  then have "running k' = {i}" by blast
  with st(2) pick(1) k' show ?case by simp
next
  case (leave i k k')
  have g: "running k' = {}" "held k' = {PtableLock}" "length (ptable k') = NPROC" using gives_up [OF leave(1)] leave(2) by simp_all
  have "ptable (sched_leave k') = ptable k'" "held (sched_leave k') = held k'" "curproc (sched_leave k') = None"
    by (simp_all add: sched_leave_def vspaceinstallkern_def)
  with g show ?case by (simp add: running_def)
next
  case (again k k1 k2)
  then have "ptable k2 = ptable k" "curproc k2 = curproc k" "held k2 = held k" by (auto simp: res_iff)
  with again(3) show ?case by (simp add: running_def)
qed simp

lemma sched_reaches_ok: "(sched_step body)\<^sup>*\<^sup>* s s' \<Longrightarrow> sched_ok s \<Longrightarrow> sched_ok s'"
  by (induction rule: rtranclp_induct) (auto intro: sched_step_ok)

end

section \<open>What a process does between two switches\<close>

lemma bnd_Sleeps_iff: "bnd m f = Sleeps s \<longleftrightarrow> m = Sleeps s \<or> (\<exists>a k. m = Ok a k \<and> f a k = Sleeps s)"
  by (cases m) auto

lemma sched_SleepsD: "sched k = Sleeps k' \<Longrightarrow> k' = k \<and> held k = {PtableLock}"
  by (auto simp: sched_def holding_def myproc_def card_1_singleton_iff split: if_splits option.splits)

lemma sched_not_Ok [simp]: "sched k \<noteq> Ok r k'"
  by (auto simp: sched_def myproc_def split: if_splits option.splits)

lemma sleep_not_Ok [simp]: "sleep ch lk k \<noteq> Ok r k'"
  by (auto simp: sleep_def bnd_Ok_iff split: option.splits)

lemma locks_not_Sleeps [simp]: "acquire l k \<noteq> Sleeps k'" "release l k \<noteq> Sleeps k'" "myproc k \<noteq> Sleeps k'"
  by (auto simp: acquire_def release_def myproc_def split: option.splits)

lemma calm_wait_loop: "calm.keeps (wait_loop p)"
proof (rule calm.keepsI)
  fix k r k' assume run: "wait_loop p k = Ok r k'"
  then obtain i where i: "find_index (\<lambda>q. parent q = Some p \<and> p_state q = ZOMBIE) (ptable k) = Some i" "reap i k = Ok r k'"
    by (auto simp: wait_loop_def bnd_Ok_iff split: option.splits)
  let ?k1 = "upd_proc i (\<lambda>q. q\<lparr>p_state := UNUSED\<rparr>) k"
  have "p_state (ptable k ! i) = ZOMBIE" using find_index_holdsD [OF i(1)] by simp
  then have "calm k ?k1" by (intro calm_upd) simp
  moreover have "quiet.keeps (\<lambda>k. bnd (vspacefree (vspace_of i k) k) (\<lambda>vs k.
      bnd (kfree (kstack (ptable (set_vspace i vs k) ! i)) (set_vspace i vs k)) (\<lambda>_ k.
      bnd (release PtableLock (upd_proc i (\<lambda>q. q\<lparr>kstack := 0, parent := None, pid := 0, killed := False\<rparr>) k)) (\<lambda>_ k.
      Ok (pid (ptable k0 ! i)) k))))" for k0
  proof -
    have 1: "quiet.keeps (\<lambda>k. vspacefree (vspace_of i k) k)" by (rule quiet.keeps_pre2 [OF quiet_vm [OF keeps_vspacefree]]) simp
    have 2: "quiet.keeps (\<lambda>k. kfree (kstack (ptable (set_vspace i vs k) ! i)) (set_vspace i vs k))" for vs
      by (rule quiet.keeps_pre2 [OF quiet_vm [OF keeps_kfree]]) (simp add: set_vspace_def quiet_upd)
    have 3: "quiet.keeps (\<lambda>k. release PtableLock (upd_proc i (\<lambda>q. q\<lparr>kstack := 0, parent := None, pid := 0, killed := False\<rparr>) k))"
      by (rule quiet.keeps_pre [OF quiet_locks(2)]) (simp add: quiet_upd)
    show ?thesis by (intro 1 2 3 quiet_keeps)
  qed
  from quiet.keepsD [OF this [of k], of ?k1 r k'] i(2) have "quiet ?k1 k'" by (simp add: reap_def Let_def)
  ultimately show "calm k k'" using quiet_calm by (blast intro: calm.same_trans)
qed

lemma calm_myproc: "calm.keeps myproc"
  by (rule calm.keepsI) (auto intro: quiet_calm quiet.keepsD [OF quiet_myproc])

lemma calm_wait: "calm.keeps wait" "calm.keeps wait_wake"
proof -
  have "calm.keeps (wait_scan is p b)" for "is" p b
  proof (rule calm.keepsI)
    fix k r k' assume "wait_scan is p b k = Ok r k'"
    then have "ptable k' = ptable k \<and> curproc k' = curproc k"
      by (induction "is" arbitrary: b k) (fastforce simp: res_iff Let_def)+
    then show "calm k k'" by (simp add: calm_ptable)
  qed
  then show "calm.keeps wait"
    unfolding wait_def by (intro calm.keeps_bnd calm_locks calm_myproc calm_wait_loop calm.keeps_if calm.keeps_end)
  have "calm.keeps (sleep_wake PtableLock)"
    by (rule calm.keepsI) (auto simp: sleep_wake_def res_iff myproc_def split: option.splits intro!: quiet_calm [OF quiet_upd])
  then show "calm.keeps wait_wake"
    unfolding wait_wake_def by (intro calm.keeps_bnd calm_myproc calm_wait_loop)
qed

lemma quiet_fileclose: "quiet.keeps (fileclose fd)"
proof -
  have f: "quiet k (upd_file i g k)" for i g k by (simp add: quiet_ptable upd_file_def)
  have n: "quiet k (upd_inode ip g k)" for ip g k by (cases ip) (simp_all add: quiet_ptable)
  have ir: "quiet.keeps (\<lambda>k. irelease (ip k) k)" for ip
    by (rule quiet.keepsI)
      (auto simp: irelease_def res_iff Let_def quiet_ptable split: if_splits intro!: n)
  have d: "quiet.keeps (\<lambda>k. Ok (0::int) (set_fd p j None k))" for p j
    by (auto simp: quiet.keeps_def set_fd_def quiet_upd)
  have g: "quiet.keeps (get_fd p fd)" for p unfolding get_fd_def by (intro quiet_keeps)
  have o: "quiet.keeps (\<lambda>k. Ok () (upd_file i h k))" for i h by (auto simp: quiet.keeps_def f)
  show ?thesis unfolding fileclose_def by (intro quiet_keeps ir d g o)
qed

lemma fileclose_not_Sleeps: "fileclose fd k \<noteq> Sleeps k'"
  by (auto simp: fileclose_def irelease_def get_fd_def bnd_Sleeps_iff Let_def split: option.splits if_splits)

lemma exit_files_Sleeps: "exit_files is p k \<noteq> Sleeps k'"
  by (induction "is" arbitrary: k) (auto simp: bnd_Sleeps_iff fileclose_not_Sleeps split: option.splits)

lemma calm_exit_files: "exit_files is p k = Ok r k' \<Longrightarrow> calm k k'"
proof (induction "is" arbitrary: k)
  case (Cons i "is")
  then obtain k1 where "exit_files is p k1 = Ok r k'" "k1 = k \<or> (\<exists>a. fileclose (int i) k = Ok a k1)"
    by (auto simp: bnd_Ok_iff split: option.splits)
  then show ?case using Cons.IH [of k1] quiet_calm [OF quiet.keepsD [OF quiet_fileclose]] calm.same_trans by metis
qed simp

lemma exit_children_Ok: "exit_children is nl me k \<noteq> Sleeps k'"
  "exit_children is nl me k = Ok r k'' \<Longrightarrow> calm k k'' \<and> held k'' = held k"
proof -
  show "exit_children is nl me k \<noteq> Sleeps k'"
    by (induction "is" arbitrary: k) (auto simp: Let_def split: option.splits)
  show "exit_children is nl me k = Ok r k'' \<Longrightarrow> calm k k'' \<and> held k'' = held k"
  proof (induction "is" arbitrary: k)
    case (Cons i "is")
    define k1 where "k1 = upd_proc i (\<lambda>q. q\<lparr>parent := initproc k\<rparr>) k"
    have 1: "calm k k1" "held k1 = held k" unfolding k1_def by (intro quiet_calm quiet_upd) (simp_all add: upd_proc_def)
    have 2: "calm k (wakeup1 c k1)" "held (wakeup1 c k1) = held k" for c
      using 1 calm.same_trans [OF 1(1) calm_wakeup1] by (simp_all add: wakeup1_def)
    from Cons.prems obtain k2 where "exit_children is nl me k2 = Ok r k''" "k2 \<in> {k, k1} \<or> (\<exists>c. k2 = wakeup1 c k1)"
      by (auto simp: Let_def k1_def split: if_splits option.splits)
    with 1 2 Cons.IH [of k2] show ?case using calm.same_trans [of k k2 k''] by auto
  qed simp
qed

text \<open>Everything a process does that leaves it running: what the frame \<open>quiet\<close> covers (user code, locks, memory, files) and
  the calls that change the state of another process.\<close>

inductive work :: "kernel \<Rightarrow> kernel \<Rightarrow> bool" where
  quiet_work: "quiet k k' \<Longrightarrow> work k k'"
| fork_work: "fork k = Ok r k' \<Longrightarrow> work k k'"
| kill_work: "kill n k = Ok r k' \<Longrightarrow> work k k'"
| wakeup_work: "wakeup ch k = Ok u k' \<Longrightarrow> work k k'"
| wait_work: "wait k = Ok r k' \<Longrightarrow> work k k'"
| wait_wake_work: "wait_wake k = Ok r k' \<Longrightarrow> work k k'"

lemma work_calm: "work\<^sup>*\<^sup>* k k' \<Longrightarrow> calm k k'"
proof (induction rule: rtranclp_induct)
  case (step y z)
  from step(2) have "calm y z"
    by cases (auto intro: quiet_calm calm.keepsD [OF calm_fork] calm.keepsD [OF calm_kill] calm.keepsD [OF calm_wakeup]
        calm.keepsD [OF calm_wait(1)] calm.keepsD [OF calm_wait(2)])
  with step(3) show ?case by (rule calm.same_trans)
qed simp

text \<open>A process runs until it yields, sleeps or exits; each ends in \<open>sched\<close>.\<close>

definition proc_run :: "nat \<Rightarrow> kernel \<Rightarrow> kernel \<Rightarrow> bool" where
  "proc_run i k k' \<longleftrightarrow> (\<exists>k1. work\<^sup>*\<^sup>* k k1 \<and>
     (yield k1 = Sleeps k' \<or> (\<exists>ch lk. sleep ch lk k1 = Sleeps k') \<or> (\<exists>nl. proc_exit nl k1 = Sleeps k')))"

lemma switch_off:
  assumes c: "calm k k1" and i: "curproc k = Some i" "running k = {i}"
    and f: "p_state (f (ptable k1 ! i)) \<noteq> RUNNING" and s: "sched (upd_proc i f k1) = Sleeps k'"
  shows "curproc k' = Some i \<and> running k' = {} \<and> held k' = {PtableLock} \<and> length (ptable k') = length (ptable k)"
proof -
  from sched_SleepsD [OF s] have k': "k' = upd_proc i f k1" "held k' = {PtableLock}" by auto
  have r: "running k1 = {i}" "length (ptable k1) = length (ptable k)" "curproc k1 = Some i" using c i by (simp_all add: calm_def)
  then have "j \<notin> running k'" for j
    using f by (cases "j = i") (auto simp: k'(1) running_def upd_proc_def nth_list_update)
  with r k' show ?thesis by (auto simp: upd_proc_def)
qed

lemma proc_run_gives_up:
  assumes run: "proc_run i k k'" and i: "curproc k = Some i" "running k = {i}"
  shows "curproc k' = Some i \<and> running k' = {} \<and> held k' = {PtableLock} \<and> length (ptable k') = length (ptable k)"
proof -
  from run obtain k1 where w: "calm k k1" and
    e: "yield k1 = Sleeps k' \<or> (\<exists>ch lk. sleep ch lk k1 = Sleeps k') \<or> (\<exists>nl. proc_exit nl k1 = Sleeps k')"
    unfolding proc_run_def using work_calm by blast
  have cp: "curproc k1 = Some i" using w i by (simp add: calm_def)
  have h: "calm k k2 \<Longrightarrow> calm k (k2\<lparr>held := H\<rparr>)" for k2 H by (erule calm.same_trans) (simp add: calm_ptable)
  from e consider (yield) "yield k1 = Sleeps k'" | (sleep) ch lk where "sleep ch lk k1 = Sleeps k'"
    | (exit) nl where "proc_exit nl k1 = Sleeps k'" by blast
  then show ?thesis
  proof cases
    case yield
    then have "sched (upd_proc i (\<lambda>q. q\<lparr>p_state := RUNNABLE\<rparr>) (k1\<lparr>held := insert PtableLock (held k1)\<rparr>)) = Sleeps k'"
      using cp by (auto simp: yield_def bnd_Sleeps_iff acquire_Ok_iff myproc_def)
    from switch_off [OF h [OF w] i _ this] show ?thesis by simp
  next
    case sleep
    then obtain H where "sched (upd_proc i (\<lambda>q. q\<lparr>p_chan := ch, p_state := SLEEPING\<rparr>) (k1\<lparr>held := H\<rparr>)) = Sleeps k'"
      using cp by (cases "lk = PtableLock")
        (auto simp: sleep_def bnd_Sleeps_iff bnd_Ok_iff acquire_Ok_iff release_Ok_iff dest: meta_spec [of _ "held k1"])
    from switch_off [OF h [OF w] i _ this] show ?thesis by simp
  next
    case exit
    then obtain u k2 v k3 where k2: "exit_files [0 ..< NOFILE] i k1 = Ok u k2"
      and k3: "exit_children [0 ..< NPROC] nl (pid (ptable k2 ! i)) (k2\<lparr>held := insert PtableLock (held k2)\<rparr>) = Ok v k3"
      and s: "sched (upd_proc i (\<lambda>q. q\<lparr>p_state := ZOMBIE\<rparr>) (wakeup1 (proc_chan (parent (ptable k3 ! i))) k3)) = Sleeps k'"
      using cp by (auto simp: proc_exit_def bnd_Sleeps_iff acquire_Ok_iff myproc_def exit_files_Sleeps exit_children_Ok(1) Let_def)
    have "calm k (k2\<lparr>held := insert PtableLock (held k2)\<rparr>)" using calm.same_trans [OF w calm_exit_files [OF k2]] by (rule h)
    moreover have "calm (k2\<lparr>held := insert PtableLock (held k2)\<rparr>) k3" using exit_children_Ok(2) [OF k3] by simp
    ultimately have "calm k (wakeup1 (proc_chan (parent (ptable k3 ! i))) k3)" by (blast intro: calm.same_trans calm_wakeup1)
    from switch_off [OF this i _ s] show ?thesis by simp
  qed
qed

interpretation cpu: process proc_run
  by unfold_locales (rule proc_run_gives_up)

section \<open>exit and wait\<close>

text \<open>What closing files leaves of the process table.\<close>

definition kin :: "kernel \<Rightarrow> kernel \<Rightarrow> bool" where
  "kin k k' \<longleftrightarrow> map (\<lambda>q. (p_state q, parent q, pid q, p_chan q)) (ptable k') = map (\<lambda>q. (p_state q, parent q, pid q, p_chan q)) (ptable k) \<and>
     curproc k' = curproc k \<and> initproc k' = initproc k \<and> held k' = held k"

interpretation kin: frame kin
  by unfold_locales (simp_all add: kin_def)

declare kin.same_refl [simp, intro]

lemma kinD:
  assumes "kin k k'" and "x < length (ptable k)"
  shows "p_state (ptable k' ! x) = p_state (ptable k ! x)" "parent (ptable k' ! x) = parent (ptable k ! x)"
    "pid (ptable k' ! x) = pid (ptable k ! x)" "p_chan (ptable k' ! x) = p_chan (ptable k ! x)"
proof -
  from assms(1) have m: "map (\<lambda>q. (p_state q, parent q, pid q, p_chan q)) (ptable k') = map (\<lambda>q. (p_state q, parent q, pid q, p_chan q)) (ptable k)"
    by (simp add: kin_def)
  from arg_cong [OF m, of length] have l: "length (ptable k') = length (ptable k)" by simp
  from arg_cong [OF m, of "\<lambda>xs. xs ! x"] assms(2) l
  show "p_state (ptable k' ! x) = p_state (ptable k ! x)" "parent (ptable k' ! x) = parent (ptable k ! x)"
    "pid (ptable k' ! x) = pid (ptable k ! x)" "p_chan (ptable k' ! x) = p_chan (ptable k ! x)" by simp_all
qed

lemma kin_length: "kin k k' \<Longrightarrow> length (ptable k') = length (ptable k)"
  unfolding kin_def by (drule conjunct1, drule arg_cong [of _ _ length]) simp

lemma fileclose_free:
  assumes k: "held k = {}" "curproc k = Some p" and fd: "fd < NOFILE"
  shows "\<exists>r k'. fileclose (int fd) k = Ok r k' \<and> kin k k'"
proof (cases "\<exists>i. pftable (ptable k ! p) ! fd = Some i \<and> (isPipe (ftable k ! i) \<or> f_iptr (ftable k ! i) \<noteq> None)")
  case True
  then obtain i where i: "pftable (ptable k ! p) ! fd = Some i" "isPipe (ftable k ! i) \<or> f_iptr (ftable k ! i) \<noteq> None" by blast
  have sf: "kin k1 (set_fd p fd None k1)" for k1
    by (cases "p < length (ptable k1)") (simp_all add: kin_def set_fd_def upd_proc_def map_update list_update_same_conv list_update_beyond)
  from fileclose_closes [OF k fd i] obtain k1 where "fileclose (int fd) k = Ok 0 (set_fd p fd None k1)" "kin k k1"
    using k by (auto simp: kin_def)
  with kin.same_trans [OF _ sf] show ?thesis by blast
next
  case False
  then have "fileclose (int fd) k = Ok (-1) k"
    using k fd by (cases "pftable (ptable k ! p) ! fd") (simp_all add: fileclose_def myproc_def get_fd_def)
  then show ?thesis by simp
qed

lemma exit_files_free: "held k = {} \<Longrightarrow> curproc k = Some p \<Longrightarrow> set is \<subseteq> {..<NOFILE} \<Longrightarrow> \<exists>k'. exit_files is p k = Ok () k' \<and> kin k k'"
proof (induction "is" arbitrary: k)
  case (Cons i "is")
  obtain k1 where k1: "(case pftable (ptable k ! p) ! i of None \<Rightarrow> Ok () k | Some _ \<Rightarrow> bnd (fileclose (int i) k) (\<lambda>_ k. Ok () k)) = Ok () k1" "kin k k1"
  proof (cases "pftable (ptable k ! p) ! i")
    case (Some f)
    then show ?thesis using that fileclose_free [OF Cons.prems(1,2), of i] Cons.prems(3) by auto
  qed (simp add: that)
  then have "held k1 = {}" "curproc k1 = Some p" using Cons.prems by (simp_all add: kin_def)
  from Cons.IH [OF this] Cons.prems(3) obtain k' where "exit_files is p k1 = Ok () k'" "kin k1 k'" by auto
  with k1 show ?case by (auto intro: kin.same_trans)
qed simp

text \<open>The effect of the loop over the children in \<open>exit\<close>, for the slots in \<open>S\<close>: the children (the processes whose parent has
  the identifier \<open>me\<close>) get the parent \<open>r\<close>; the only change of a state is a wake-up.\<close>

definition ppid :: "int \<Rightarrow> kernel \<Rightarrow> nat \<Rightarrow> int" where
  "ppid nl k x = (case parent (ptable k ! x) of None \<Rightarrow> nl | Some q \<Rightarrow> pid (ptable k ! q))"

definition adopted :: "int \<Rightarrow> int \<Rightarrow> nat \<Rightarrow> nat set \<Rightarrow> kernel \<Rightarrow> kernel \<Rightarrow> bool" where
  "adopted nl me r S k k' \<longleftrightarrow> curproc k' = curproc k \<and> initproc k' = initproc k \<and> held k' = held k \<and> length (ptable k') = length (ptable k) \<and>
     (\<forall>x < length (ptable k). pid (ptable k' ! x) = pid (ptable k ! x) \<and> p_chan (ptable k' ! x) = p_chan (ptable k ! x) \<and>
        parent (ptable k' ! x) = (if x \<in> S \<and> ppid nl k x = me then Some r else parent (ptable k ! x)) \<and>
        (p_state (ptable k' ! x) = p_state (ptable k ! x) \<or> p_state (ptable k ! x) = SLEEPING \<and> p_state (ptable k' ! x) = RUNNABLE))"

definition adopt :: "int \<Rightarrow> int \<Rightarrow> nat \<Rightarrow> nat \<Rightarrow> kernel \<Rightarrow> kernel" where
  "adopt nl me r i k =
     (if ppid nl k i = me
      then let k = upd_proc i (\<lambda>q. q\<lparr>parent := Some r\<rparr>) k
           in if p_state (ptable k ! r) = SLEEPING then wakeup1 (ChProc r) k else k
      else k)"

lemma exit_children_adopt:
  "initproc k = Some r \<Longrightarrow> exit_children (i # is) nl me k = exit_children is nl me (adopt nl me r i k)"
  by (simp add: adopt_def ppid_def Let_def upd_proc_def)

lemma adopted_adopt: "initproc k = Some r \<Longrightarrow> adopted nl me r {i} k (adopt nl me r i k)"
  by (auto simp: adopted_def adopt_def Let_def wakeup1_def upd_proc_def nth_list_update)

lemma ppid_adopted:
  assumes "adopted nl me r S k k'" "x < length (ptable k)" "\<forall>q. parent (ptable k ! x) = Some q \<longrightarrow> q < length (ptable k)"
    "x \<notin> S \<or> ppid nl k x \<noteq> me"
  shows "ppid nl k' x = ppid nl k x"
  using assms by (auto simp: adopted_def ppid_def split: option.splits)

lemma adopted_trans:
  assumes 1: "adopted nl me r {i} k k1" and 2: "adopted nl me r S k1 k2"
    and par: "\<forall>x < length (ptable k). \<forall>q. parent (ptable k ! x) = Some q \<longrightarrow> q < length (ptable k)"
  shows "adopted nl me r (insert i S) k k2"
proof -
  have "parent (ptable k2 ! x) = (if x \<in> insert i S \<and> ppid nl k x = me then Some r else parent (ptable k ! x))"
    if x: "x < length (ptable k)" for x
  proof (cases "x = i \<and> ppid nl k x = me")
    case True
    with 1 2 x show ?thesis by (auto simp: adopted_def)
  next
    case False
    have "ppid nl k1 x = ppid nl k x" using ppid_adopted [OF 1 x] par x False by auto
    with 1 2 x False show ?thesis by (auto simp: adopted_def)
  qed
  moreover have "p_state (ptable k2 ! x) = p_state (ptable k ! x) \<or> p_state (ptable k ! x) = SLEEPING \<and> p_state (ptable k2 ! x) = RUNNABLE"
    if x: "x < length (ptable k)" for x
    using 1 2 x unfolding adopted_def by (metis procstate.distinct)
  ultimately show ?thesis using 1 2 by (simp add: adopted_def)
qed

lemma exit_children_free:
  "initproc k = Some r \<Longrightarrow> r < length (ptable k) \<Longrightarrow>
   \<forall>x < length (ptable k). \<forall>q. parent (ptable k ! x) = Some q \<longrightarrow> q < length (ptable k) \<Longrightarrow>
   \<exists>k'. exit_children is nl me k = Ok () k' \<and> adopted nl me r (set is) k k'"
proof (induction "is" arbitrary: k)
  case Nil
  then show ?case by (simp add: adopted_def)
next
  case (Cons i "is")
  define k1 where "k1 = adopt nl me r i k"
  have a: "adopted nl me r {i} k k1" unfolding k1_def by (rule adopted_adopt [OF Cons.prems(1)])
  then have "initproc k1 = Some r" "r < length (ptable k1)"
    "\<forall>x < length (ptable k1). \<forall>q. parent (ptable k1 ! x) = Some q \<longrightarrow> q < length (ptable k1)"
    using Cons.prems by (auto simp: adopted_def split: if_splits)
  from Cons.IH [OF this] obtain k' where "exit_children is nl me k1 = Ok () k'" "adopted nl me r (set is) k1 k'" by blast
  with adopted_trans [OF a _ Cons.prems(3)] show ?case
    using exit_children_adopt [OF Cons.prems(1), of i "is" nl me] by (auto simp: k1_def simp del: exit_children.simps)
qed

section \<open>Properties\<close>

text \<open>C4: At most one process runs, and it is the current one. Started with no process running, the scheduler reaches only
  states in which: while it scans the table no process is RUNNING, no process is current and \<open>ptable.lock\<close> is the
  only lock held; while a process runs, it is the current process and the only one RUNNING. Whatever a process
  does until it yields, sleeps or exits is covered, \<open>fork\<close>, \<open>kill\<close>, \<open>wakeup\<close> and \<open>wait\<close> included.\<close>

theorem one_running:
  assumes "length (ptable k) = NPROC" "held k = {PtableLock}" "curproc k = None" "\<forall>i < NPROC. p_state (ptable k ! i) \<noteq> RUNNING"
    and "(sched_step proc_run)\<^sup>*\<^sup>* (Scan 0 k) s"
  shows "(case s of
      Scan i k' \<Rightarrow> curproc k' = None \<and> held k' = {PtableLock} \<and> (\<forall>j < NPROC. p_state (ptable k' ! j) \<noteq> RUNNING)
    | Run i k' \<Rightarrow> curproc k' = Some i \<and> (\<forall>j < NPROC. p_state (ptable k' ! j) = RUNNING \<longleftrightarrow> j = i))"
proof -
  have mem: "p_state (ptable k' ! j) = RUNNING \<longleftrightarrow> j \<in> running k'" if "length (ptable k') = NPROC" "j < NPROC" for j k'
    using that by (simp add: running_def)
  have "running k = {}" using assms(1,4) by (auto simp: running_def)
  with assms(1-3) cpu.sched_reaches_ok [OF assms(5)] have "cpu.sched_ok s" by simp
  then show ?thesis by (cases s) (simp_all add: mem)
qed

definition k0_sched :: kernel where
  "k0_sched = k0\<lparr>ptable := (proc0\<lparr>p_state := RUNNABLE, pid := 1, kstack := 4096, p_vspace := \<lparr>regions = replicate 3 region0, pgtbl = KERNBASE\<rparr>\<rparr>) #
       replicate 63 proc0, curproc := None, held := {PtableLock}\<rparr>"

lemma k0_sched_ok: "length (ptable k0_sched) = NPROC" "held k0_sched = {PtableLock}" "curproc k0_sched = None"
  "\<forall>i < NPROC. p_state (ptable k0_sched ! i) \<noteq> RUNNING"
  by (auto simp: k0_sched_def proc0_def nth_Cons split: nat.splits)

lemma k0_sched_runs: "\<exists>k. sched_enter 0 k0_sched = Ok () k"
  by (simp add: sched_enter_def vspaceinstall_def k0_sched_def Let_def)

theorem one_running_witness: "\<exists>k. (sched_step proc_run)\<^sup>*\<^sup>* (Scan 0 k0_sched) (Run 0 k) \<and> curproc k = Some 0 \<and> p_state (ptable k ! 5) \<noteq> RUNNING"
proof -
  obtain k where k: "sched_enter 0 k0_sched = Ok () k" using k0_sched_runs by blast
  have "p_state (ptable k0_sched ! 0) = RUNNABLE" by (simp add: k0_sched_def)
  with k have "(sched_step proc_run)\<^sup>*\<^sup>* (Scan 0 k0_sched) (Run 0 k)" by (intro r_into_rtranclp sched_step.pick) simp_all
  with one_running [OF k0_sched_ok this] show ?thesis by (intro exI [of _ k]) simp
qed

text \<open>C5: No exit is lost. A process that exits while its parent sleeps in \<open>wait\<close> becomes a ZOMBIE that keeps its parent, the
  parent becomes RUNNABLE, the children of the process get \<open>initproc\<close> as their parent, and the parent's next pass over the table
  finds a ZOMBIE child to reap instead of sleeping again.\<close>

theorem exit_wakes_parent:
  assumes k: "held k = {}" "length (ptable k) = NPROC" "initproc k = Some r" "r < NPROC"
    and par: "\<forall>x < NPROC. \<forall>q. parent (ptable k ! x) = Some q \<longrightarrow> q < NPROC"
    and i: "curproc k = Some i" "i < NPROC" "p_state (ptable k ! i) = RUNNING" "parent (ptable k ! i) = Some j"
    and j: "j \<noteq> i" "pid (ptable k ! j) \<noteq> pid (ptable k ! i)" "p_state (ptable k ! j) = SLEEPING" "p_chan (ptable k ! j) = ChProc j"
  shows "\<exists>k'. proc_exit nl k = Sleeps k' \<and> held k' = {PtableLock} \<and>
    p_state (ptable k' ! i) = ZOMBIE \<and> parent (ptable k' ! i) = Some j \<and> p_state (ptable k' ! j) = RUNNABLE \<and>
    (\<forall>c < NPROC. parent (ptable k ! c) = Some i \<longrightarrow> parent (ptable k' ! c) = Some r) \<and>
    (\<exists>z < NPROC. parent (ptable k' ! z) = Some j \<and> p_state (ptable k' ! z) = ZOMBIE \<and> wait_loop j k' = reap z k')"
proof -
  have jl: "j < NPROC" using par i by simp
  have "set [0 ..< NOFILE] \<subseteq> {..<NOFILE}" by auto
  from exit_files_free [OF k(1) i(1) this] obtain k1 where k1: "exit_files [0 ..< NOFILE] i k = Ok () k1" "kin k k1" by blast
  have s1: "curproc k1 = Some i" "initproc k1 = Some r" "held k1 = {}" "length (ptable k1) = NPROC"
    using k1(2) k i kin_length [OF k1(2)] by (simp_all add: kin_def)
  note s1' = kinD [OF k1(2), unfolded k(2)]
  let ?k = "k1\<lparr>held := {PtableLock}\<rparr>"
  have "\<forall>x < length (ptable ?k). \<forall>q. parent (ptable ?k ! x) = Some q \<longrightarrow> q < length (ptable ?k)" using par s1 s1'(2) by simp
  from exit_children_free [OF _ _ this, of r "[0 ..< NPROC]" nl "pid (ptable k1 ! i)"] s1 k(4)
  obtain k2 where k2: "exit_children [0 ..< NPROC] nl (pid (ptable k1 ! i)) ?k = Ok () k2" "adopted nl (pid (ptable k1 ! i)) r {0 ..< NPROC} ?k k2"
    by auto
  have s2: "curproc k2 = Some i" "held k2 = {PtableLock}" "length (ptable k2) = NPROC" using k2(2) s1 by (simp_all add: adopted_def)
  have par2: "parent (ptable k2 ! x) = (if ppid nl k x = pid (ptable k ! i) then Some r else parent (ptable k ! x))" if "x < NPROC" for x
  proof -
    have "ppid nl ?k x = ppid nl k x" using that s1'(2) s1'(3) par by (auto simp: ppid_def split: option.splits)
    then show ?thesis using k2(2) that s1(4) s1'(2) [OF that] s1'(3) [OF i(2)] by (simp add: adopted_def)
  qed
  have st2: "p_state (ptable k2 ! j) \<in> {SLEEPING, RUNNABLE}" "p_chan (ptable k2 ! j) = ChProc j"
    using k2(2) jl s1 s1' j by (auto simp: adopted_def)
  have pi: "parent (ptable k2 ! i) = Some j" using par2 [of i] i j by (simp add: ppid_def)
  define k' where "k' = upd_proc i (\<lambda>q. q\<lparr>p_state := ZOMBIE\<rparr>) (wakeup1 (ChProc j) k2)"
  have k': "p_state (ptable k' ! i) = ZOMBIE" "parent (ptable k' ! i) = Some j" "p_state (ptable k' ! j) = RUNNABLE" "held k' = {PtableLock}"
    "length (ptable k') = NPROC" "curproc k' = Some i" "\<And>c. c < NPROC \<Longrightarrow> parent (ptable k' ! c) = parent (ptable k2 ! c)"
    using s2 pi st2 i(2) jl j(1) by (auto simp: k'_def upd_proc_def wakeup1_def nth_list_update)
  have "proc_exit nl k = bnd (sched k') (\<lambda>_ k. release PtableLock k)"
    using k1(1) k2(1) i(1) pi s1(3) by (simp add: proc_exit_def myproc_def proc_chan_def k'_def)
  also have "sched k' = Sleeps k'" using k' by (simp add: sched_def holding_def myproc_def)
  finally have "proc_exit nl k = Sleeps k'" by simp
  moreover have "parent (ptable k' ! c) = Some r" if "c < NPROC" "parent (ptable k ! c) = Some i" for c
    using k'(7) [OF that(1)] par2 [OF that(1)] that by (simp add: ppid_def)
  moreover have "find_index (\<lambda>q. parent q = Some j \<and> p_state q = ZOMBIE) (ptable k') \<noteq> None"
    using k'(1,2) nth_mem [of i "ptable k'"] k'(5) i(2) by (auto simp: find_index_None)
  then obtain z where z: "find_index (\<lambda>q. parent q = Some j \<and> p_state q = ZOMBIE) (ptable k') = Some z" by blast
  ultimately show ?thesis using k' find_index_Some [OF z] by (auto simp: wait_loop_def)
qed

definition k0_exit :: kernel where
  "k0_exit = k0\<lparr>ptable := proc0\<lparr>p_state := SLEEPING, pid := 1, p_chan := ChProc 0\<rparr> # proc0\<lparr>p_state := RUNNING, pid := 2, parent := Some 0\<rparr> #
       replicate 62 proc0, curproc := Some 1\<rparr>"

theorem exit_wakes_parent_witness:
  "\<exists>k'. proc_exit 0 k0_exit = Sleeps k' \<and> p_state (ptable k' ! 1) = ZOMBIE \<and> p_state (ptable k' ! 0) = RUNNABLE"
proof -
  have "\<forall>x < NPROC. \<forall>q. parent (ptable k0_exit ! x) = Some q \<longrightarrow> q < NPROC"
    by (auto simp: k0_exit_def proc0_def nth_Cons split: nat.splits)
  from exit_wakes_parent [OF _ _ _ _ this, of 0 1 0 0] show ?thesis
    by (auto simp: k0_exit_def proc0_def k0_def)
qed

end
