(* ===== verification/Shparse.thy ===== *)
theory Shparse
  imports Kernel_State
begin

text \<open>
  The parser of the shell, \<open>user/sh.c\<close>: tokens (\<open>gettoken\<close>, \<open>peek\<close>), the recursive-descent parser and \<open>nulterminate\<close>. The
  line is a byte array \<open>m\<close> with its end \<open>es\<close>; a pointer into it is an index. The state of a parsing function is \<open>*ps\<close>;
  \<open>panic\<close>, which prints its message and exits, is the outcome \<open>Panic\<close>. The recursion takes fuel: every chain of four nested calls
  consumes a byte of the line, so \<open>4 * es + 4\<close> is enough, as \<open>parse_total\<close> shows.
\<close>

section \<open>Commands\<close>

text \<open>The five command structs over a type of strings. In the parser a string is the pair of its two pointers (\<open>argv[i]\<close> and
  \<open>eargv[i]\<close>, \<open>file\<close> and \<open>efile\<close>).\<close>

datatype 'w cmd =
    EXEC "'w list"
  | REDIR "'w cmd" 'w int int
  | PIPE "'w cmd" "'w cmd"
  | LIST "'w cmd" "'w cmd"
  | BACK "'w cmd"

type_synonym span = "nat \<times> nat"

abbreviation MAXARGS :: nat where "MAXARGS \<equiv> 10"
abbreviation (input) RDONLY :: int where "RDONLY \<equiv> 0"
abbreviation (input) WRONLY_CREATE :: int where "WRONLY_CREATE \<equiv> 513"

text \<open>\<open>cmd->argv[argc] = q; cmd->eargv[argc] = eq\<close>: \<open>cmd\<close> is the exec command below the redirections made so far.\<close>

fun add_arg :: "'w \<Rightarrow> 'w cmd \<Rightarrow> 'w cmd" where
  "add_arg w (EXEC as) = EXEC (as @ [w])"
| "add_arg w (REDIR c f mode fd) = REDIR (add_arg w c) f mode fd"
| "add_arg w c = c"

section \<open>Tokens\<close>

text \<open>The characters of \<open>whitespace\<close> and of \<open>symbols\<close>.\<close>

definition whitespace :: "byte list" where
  "whitespace = [32, 9, 13, 10, 11]"

definition symbols :: "byte list" where
  "symbols = map of_char ''<|>&;()''"

function skip :: "(byte \<Rightarrow> bool) \<Rightarrow> byte list \<Rightarrow> nat \<Rightarrow> nat \<Rightarrow> nat" where
  "skip P m es s = (if s < es \<and> P (m ! s) then skip P m es (Suc s) else s)"
  by pat_completeness auto
termination by (relation "measure (\<lambda>(P, m, es, s). es - s)") auto

declare skip.simps [simp del]

abbreviation "skip_white \<equiv> skip (\<lambda>c. c \<in> set whitespace)"
abbreviation "skip_word \<equiv> skip (\<lambda>c. c \<notin> set whitespace \<and> c \<notin> set symbols)"

text \<open>The token, \<open>*q\<close>, \<open>*eq\<close> and \<open>*ps\<close>.\<close>

definition gettoken :: "byte list \<Rightarrow> nat \<Rightarrow> nat \<Rightarrow> byte \<times> nat \<times> nat \<times> nat" where
  "gettoken m es s =
     (let q = skip_white m es s;
          c = m ! q;
          (ret, eq) =
            (if c = 0 then (c, q)
             else if c \<in> set (map of_char ''|();&<'') then (c, q + 1)
             else if c = of_char (CHR ''>'') then
               (if m ! (q + 1) = of_char (CHR ''>'') then (of_char (CHR ''+''), q + 2) else (c, q + 1))
             else (of_char (CHR ''a''), skip_word m es q))
      in (ret, q, eq, skip_white m es eq))"

text \<open>The result and \<open>*ps\<close>.\<close>

definition peek :: "byte list \<Rightarrow> nat \<Rightarrow> string \<Rightarrow> nat \<Rightarrow> bool \<times> nat" where
  "peek m es toks s =
     (let s = skip_white m es s in (m ! s \<noteq> 0 \<and> m ! s \<in> set (map of_char toks), s))"

section \<open>Parsing\<close>

primrec parseredirs :: "nat \<Rightarrow> byte list \<Rightarrow> nat \<Rightarrow> span cmd \<Rightarrow> nat \<Rightarrow> (nat, span cmd) res" where
  "parseredirs 0 m es cmd s = OutOfFuel"
| "parseredirs (Suc n) m es cmd s =
     (case peek m es ''<>'' s of
        (False, s) \<Rightarrow> Ok cmd s
      | (True, s) \<Rightarrow>
          let (tok, _, _, s) = gettoken m es s;
              (tok2, q, eq, s) = gettoken m es s
          in if tok2 \<noteq> of_char (CHR ''a'') then Panic ''missing file for redirection''
             else parseredirs n m es
               (if tok = of_char (CHR ''<'') then REDIR cmd (q, eq) RDONLY 0
                else if tok = of_char (CHR ''>'') then REDIR cmd (q, eq) WRONLY_CREATE 1
                else if tok = of_char (CHR ''+'') then REDIR cmd (q, eq) WRONLY_CREATE 1
                else cmd) s)"

text \<open>The loop of \<open>parseexec\<close>.\<close>

primrec parseargs :: "nat \<Rightarrow> byte list \<Rightarrow> nat \<Rightarrow> nat \<Rightarrow> span cmd \<Rightarrow> nat \<Rightarrow> (nat, span cmd) res" where
  "parseargs 0 m es argc ret s = OutOfFuel"
| "parseargs (Suc n) m es argc ret s =
     (case peek m es ''|)&;'' s of
        (True, s) \<Rightarrow> Ok ret s
      | (False, s) \<Rightarrow>
          let (tok, q, eq, s) = gettoken m es s
          in if tok = 0 then Ok ret s
             else if tok \<noteq> of_char (CHR ''a'') then Panic ''syntax''
             else let ret = add_arg (q, eq) ret; argc = argc + 1
                  in if argc \<ge> MAXARGS then Panic ''too many args''
                     else bnd (parseredirs (es + 1) m es ret s) (\<lambda>ret s. parseargs n m es argc ret s))"

text \<open>The loop over \<open>&\<close> in \<open>parseline\<close>.\<close>

primrec parseback :: "nat \<Rightarrow> byte list \<Rightarrow> nat \<Rightarrow> span cmd \<Rightarrow> nat \<Rightarrow> (nat, span cmd) res" where
  "parseback 0 m es cmd s = OutOfFuel"
| "parseback (Suc n) m es cmd s =
     (case peek m es ''&'' s of
        (False, s) \<Rightarrow> Ok cmd s
      | (True, s) \<Rightarrow> let (_, _, _, s) = gettoken m es s in parseback n m es (BACK cmd) s)"

text \<open>The four functions that call each other, each with its callees as the parameter \<open>rec\<close>, and the recursion.\<close>

datatype nonterm = Line | Pipe | Block | Exec

definition parseline :: "(nonterm \<Rightarrow> nat \<Rightarrow> (nat, span cmd) res) \<Rightarrow> byte list \<Rightarrow> nat \<Rightarrow> nat \<Rightarrow> (nat, span cmd) res" where
  "parseline rec m es s =
     bnd (rec Pipe s) (\<lambda>cmd s.
     bnd (parseback (es + 1) m es cmd s) (\<lambda>cmd s.
     case peek m es '';'' s of
       (False, s) \<Rightarrow> Ok cmd s
     | (True, s) \<Rightarrow>
         let (_, _, _, s) = gettoken m es s
         in bnd (rec Line s) (\<lambda>r s. Ok (LIST cmd r) s)))"

definition parsepipe :: "(nonterm \<Rightarrow> nat \<Rightarrow> (nat, span cmd) res) \<Rightarrow> byte list \<Rightarrow> nat \<Rightarrow> nat \<Rightarrow> (nat, span cmd) res" where
  "parsepipe rec m es s =
     bnd (rec Exec s) (\<lambda>cmd s.
     case peek m es ''|'' s of
       (False, s) \<Rightarrow> Ok cmd s
     | (True, s) \<Rightarrow>
         let (_, _, _, s) = gettoken m es s
         in bnd (rec Pipe s) (\<lambda>r s. Ok (PIPE cmd r) s))"

definition parseblock :: "(nonterm \<Rightarrow> nat \<Rightarrow> (nat, span cmd) res) \<Rightarrow> byte list \<Rightarrow> nat \<Rightarrow> nat \<Rightarrow> (nat, span cmd) res" where
  "parseblock rec m es s =
     (case peek m es ''('' s of
        (False, s) \<Rightarrow> Panic ''parseblock''
      | (True, s) \<Rightarrow>
          let (_, _, _, s) = gettoken m es s
          in bnd (rec Line s) (\<lambda>cmd s.
             case peek m es '')'' s of
               (False, s) \<Rightarrow> Panic ''syntax - missing )''
             | (True, s) \<Rightarrow> let (_, _, _, s) = gettoken m es s in parseredirs (es + 1) m es cmd s))"

definition parseexec :: "(nonterm \<Rightarrow> nat \<Rightarrow> (nat, span cmd) res) \<Rightarrow> byte list \<Rightarrow> nat \<Rightarrow> nat \<Rightarrow> (nat, span cmd) res" where
  "parseexec rec m es s =
     (case peek m es ''('' s of
        (True, s) \<Rightarrow> rec Block s
      | (False, s) \<Rightarrow>
          bnd (parseredirs (es + 1) m es (EXEC []) s) (\<lambda>ret s.
          parseargs (es + 1) m es 0 ret s))"

primrec parse :: "nat \<Rightarrow> byte list \<Rightarrow> nat \<Rightarrow> nonterm \<Rightarrow> nat \<Rightarrow> (nat, span cmd) res" where
  "parse 0 m es nt s = OutOfFuel"
| "parse (Suc n) m es nt s =
     (case nt of
        Line \<Rightarrow> parseline (parse n m es) m es s
      | Pipe \<Rightarrow> parsepipe (parse n m es) m es s
      | Block \<Rightarrow> parseblock (parse n m es) m es s
      | Exec \<Rightarrow> parseexec (parse n m es) m es s)"

text \<open>\<open>*eargv[i] = 0\<close> and \<open>*efile = 0\<close>.\<close>

fun nulterminate :: "span cmd \<Rightarrow> byte list \<Rightarrow> byte list" where
  "nulterminate (EXEC as) m = fold (\<lambda>(q, eq) m. m[eq := 0]) as m"
| "nulterminate (REDIR c (f, ef) mode fd) m = (nulterminate c m)[ef := 0]"
| "nulterminate (PIPE l r) m = nulterminate r (nulterminate l m)"
| "nulterminate (LIST l r) m = nulterminate r (nulterminate l m)"
| "nulterminate (BACK c) m = nulterminate c m"

text \<open>The value is the command and the buffer with the terminated strings.\<close>

definition parsecmd :: "byte list \<Rightarrow> (nat, span cmd \<times> byte list) res" where
  "parsecmd m =
     (let es = length (takeWhile (\<lambda>c. c \<noteq> 0) m)
      in bnd (parse (4 * es + 4) m es Line 0) (\<lambda>cmd s.
         let (_, s) = peek m es '''' s
         in if s \<noteq> es then Panic ''syntax'' else Ok (cmd, nulterminate cmd m) s))"

section \<open>Positions of tokens\<close>

lemma skip_ge: "s \<le> skip P m es s"
proof (induction P m es s rule: skip.induct)
  case (1 P m es s)
  then show ?case by (cases "s < es \<and> P (m ! s)") (auto simp: skip.simps [of P m es s])
qed

lemma skip_le: "s \<le> es \<Longrightarrow> skip P m es s \<le> es"
proof (induction P m es s rule: skip.induct)
  case (1 P m es s)
  then show ?case by (cases "s < es \<and> P (m ! s)") (auto simp: skip.simps [of P m es s])
qed

lemmas skip_bounds = skip_ge skip_le

lemma skip_stops: "skip P m es s < es \<Longrightarrow> \<not> P (m ! skip P m es s)"
proof (induction P m es s rule: skip.induct)
  case (1 P m es s)
  then show ?case by (cases "s < es \<and> P (m ! s)") (auto simp: skip.simps [of P m es s])
qed

lemma skip_inside: "s \<le> i \<Longrightarrow> i < skip P m es s \<Longrightarrow> P (m ! i)"
proof (induction P m es s rule: skip.induct)
  case (1 P m es s)
  show ?case
  proof (cases "s < es \<and> P (m ! s)")
    case True
    with 1 show ?thesis by (cases "i = s") (auto simp: skip.simps [of P m es s])
  next
    case False
    with 1(2,3) show ?thesis by (auto simp: skip.simps [of P m es s])
  qed
qed

lemma skip_id: "\<not> (s < es \<and> P (m ! s)) \<Longrightarrow> skip P m es s = s"
  by (subst skip.simps) auto

lemma skip_step: "s < es \<Longrightarrow> P (m ! s) \<Longrightarrow> skip P m es s = skip P m es (Suc s)"
  by (subst skip.simps) simp

lemma skip_skip [simp]: "skip P m es (skip P m es s) = skip P m es s"
  using skip_stops by (metis skip_id)

text \<open>A line ends at its first zero byte. A word token is a non-empty range of bytes that are neither white space nor symbols,
  followed by the end of the line or by a byte that is one.\<close>

definition line :: "byte list \<Rightarrow> nat \<Rightarrow> bool" where
  "line m es \<longleftrightarrow> es < length m \<and> m ! es = 0 \<and> (\<forall>i < es. m ! i \<noteq> 0)"

definition plain :: "byte \<Rightarrow> bool" where
  "plain c \<longleftrightarrow> c \<notin> set whitespace \<and> c \<notin> set symbols \<and> c \<noteq> 0"

definition word :: "byte list \<Rightarrow> nat \<Rightarrow> nat \<times> nat \<Rightarrow> bool" where
  "word m es = (\<lambda>(q, eq). q < eq \<and> eq \<le> es \<and> (\<forall>i. q \<le> i \<and> i < eq \<longrightarrow> plain (m ! i)) \<and> \<not> plain (m ! eq))"

lemma peek_bounds:
  assumes "line m es" "s \<le> es" "peek m es toks s = (b, s')"
  shows "s \<le> s'" "s' \<le> es" "b \<Longrightarrow> s' < es" "m ! s' \<notin> set whitespace" "skip_white m es s' = s'" "b \<longleftrightarrow> m ! s' \<noteq> 0 \<and> m ! s' \<in> set (map of_char toks)"
proof -
  have s': "s' = skip_white m es s" and b: "b \<longleftrightarrow> m ! s' \<noteq> 0 \<and> m ! s' \<in> set (map of_char toks)"
    using assms(3) by (auto simp: peek_def Let_def)
  show "s \<le> s'" and le: "s' \<le> es" and "skip_white m es s' = s'" using skip_bounds assms(2) unfolding s' by auto
  show "b \<longleftrightarrow> m ! s' \<noteq> 0 \<and> m ! s' \<in> set (map of_char toks)" by (rule b)
  show "b \<Longrightarrow> s' < es" using le b assms(1) by (cases "s' = es") (auto simp: line_def)
  show "m ! s' \<notin> set whitespace"
    using skip_stops [of "\<lambda>c. c \<in> set whitespace" m es s] le assms(1) unfolding s' [symmetric]
    by (cases "s' = es") (auto simp: line_def whitespace_def)
qed

lemma symbols_split: "c \<in> set symbols \<longleftrightarrow> c \<in> set (map of_char ''|();&<'') \<or> c = of_char (CHR ''>'')"
  by (auto simp: symbols_def)

lemma gettoken_bounds:
  assumes l: "line m es" "s \<le> es" and g: "gettoken m es s = (tok, q, eq, s')"
  shows "s \<le> s'" "s' \<le> es" "tok \<noteq> 0 \<Longrightarrow> s < s'" "tok = of_char (CHR ''a'') \<Longrightarrow> word m es (q, eq)" "tok = 0 \<Longrightarrow> s' = es"
proof -
  have q: "q = skip_white m es s" "s' = skip_white m es eq" using g by (auto simp: gettoken_def Let_def split: if_splits)
  have qb: "s \<le> q" "q \<le> es" using skip_bounds l(2) unfolding q by auto
  have q0: "m ! q = 0 \<longleftrightarrow> q = es" using l(1) qb(2) by (auto simp: line_def order_le_less)
  have qn: "q < es \<Longrightarrow> m ! q \<notin> set whitespace" using skip_stops unfolding q(1) by blast
  have sb: "eq \<le> s'" "eq \<le> es \<Longrightarrow> s' \<le> es" using skip_bounds unfolding q(2) by auto
  consider (zero) "tok = 0" "eq = q" "m ! q = 0"
    | (sym) "tok \<noteq> 0" "tok \<noteq> of_char (CHR ''a'')" "m ! q \<noteq> 0" "eq = q + 1 \<or> eq = q + 2 \<and> m ! (q + 1) \<noteq> 0"
    | (wrd) "tok = of_char (CHR ''a'')" "eq = skip_word m es q" "m ! q \<noteq> 0" "m ! q \<notin> set symbols"
    using g by (auto simp: gettoken_def Let_def symbols_split q(1) split: if_splits)
  then have *: "s \<le> s' \<and> s' \<le> es \<and> (tok \<noteq> 0 \<longrightarrow> s < s') \<and> (tok = of_char (CHR ''a'') \<longrightarrow> word m es (q, eq)) \<and> (tok = 0 \<longrightarrow> s' = es)"
  proof cases
    case zero
    then show ?thesis using qb sb q0 by simp
  next
    case sym
    then have "q < es" using q0 qb by auto
    moreover have "eq = q + 2 \<Longrightarrow> q + 1 < es" using sym \<open>q < es\<close> l(1) by (cases "q + 1 = es") (auto simp: line_def)
    ultimately show ?thesis using sym qb sb by auto
  next
    case wrd
    then have lt: "q < es" using q0 qb by auto
    have "Suc q \<le> skip_word m es (Suc q)" by (rule skip_bounds)
    with skip_step [OF lt, of "\<lambda>c. c \<notin> set whitespace \<and> c \<notin> set symbols" m] wrd qn lt have e: "q < eq" by simp
    have le: "eq \<le> es" unfolding wrd(2) using skip_bounds(2) qb(2) by blast
    have in1: "plain (m ! i)" if "q \<le> i" "i < eq" for i
      using skip_inside [OF that(1) that(2) [unfolded wrd(2)]] that(2) le l(1) by (simp add: plain_def line_def)
    have "\<not> plain (m ! eq)"
      using skip_stops [of "\<lambda>c. c \<notin> set whitespace \<and> c \<notin> set symbols" m es q] le l(1) unfolding wrd(2) [symmetric]
      by (cases "eq = es") (auto simp: plain_def line_def)
    with e le in1 show ?thesis using wrd(1) qb sb by (auto simp: word_def)
  qed
  then show "s \<le> s'" "s' \<le> es" "tok \<noteq> 0 \<Longrightarrow> s < s'" "tok = of_char (CHR ''a'') \<Longrightarrow> word m es (q, eq)" "tok = 0 \<Longrightarrow> s' = es" by auto
qed

section \<open>Every line is parsed\<close>

fun cmd_ok :: "byte list \<Rightarrow> nat \<Rightarrow> span cmd \<Rightarrow> bool" where
  "cmd_ok m es (EXEC as) \<longleftrightarrow> list_all (word m es) as \<and> length as < MAXARGS"
| "cmd_ok m es (REDIR c f mode fd) \<longleftrightarrow> cmd_ok m es c \<and> word m es f \<and> (mode, fd) \<in> {(RDONLY, 0), (WRONLY_CREATE, 1)}"
| "cmd_ok m es (PIPE l r) \<longleftrightarrow> cmd_ok m es l \<and> cmd_ok m es r"
| "cmd_ok m es (LIST l r) \<longleftrightarrow> cmd_ok m es l \<and> cmd_ok m es r"
| "cmd_ok m es (BACK c) \<longleftrightarrow> cmd_ok m es c"

text \<open>The arguments of the exec command below a chain of redirections.\<close>

fun leaf :: "'w cmd \<Rightarrow> 'w list option" where
  "leaf (EXEC as) = Some as"
| "leaf (REDIR c f mode fd) = leaf c"
| "leaf c = None"

lemma add_arg_ok:
  "cmd_ok m es c \<Longrightarrow> leaf c = Some as \<Longrightarrow> word m es w \<Longrightarrow> length as + 1 < MAXARGS \<Longrightarrow>
   cmd_ok m es (add_arg w c) \<and> leaf (add_arg w c) = Some (as @ [w])"
  by (induction w c rule: add_arg.induct) auto

text \<open>A parsing function started at \<open>s\<close> rejects the line, or advances inside it and returns a command with \<open>Q\<close>.\<close>

definition parsed :: "byte list \<Rightarrow> nat \<Rightarrow> nat \<Rightarrow> (span cmd \<Rightarrow> bool) \<Rightarrow> (nat, span cmd) res \<Rightarrow> bool" where
  "parsed m es s Q r \<longleftrightarrow> (\<exists>msg. r = Panic msg) \<or> (\<exists>c s'. r = Ok c s' \<and> s \<le> s' \<and> s' \<le> es \<and> cmd_ok m es c \<and> Q c)"

lemma parsed_Ok [simp]: "parsed m es s Q (Ok c s') \<longleftrightarrow> s \<le> s' \<and> s' \<le> es \<and> cmd_ok m es c \<and> Q c"
  by (simp add: parsed_def)

lemma parsed_Panic [simp]: "parsed m es s Q (Panic msg)"
  by (simp add: parsed_def)

lemma parsed_bnd:
  assumes "parsed m es s Q r"
    and "\<And>c s'. s \<le> s' \<Longrightarrow> s' \<le> es \<Longrightarrow> cmd_ok m es c \<Longrightarrow> Q c \<Longrightarrow> parsed m es s R (f c s')"
  shows "parsed m es s R (bnd r f)"
  using assms by (auto simp: parsed_def [of m es s Q])

lemma parsed_from: "parsed m es s' Q r \<Longrightarrow> s \<le> s' \<Longrightarrow> parsed m es s Q r"
  by (auto simp: parsed_def)

lemma parsed_weak: "parsed m es s Q r \<Longrightarrow> parsed m es s (\<lambda>_. True) r"
  by (auto simp: parsed_def)

lemma peek_gettoken:
  assumes "line m es" "s \<le> es" "peek m es toks s = (True, s1)" "gettoken m es s1 = (tok, q, eq, s2)"
  shows "s < s2" "s2 \<le> es"
proof -
  note p = peek_bounds [OF assms(1-3)]
  note g = gettoken_bounds [OF assms(1) p(2) assms(4)]
  show "s2 \<le> es" by (rule g)
  show "s < s2" using p g by (cases "tok = 0") auto
qed

lemma parseredirs_ok:
  "line m es \<Longrightarrow> es < n + s \<Longrightarrow> s \<le> es \<Longrightarrow> cmd_ok m es c \<Longrightarrow> parsed m es s (\<lambda>d. leaf d = leaf c) (parseredirs n m es c s)"
proof (induction n arbitrary: s c)
  case (Suc n)
  obtain b s1 where p: "peek m es ''<>'' s = (b, s1)" by force
  note pb = peek_bounds [OF Suc.prems(1,3) p]
  obtain tok q eq s2 where g: "gettoken m es s1 = (tok, q, eq, s2)" by (metis prod_cases4)
  obtain tok2 q2 eq2 s3 where g2: "gettoken m es s2 = (tok2, q2, eq2, s3)" by (metis prod_cases4)
  show ?case
  proof (cases "b \<and> tok2 = of_char (CHR ''a'')")
    case True
    then have s2: "s < s2" "s2 \<le> es" using peek_gettoken [OF Suc.prems(1,3) _ g] p by auto
    note g2b = gettoken_bounds [OF Suc.prems(1) s2(2) g2]
    define c' where "c' = (if tok = of_char (CHR ''<'') then REDIR c (q2, eq2) RDONLY 0
      else if tok = of_char (CHR ''>'') then REDIR c (q2, eq2) WRONLY_CREATE 1
      else if tok = of_char (CHR ''+'') then REDIR c (q2, eq2) WRONLY_CREATE 1 else c)"
    have "cmd_ok m es c'" "leaf c' = leaf c" using Suc.prems(4) g2b(4) True by (auto simp: c'_def)
    moreover have "es < n + s3" using Suc.prems(2) s2 g2b(1) by simp
    ultimately have r: "parsed m es s3 (\<lambda>d. leaf d = leaf c) (parseredirs n m es c' s3)"
      using Suc.IH [OF Suc.prems(1), of s3 c'] g2b(2) by simp
    have eq: "parseredirs (Suc n) m es c s = parseredirs n m es c' s3" using True by (simp add: p g g2 c'_def)
    show ?thesis unfolding eq by (rule parsed_from [OF r]) (use s2(1) g2b(1) in simp)
  next
    case False
    then show ?thesis using pb(1,2) Suc.prems(4) by (cases b) (simp_all add: p g g2)
  qed
qed simp

lemma parseargs_ok:
  "line m es \<Longrightarrow> es < n + s \<Longrightarrow> s \<le> es \<Longrightarrow> cmd_ok m es c \<Longrightarrow> leaf c = Some as \<Longrightarrow> length as = argc \<Longrightarrow>
   parsed m es s (\<lambda>_. True) (parseargs n m es argc c s)"
proof (induction n arbitrary: s c as argc)
  case (Suc n)
  obtain b s1 where p: "peek m es ''|)&;'' s = (b, s1)" by force
  note pb = peek_bounds [OF Suc.prems(1,3) p]
  obtain tok q eq s2 where g: "gettoken m es s1 = (tok, q, eq, s2)" by (metis prod_cases4)
  note gb = gettoken_bounds [OF Suc.prems(1) pb(2) g]
  show ?case
  proof (cases "\<not> b \<and> tok = of_char (CHR ''a'') \<and> argc + 1 < MAXARGS")
    case True
    define c' where "c' = add_arg (q, eq) c"
    have c': "cmd_ok m es c'" "leaf c' = Some (as @ [(q, eq)])"
      using add_arg_ok [OF Suc.prems(4,5) gb(4)] True Suc.prems(6) by (simp_all add: c'_def)
    have s2: "s < s2" using pb(1) gb(3) True by simp
    have r: "parsed m es s2 (\<lambda>_. True) (bnd (parseredirs (es + 1) m es c' s2) (\<lambda>c s. parseargs n m es (argc + 1) c s))"
    proof (rule parsed_bnd [OF parseredirs_ok [OF Suc.prems(1) _ gb(2) c'(1)]])
      fix d s' assume d: "s2 \<le> s'" "s' \<le> es" "cmd_ok m es d" "leaf d = leaf c'"
      then show "parsed m es s2 (\<lambda>_. True) (parseargs n m es (argc + 1) d s')"
        using c'(2) s2 Suc.prems(2,6) by (intro parsed_from [OF Suc.IH [where as = "as @ [(q, eq)]", OF Suc.prems(1) _ d(2,3)]]) simp_all
    qed (use s2 in simp)
    have eq: "parseargs (Suc n) m es argc c s = bnd (parseredirs (es + 1) m es c' s2) (\<lambda>c s. parseargs n m es (argc + 1) c s)"
      using True by (simp add: p g c'_def Let_def del: parseredirs.simps)
    show ?thesis unfolding eq by (rule parsed_from [OF r]) (use s2 in simp)
  next
    case False
    then show ?thesis using pb(1,2) gb(1,2) Suc.prems(4) by (cases b) (auto simp: p g Let_def)
  qed
qed simp

lemma parseback_ok:
  "line m es \<Longrightarrow> es < n + s \<Longrightarrow> s \<le> es \<Longrightarrow> cmd_ok m es c \<Longrightarrow> parsed m es s (\<lambda>_. True) (parseback n m es c s)"
proof (induction n arbitrary: s c)
  case (Suc n)
  obtain b s1 where p: "peek m es ''&'' s = (b, s1)" by force
  note pb = peek_bounds [OF Suc.prems(1,3) p]
  obtain tok q eq s2 where g: "gettoken m es s1 = (tok, q, eq, s2)" by (metis prod_cases4)
  show ?case
  proof (cases b)
    case True
    then have s2: "s < s2" "s2 \<le> es" using peek_gettoken [OF Suc.prems(1,3) _ g] p by auto
    then have "parsed m es s2 (\<lambda>_. True) (parseback n m es (BACK c) s2)" using Suc.prems by (intro Suc.IH) simp_all
    then show ?thesis using s2 True by (simp add: p g parsed_from)
  qed (use pb(1,2) Suc.prems(4) in \<open>simp add: p\<close>)
qed simp

text \<open>The fuel each function needs at distance \<open>d\<close> from the end of the line.\<close>

primrec need :: "nonterm \<Rightarrow> nat" where
  "need Block = 1" | "need Exec = 2" | "need Pipe = 3" | "need Line = 4"

lemma parse_total:
  "line m es \<Longrightarrow> s \<le> es \<Longrightarrow> 4 * (es - s) + need nt \<le> n \<Longrightarrow> parsed m es s (\<lambda>_. True) (parse n m es nt s)"
proof (induction n arbitrary: nt s)
  case 0
  then show ?case by (cases nt) simp_all
next
  case (Suc n)
  have call: "parsed m es s (\<lambda>_. True) (parse n m es nt' s')"
    if "s \<le> s'" "s' \<le> es" "s < s' \<or> need nt' < need nt" for nt' s'
  proof (rule parsed_from [OF Suc.IH [OF Suc.prems(1) that(2)] that(1)])
    show "4 * (es - s') + need nt' \<le> n" using that Suc.prems(3) by (cases nt'; cases nt) auto
  qed
  have look: "parsed m es s Q (case peek m es toks s' of (False, s) \<Rightarrow> g s
       | (True, s) \<Rightarrow> let (_, _, _, s) = gettoken m es s in f s)"
    if "s \<le> s'" "s' \<le> es" "\<And>s''. s \<le> s'' \<Longrightarrow> s'' \<le> es \<Longrightarrow> parsed m es s Q (g s'')"
      "\<And>s''. s < s'' \<Longrightarrow> s'' \<le> es \<Longrightarrow> parsed m es s Q (f s'')" for Q toks s' g f
  proof -
    obtain b s1 where p: "peek m es toks s' = (b, s1)" by force
    obtain tok q eq s2 where g: "gettoken m es s1 = (tok, q, eq, s2)" by (metis prod_cases4)
    note pb = peek_bounds(1,2) [OF Suc.prems(1) that(2) p] and pg = peek_gettoken [OF Suc.prems(1) that(2) _ g, of toks]
    show ?thesis
    proof (cases b)
      case True
      then have "s < s2" "s2 \<le> es" using pg p that(1) by auto
      with that(4) show ?thesis using True by (simp add: p g)
    next
      case False
      with that(3) pb that(1) show ?thesis by (simp add: p)
    qed
  qed
  show ?case
  proof (cases nt)
    case Line
    have "parsed m es s (\<lambda>_. True) (parseline (parse n m es) m es s)" unfolding parseline_def
      by (intro parsed_bnd [where Q = "\<lambda>_. True"] look call parsed_from [OF parseback_ok [OF Suc.prems(1)]]) (auto simp: Line Suc.prems)
    then show ?thesis by (simp add: Line)
  next
    case Pipe
    have "parsed m es s (\<lambda>_. True) (parsepipe (parse n m es) m es s)" unfolding parsepipe_def
      by (intro parsed_bnd [where Q = "\<lambda>_. True"] look call) (auto simp: Pipe Suc.prems)
    then show ?thesis by (simp add: Pipe)
  next
    case Block
    have "parsed m es s (\<lambda>_. True) (parseblock (parse n m es) m es s)" unfolding parseblock_def
      by (intro parsed_bnd [where Q = "\<lambda>_. True"] look call parsed_Panic parsed_weak [OF parsed_from [OF parseredirs_ok [OF Suc.prems(1)]]])
        (auto simp: Block Suc.prems)
    then show ?thesis by (simp add: Block)
  next
    case Exec
    obtain b s1 where p: "peek m es ''('' s = (b, s1)" by force
    note pb = peek_bounds(1,2) [OF Suc.prems(1,2) p]
    have "parsed m es s1 (\<lambda>_. True) (bnd (parseredirs (es + 1) m es (EXEC []) s1) (\<lambda>ret s. parseargs (es + 1) m es 0 ret s))"
    proof (rule parsed_bnd [OF parseredirs_ok [OF Suc.prems(1) _ pb(2)]])
      fix c s' assume "s1 \<le> s'" "s' \<le> es" "cmd_ok m es c" "leaf c = leaf (EXEC [])"
      then show "parsed m es s1 (\<lambda>_. True) (parseargs (es + 1) m es 0 c s')"
        by (intro parsed_from [OF parseargs_ok [where as = "[]", OF Suc.prems(1)]]) simp_all
    qed simp_all
    then have "parsed m es s (\<lambda>_. True) (parseexec (parse n m es) m es s)"
      using call [of s1 Block] parsed_from pb by (cases b) (auto simp: parseexec_def p Exec simp del: parseredirs.simps parseargs.simps)
    then show ?thesis by (simp add: Exec)
  qed
qed

section \<open>nulterminate\<close>

fun strings :: "'w cmd \<Rightarrow> 'w list" where
  "strings (EXEC as) = as"
| "strings (REDIR c f mode fd) = strings c @ [f]"
| "strings (PIPE l r) = strings l @ strings r"
| "strings (LIST l r) = strings l @ strings r"
| "strings (BACK c) = strings c"

text \<open>The C string at an index.\<close>

definition cstr :: "byte list \<Rightarrow> nat \<Rightarrow> byte list" where
  "cstr m q = takeWhile (\<lambda>c. c \<noteq> 0) (drop q m)"

lemma cmd_ok_words: "cmd_ok m es c \<Longrightarrow> w \<in> set (strings c) \<Longrightarrow> word m es w"
  by (induction m es c rule: cmd_ok.induct) (auto simp: list_all_iff)

lemma nulterminate_eq: "nulterminate c m = fold (\<lambda>w m. m[snd w := 0]) (strings c) m"
  by (induction c m rule: nulterminate.induct) (simp_all add: case_prod_beta')

lemma nth_fold_zero:
  "length (fold (\<lambda>w m. m[snd w := 0]) ws m) = length m"
  "i < length m \<Longrightarrow> fold (\<lambda>w m. m[snd w := 0]) ws m ! i = (if i \<in> snd ` set ws then 0 else m ! i)"
  by (induction ws arbitrary: m) (auto simp: nth_list_update)

lemma nulterminate_cstr:
  assumes l: "line m es" and c: "cmd_ok m es c" and w: "(q, eq) \<in> set (strings c)"
  shows "cstr (nulterminate c m) q = slice q (eq - q) m"
proof -
  let ?m = "nulterminate c m"
  have wd: "q < eq" "eq \<le> es" "\<And>i. q \<le> i \<Longrightarrow> i < eq \<Longrightarrow> plain (m ! i)" using cmd_ok_words [OF c w] by (auto simp: word_def)
  have le: "eq < length m" "length ?m = length m" using wd(2) l by (simp_all add: line_def nulterminate_eq nth_fold_zero)
  have inside: "?m ! i = m ! i \<and> m ! i \<noteq> 0" if i: "q \<le> i" "i < eq" for i
  proof -
    have "i \<notin> snd ` set (strings c)"
    proof
      assume "i \<in> snd ` set (strings c)"
      then obtain a where "(a, i) \<in> set (strings c)" by force
      then have "\<not> plain (m ! i)" using cmd_ok_words [OF c] by (force simp: word_def)
      with wd(3) [OF i] show False by simp
    qed
    then show ?thesis using wd(3) [OF i] i le by (simp add: nulterminate_eq nth_fold_zero plain_def)
  qed
  have "eq \<in> snd ` set (strings c)" using w by force
  then have last: "?m ! eq = 0" using le by (simp add: nulterminate_eq nth_fold_zero)
  have "takeWhile (\<lambda>c. c \<noteq> 0) (drop q ?m) = take (eq - q) (drop q ?m)"
    using inside last le wd(1) by (intro takeWhile_eq_take_P_nth) auto
  also have "\<dots> = take (eq - q) (drop q m)"
    using inside le wd(1) by (intro nth_equalityI) auto
  finally show ?thesis by (simp add: cstr_def slice_def)
qed

lemma line_strlen:
  assumes "0 \<in> set m"
  shows "line m (length (takeWhile (\<lambda>c. c \<noteq> 0) m))"
proof -
  let ?n = "length (takeWhile (\<lambda>c. c \<noteq> 0) m)"
  have "?n < length m" using assms by (metis (mono_tags) length_takeWhile_le nat_less_le takeWhile_eq_all_conv takeWhile_eq_take take_all_iff order_refl)
  moreover from nth_length_takeWhile [OF this] have "m ! ?n = 0" by simp
  moreover have "m ! i \<noteq> 0" if "i < ?n" for i
    using set_takeWhileD [OF nth_mem [OF that]] takeWhile_nth [OF that] by simp
  ultimately show ?thesis by (simp add: line_def)
qed

section \<open>Properties of the parser\<close>

text \<open>C16: The shell's parser is total, and what it accepts is well formed. On every terminated line it either reports a syntax error or
  returns a command in which every command has fewer than ten arguments, every redirection is one of the two kinds, and every
  string is a non-empty word of the line; after \<open>nulterminate\<close> the string at the start of each word is exactly that word.\<close>

theorem parsecmd_well_formed:
  assumes "0 \<in> set m"
  shows "(\<exists>msg. parsecmd m = Panic msg) \<or>
    (\<exists>c m' es. parsecmd m = Ok (c, m') es \<and> length m' = length m \<and> cmd_ok m es c \<and>
       (\<forall>(q, eq) \<in> set (strings c). cstr m' q = slice q (eq - q) m))"
proof -
  define es where "es = length (takeWhile (\<lambda>c. c \<noteq> 0) m)"
  have l: "line m es" unfolding es_def by (rule line_strlen [OF assms])
  have "parsed m es 0 (\<lambda>_. True) (parse (4 * es + 4) m es Line 0)" by (rule parse_total [OF l]) simp_all
  then consider (err) msg where "parse (4 * es + 4) m es Line 0 = Panic msg"
    | (ok) c s where "parse (4 * es + 4) m es Line 0 = Ok c s" "s \<le> es" "cmd_ok m es c"
    by (auto simp: parsed_def)
  then show ?thesis
  proof cases
    case err
    then show ?thesis by (simp add: parsecmd_def es_def Let_def)
  next
    case ok
    obtain b s1 where p: "peek m es '''' s = (b, s1)" by force
    have "parsecmd m = (if s1 \<noteq> es then Panic ''syntax'' else Ok (c, nulterminate c m) s1)"
      using ok(1) p by (simp add: parsecmd_def es_def [symmetric])
    moreover have "length (nulterminate c m) = length m" by (simp add: nulterminate_eq nth_fold_zero)
    ultimately show ?thesis using ok(3) nulterminate_cstr [OF l ok(3)] by (cases "s1 = es") auto
  qed
qed

theorem parsecmd_well_formed_witness:
  "parsecmd (map of_char ''ls -l > a'' @ [10, 0]) =
     Ok (REDIR (EXEC [(0, 2), (3, 5)]) (8, 9) WRONLY_CREATE 1, map of_char ''ls'' @ [0] @ map of_char ''-l'' @ [0] @ map of_char ''> a'' @ [0, 0]) 10 \<and>
   cmd_ok (map of_char ''ls -l > a'' @ [10, 0]) 10 (REDIR (EXEC [(0, 2), (3, 5)]) (8, 9) WRONLY_CREATE 1)"
proof -
  have e: "parsecmd (map of_char ''ls -l > a'' @ [10, 0]) =
     Ok (REDIR (EXEC [(0, 2), (3, 5)]) (8, 9) WRONLY_CREATE 1, map of_char ''ls'' @ [0] @ map of_char ''-l'' @ [0] @ map of_char ''> a'' @ [0, 0]) 10"
    by code_simp
  with parsecmd_well_formed [of "map of_char ''ls -l > a'' @ [10, 0]"] show ?thesis by auto
qed

end
