(* ===== verification/Shtext.thy ===== *)
theory Shtext
  imports Shparse
begin

text \<open>
  The shell's parser against its grammar: the text of a command line is parsed into the command it stands for.
\<close>

section \<open>Text of a command\<close>

text \<open>The grammar of command lines, with the text of each phrase (every token followed by one space) and the command it stands for.\<close>

datatype redir = In "byte list" | Out "byte list" | App "byte list"

datatype sline = SEnd spipe nat | SSeq spipe nat sline
and spipe = SOne sexec | SBar sexec spipe
and sexec = SCmd "redir list" "(byte list \<times> redir list) list" | SBlock sline "redir list"

fun redir_text :: "redir \<Rightarrow> byte list" where
  "redir_text (In w) = map of_char ''< '' @ w @ [32]"
| "redir_text (Out w) = map of_char ''> '' @ w @ [32]"
| "redir_text (App w) = map of_char ''>> '' @ w @ [32]"

abbreviation "redirs_text rs \<equiv> concat (map redir_text rs)"

primrec line_text :: "sline \<Rightarrow> byte list" and pipe_text :: "spipe \<Rightarrow> byte list" and exec_text :: "sexec \<Rightarrow> byte list" where
  "line_text (SEnd p n) = pipe_text p @ concat (replicate n (map of_char ''& ''))"
| "line_text (SSeq p n l) = pipe_text p @ concat (replicate n (map of_char ''& '')) @ map of_char ''; '' @ line_text l"
| "pipe_text (SOne e) = exec_text e"
| "pipe_text (SBar e p) = exec_text e @ map of_char ''| '' @ pipe_text p"
| "exec_text (SCmd rs as) = redirs_text rs @ concat (map (\<lambda>(w, rs). w @ [32] @ redirs_text rs) as)"
| "exec_text (SBlock l rs) = map of_char ''( '' @ line_text l @ map of_char '') '' @ redirs_text rs"

fun redir_cmd :: "redir \<Rightarrow> byte list cmd \<Rightarrow> byte list cmd" where
  "redir_cmd (In w) c = REDIR c w RDONLY 0"
| "redir_cmd (Out w) c = REDIR c w WRONLY_CREATE 1"
| "redir_cmd (App w) c = REDIR c w WRONLY_CREATE 1"

primrec line_cmd :: "sline \<Rightarrow> byte list cmd" and pipe_cmd :: "spipe \<Rightarrow> byte list cmd" and exec_cmd :: "sexec \<Rightarrow> byte list cmd" where
  "line_cmd (SEnd p n) = (BACK ^^ n) (pipe_cmd p)"
| "line_cmd (SSeq p n l) = LIST ((BACK ^^ n) (pipe_cmd p)) (line_cmd l)"
| "pipe_cmd (SOne e) = exec_cmd e"
| "pipe_cmd (SBar e p) = PIPE (exec_cmd e) (pipe_cmd p)"
| "exec_cmd (SCmd rs as) = fold redir_cmd (rs @ concat (map snd as)) (EXEC (map fst as))"
| "exec_cmd (SBlock l rs) = fold redir_cmd rs (line_cmd l)"

text \<open>Words are non-empty and free of white space and symbols; a command has at most nine of them.\<close>

definition word_ok :: "byte list \<Rightarrow> bool" where
  "word_ok w \<longleftrightarrow> w \<noteq> [] \<and> list_all plain w"

fun redir_ok :: "redir \<Rightarrow> bool" where
  "redir_ok (In w) \<longleftrightarrow> word_ok w" | "redir_ok (Out w) \<longleftrightarrow> word_ok w" | "redir_ok (App w) \<longleftrightarrow> word_ok w"

primrec line_ok :: "sline \<Rightarrow> bool" and pipe_ok :: "spipe \<Rightarrow> bool" and exec_ok :: "sexec \<Rightarrow> bool" where
  "line_ok (SEnd p n) \<longleftrightarrow> pipe_ok p"
| "line_ok (SSeq p n l) \<longleftrightarrow> pipe_ok p \<and> line_ok l"
| "pipe_ok (SOne e) \<longleftrightarrow> exec_ok e"
| "pipe_ok (SBar e p) \<longleftrightarrow> exec_ok e \<and> pipe_ok p"
| "exec_ok (SCmd rs as) \<longleftrightarrow> list_all redir_ok rs \<and> list_all (\<lambda>(w, rs). word_ok w \<and> list_all redir_ok rs) as \<and> length as < MAXARGS"
| "exec_ok (SBlock l rs) \<longleftrightarrow> line_ok l \<and> list_all redir_ok rs"

text \<open>\<open>at m es s r\<close>: the parser stands at \<open>s\<close> and the rest of the line is \<open>r\<close>.\<close>

definition at :: "byte list \<Rightarrow> nat \<Rightarrow> nat \<Rightarrow> byte list \<Rightarrow> bool" where
  "at m es s r \<longleftrightarrow> line m es \<and> s \<le> es \<and> drop s (take es m) = r"

lemma at_Cons: "at m es s (c # r) \<Longrightarrow> s < es \<and> m ! s = c \<and> at m es (Suc s) r"
  by (cases "s < es") (auto simp: at_def line_def Cons_nth_drop_Suc [symmetric])

lemma at_append: "at m es s (w @ r) \<Longrightarrow> at m es (s + length w) r"
proof (induction w arbitrary: s)
  case (Cons c w)
  from at_Cons [OF Cons.prems [simplified]] Cons.IH [of "Suc s"] show ?case by simp
qed simp

lemma at_nth: "at m es s (w @ r) \<Longrightarrow> i < length w \<Longrightarrow> m ! (s + i) = w ! i \<and> s + i < es"
proof (induction w arbitrary: s i)
  case (Cons c w)
  from at_Cons [OF Cons.prems(1) [simplified]] Cons.IH [of "Suc s" "i - 1"] Cons.prems(2) show ?case
    by (cases i) auto
qed simp

lemma at_end: "at m es s [] \<longleftrightarrow> line m es \<and> s = es"
  by (auto simp: at_def line_def)

lemma at_head: "at m es s r \<Longrightarrow> m ! s = (if r = [] then 0 else hd r)"
  by (cases r) (auto simp: at_end line_def dest: at_Cons)

lemma at_slice: "at m es s (w @ r) \<Longrightarrow> slice s (length w) m = w"
proof (rule nth_equalityI)
  assume a: "at m es s (w @ r)"
  have "s + length w \<le> es" "es < length m" using at_append [OF a] by (auto simp: at_def line_def)
  then show "length (slice s (length w) m) = length w" by (simp add: slice_def)
  fix i assume "i < length (slice s (length w) m)"
  then have "i < length w" by (simp add: slice_def)
  with at_nth [OF a this] \<open>s + length w \<le> es\<close> \<open>es < length m\<close> show "slice s (length w) m ! i = w ! i" by (simp add: slice_def)
qed

abbreviation "trimmed r \<equiv> r = [] \<or> hd r \<notin> set whitespace"

lemma skip_at: "at m es s (w @ r) \<Longrightarrow> list_all P w \<Longrightarrow> r = [] \<or> \<not> P (hd r) \<Longrightarrow> skip P m es s = s + length w"
proof (induction w arbitrary: s)
  case Nil
  then show ?case by (cases r) (auto simp: at_end dest!: at_Cons intro!: skip_id)
next
  case (Cons c w)
  from at_Cons [OF Cons.prems(1) [simplified]] Cons.prems(2) skip_step [of s es P m] Cons.IH [of "Suc s"] Cons.prems(3)
  show ?case by simp
qed

lemma skip_white_at: "at m es s r \<Longrightarrow> trimmed r \<Longrightarrow> skip_white m es s = s"
  using skip_at [of m es s "[]" r] by simp

lemma skip_white_space: "at m es s (32 # r) \<Longrightarrow> trimmed r \<Longrightarrow> skip_white m es s = Suc s"
  using skip_at [of m es s "[32]" r "\<lambda>c. c \<in> set whitespace"] by (simp add: whitespace_def)

lemma peek_at:
  assumes "at m es s r" "trimmed r"
  shows "peek m es toks s = (r \<noteq> [] \<and> hd r \<in> set (map of_char toks), s)"
proof -
  have "r \<noteq> [] \<Longrightarrow> hd r \<noteq> 0" using assms(1) at_Cons [of m es s "hd r" "tl r"] by (auto simp: at_def line_def)
  then show ?thesis using skip_white_at [OF assms] at_head [OF assms(1)] by (auto simp: peek_def)
qed

lemma gettoken_word:
  assumes a: "at m es s (w @ 32 # r)" and w: "word_ok w" and r: "trimmed r"
  shows "gettoken m es s = (of_char (CHR ''a''), s, s + length w, s + length w + 1)"
proof -
  obtain c v where cv: "w = c # v" "plain c" using w by (cases w) (auto simp: word_ok_def)
  have sk: "skip_white m es s = s" using cv by (intro skip_white_at [OF a]) (auto simp: plain_def)
  have sw: "skip_word m es s = s + length w"
    using a w by (intro skip_at [OF a]) (auto simp: word_ok_def plain_def whitespace_def list_all_iff)
  have sp: "skip_white m es (s + length w) = Suc (s + length w)" using at_append [OF a] r by (rule skip_white_space)
  have "m ! s = c" using at_head [OF a] cv by simp
  moreover have "c \<noteq> 0" "c \<notin> set (map of_char ''|();&<'')" "c \<noteq> of_char (CHR ''>'')" using cv(2) by (auto simp: plain_def symbols_def)
  ultimately show ?thesis by (simp add: gettoken_def sk sw sp Let_def)
qed

lemma gettoken_sym:
  assumes a: "at m es s (c # 32 # r)" and c: "c \<in> set symbols" and r: "trimmed r"
  shows "gettoken m es s = (c, s, s + 1, s + 2)"
proof -
  have sk: "skip_white m es s = s" using c by (intro skip_white_at [OF a]) (auto simp: symbols_def whitespace_def)
  have a1: "at m es (Suc s) (32 # r)" using at_Cons [OF a] by simp
  have sp: "skip_white m es (Suc s) = s + 2" using skip_white_space [OF a1 r] by simp
  have "m ! s = c" "m ! Suc s = 32" using at_head [OF a] at_head [OF a1] by simp_all
  moreover have "c \<noteq> 0" using c by (auto simp: symbols_def)
  ultimately show ?thesis using c by (auto simp: gettoken_def sk sp Let_def symbols_split)
qed

lemma gettoken_append:
  assumes a: "at m es s (62 # 62 # 32 # r)" and r: "trimmed r"
  shows "gettoken m es s = (of_char (CHR ''+''), s, s + 2, s + 3)"
proof -
  have sk: "skip_white m es s = s" by (intro skip_white_at [OF a]) (auto simp: whitespace_def)
  have a1: "at m es (Suc s) (62 # 32 # r)" using at_Cons [OF a] by simp
  then have a2: "at m es (Suc (Suc s)) (32 # r)" using at_Cons by blast
  have sp: "skip_white m es (Suc (Suc s)) = s + 3" using skip_white_space [OF a2 r] by simp
  have "m ! s = 62" "m ! Suc s = 62" using at_head [OF a] at_head [OF a1] by simp_all
  then show ?thesis by (simp add: gettoken_def sk sp Let_def)
qed

section \<open>The parser on texts\<close>

abbreviation "word_of m \<equiv> (\<lambda>(q, eq). slice q (eq - q) m)"

lemma word_ok_hd: "word_ok w \<Longrightarrow> w \<noteq> [] \<and> plain (hd w)"
  by (cases w) (auto simp: word_ok_def)

lemma plain_not: "plain c \<Longrightarrow> c \<notin> set whitespace \<and> c \<notin> {40, 41, 59, 38, 124, 60, 62}"
  by (auto simp: plain_def symbols_def)

lemma redir_hd: "hd (redir_text d @ x) \<in> {60, 62}" "redir_text d \<noteq> []"
  by (cases d; simp)+

lemma hd_redirs: "r = [] \<or> hd r \<in> A \<Longrightarrow> redirs_text rs @ r = [] \<or> hd (redirs_text rs @ r) \<in> insert 60 (insert 62 A)"
proof (cases rs)
  case (Cons d ds)
  then show ?thesis using redir_hd(1) [of d "redirs_text ds @ r"] by auto
qed auto

lemma trimmed_redirs: "trimmed r \<Longrightarrow> trimmed (redirs_text rs @ r)"
  using hd_redirs [of r "- set whitespace" rs] by (auto simp: whitespace_def)

lemma redir_at:
  assumes a: "at m es s (redir_text d @ r)" and d: "redir_ok d" and r: "trimmed r"
  shows "\<exists>tok q eq s1 s2. peek m es ''<>'' s = (True, s) \<and> gettoken m es s = (tok, s, q, s1) \<and>
    gettoken m es s1 = (of_char (CHR ''a''), s1, eq, s2) \<and> s < s2 \<and> at m es s2 r \<and>
    tok \<in> {of_char (CHR ''<''), of_char (CHR ''>''), of_char (CHR ''+'')} \<and>
    (\<forall>c. redir_cmd d (map_cmd (word_of m) c) = map_cmd (word_of m)
       (if tok = of_char (CHR ''<'') then REDIR c (s1, eq) RDONLY 0
        else if tok = of_char (CHR ''>'') then REDIR c (s1, eq) WRONLY_CREATE 1
        else if tok = of_char (CHR ''+'') then REDIR c (s1, eq) WRONLY_CREATE 1 else c))"
proof -
  have word: "\<exists>eq s2. gettoken m es s1 = (of_char (CHR ''a''), s1, eq, s2) \<and> s1 < s2 \<and> at m es s2 r \<and> slice s1 (eq - s1) m = w"
    if "at m es s1 (w @ 32 # r)" "word_ok w" for w s1
  proof -
    have "at m es (s1 + length w) (32 # r)" by (rule at_append [OF that(1)])
    then have "at m es (s1 + length w + 1) r" using at_Cons by auto
    then show ?thesis using gettoken_word [OF that r] at_slice [OF that(1)] by simp
  qed
  have tr: "trimmed (w @ 32 # r)" if "word_ok w" for w using word_ok_hd [OF that] plain_not by auto
  show ?thesis
  proof (cases d)
    case (In w)
    with a d have a1: "at m es s (60 # 32 # w @ 32 # r)" and w: "word_ok w" by simp_all
    have a2: "at m es (s + 2) (w @ 32 # r)" using at_append [of m es s "[60, 32]"] a1 by simp
    from word [OF a2 w] gettoken_sym [OF a1 _ tr [OF w]] peek_at [OF a1] show ?thesis
      by (auto simp: In symbols_def whitespace_def)
  next
    case (Out w)
    with a d have a1: "at m es s (62 # 32 # w @ 32 # r)" and w: "word_ok w" by simp_all
    have a2: "at m es (s + 2) (w @ 32 # r)" using at_append [of m es s "[62, 32]"] a1 by simp
    from word [OF a2 w] gettoken_sym [OF a1 _ tr [OF w]] peek_at [OF a1] show ?thesis
      by (auto simp: Out symbols_def whitespace_def)
  next
    case (App w)
    with a d have a1: "at m es s (62 # 62 # 32 # w @ 32 # r)" and w: "word_ok w" by simp_all
    have a2: "at m es (s + 3) (w @ 32 # r)" using at_append [of m es s "[62, 62, 32]"] a1 by (simp add: numeral_3_eq_3)
    from word [OF a2 w] gettoken_append [OF a1 tr [OF w]] peek_at [OF a1] show ?thesis
      by (auto simp: App symbols_def whitespace_def)
  qed
qed

lemma parseredirs_text:
  "at m es s (redirs_text rs @ r) \<Longrightarrow> list_all redir_ok rs \<Longrightarrow> trimmed r \<Longrightarrow> r = [] \<or> hd r \<notin> {60, 62} \<Longrightarrow> es < n + s \<Longrightarrow>
   \<exists>c' s'. parseredirs n m es c s = Ok c' s' \<and> s \<le> s' \<and> at m es s' r \<and> map_cmd (word_of m) c' = fold redir_cmd rs (map_cmd (word_of m) c)"
proof (induction rs arbitrary: n c s)
  case Nil
  then obtain n' where "n = Suc n'" by (cases n) (auto simp: at_def)
  with Nil show ?case using peek_at [of m es s r "''<>''"] by auto
next
  case (Cons d rs)
  have n: "n \<noteq> 0" using Cons.prems(1,5) by (auto simp: at_def)
  then obtain n' where n': "n = Suc n'" by (cases n) auto
  have tr: "trimmed (redirs_text rs @ r)" by (rule trimmed_redirs [OF Cons.prems(3)])
  from redir_at [of m es s d "redirs_text rs @ r"] Cons.prems(1,2) tr
  obtain tok q eq s1 s2 where t: "peek m es ''<>'' s = (True, s)" "gettoken m es s = (tok, s, q, s1)"
    "gettoken m es s1 = (of_char (CHR ''a''), s1, eq, s2)" "s < s2" "at m es s2 (redirs_text rs @ r)"
    and c': "redir_cmd d (map_cmd (word_of m) c) = map_cmd (word_of m)
       (if tok = of_char (CHR ''<'') then REDIR c (s1, eq) RDONLY 0
        else if tok = of_char (CHR ''>'') then REDIR c (s1, eq) WRONLY_CREATE 1
        else if tok = of_char (CHR ''+'') then REDIR c (s1, eq) WRONLY_CREATE 1 else c)" (is "_ = map_cmd _ ?c")
    by auto
  have "parseredirs n m es c s = parseredirs n' m es ?c s2" by (simp add: n' t)
  with Cons.IH [OF t(5) _ Cons.prems(3,4), of n' ?c] Cons.prems(2,5) t(4) n' c' show ?case by auto
qed

abbreviation "args_text as \<equiv> concat (map (\<lambda>(w, rs). w @ [32] @ redirs_text rs) as)"

lemma add_arg_map: "add_arg (f w) (map_cmd f c) = map_cmd f (add_arg w c)"
  by (induction w c rule: add_arg.induct) simp_all

lemma add_arg_redirs: "add_arg w (fold redir_cmd rs (EXEC ws)) = fold redir_cmd rs (EXEC (ws @ [w]))"
proof (induction rs rule: rev_induct)
  case (snoc d rs)
  then show ?case by (cases d) simp_all
qed simp

lemma args_hd:
  assumes "list_all (\<lambda>(w, rs). word_ok w \<and> list_all redir_ok rs) as" "r = [] \<or> hd r \<in> {124, 41, 38, 59}"
  shows "args_text as @ r = [] \<or> plain (hd (args_text as @ r)) \<or> hd (args_text as @ r) \<in> {124, 41, 38, 59}"
  using assms word_ok_hd by (cases as) (fastforce simp: hd_append)+

lemma stop_trimmed: "r = [] \<or> plain (hd r) \<or> hd r \<in> {124, 41, 38, 59} \<Longrightarrow> trimmed r \<and> (r = [] \<or> hd r \<notin> {60, 62, 40})"
  using plain_not [of "hd r"] by (auto simp: whitespace_def)

lemma parseargs_text:
  "at m es s (args_text as @ r) \<Longrightarrow> list_all (\<lambda>(w, rs). word_ok w \<and> list_all redir_ok rs) as \<Longrightarrow> r = [] \<or> hd r \<in> {124, 41, 38, 59} \<Longrightarrow>
   es < n + s \<Longrightarrow> argc + length as < MAXARGS \<Longrightarrow> map_cmd (word_of m) c = fold redir_cmd rs (EXEC ws) \<Longrightarrow>
   \<exists>c' s'. parseargs n m es argc c s = Ok c' s' \<and> s \<le> s' \<and> at m es s' r \<and>
     map_cmd (word_of m) c' = fold redir_cmd (rs @ concat (map snd as)) (EXEC (ws @ map fst as))"
proof (induction as arbitrary: n argc c s rs ws)
  case Nil
  then obtain n' where n': "n = Suc n'" by (cases n) (auto simp: at_def)
  have a: "at m es s r" using Nil.prems(1) by simp
  have p: "peek m es ''|)&;'' s = (r \<noteq> [], s)" using Nil.prems(3) peek_at [OF a, of "''|)&;''"] by (auto simp: whitespace_def)
  show ?case
  proof (cases "r = []")
    case True
    have z: "m ! es = 0" "s = es" using a True by (auto simp: at_end line_def)
    have "gettoken m es s = (0, es, es, es)" by (simp add: gettoken_def z skip.simps)
    with p True a Nil.prems(6) show ?thesis by (simp add: n' z)
  qed (use p a Nil.prems(6) in \<open>simp add: n'\<close>)
next
  case (Cons x as)
  obtain w ds where x: "x = (w, ds)" by (cases x)
  have w: "word_ok w" "list_all redir_ok ds" using Cons.prems(2) x by auto
  obtain n' where n': "n = Suc n'" using Cons.prems(1,4) by (cases n) (auto simp: at_def)
  let ?r = "redirs_text ds @ args_text as @ r"
  note h = args_hd [OF _ Cons.prems(3), of as]
  have st: "trimmed (args_text as @ r)" "args_text as @ r = [] \<or> hd (args_text as @ r) \<notin> {60, 62}"
    using stop_trimmed [OF h] Cons.prems(2) by auto
  have a: "at m es s (w @ 32 # ?r)" using Cons.prems(1) by (simp add: x)
  have p: "peek m es ''|)&;'' s = (False, s)"
    using peek_at [OF a, of "''|)&;''"] word_ok_hd [OF w(1)] plain_not [of "hd w"] by auto
  note g = gettoken_word [OF a w(1) trimmed_redirs [OF st(1)]]
  have a1: "at m es (s + length w + 1) ?r" using at_Cons [OF at_append [OF a]] by simp
  obtain c1 s1 where c1: "parseredirs (es + 1) m es (add_arg (s, s + length w) c) (s + length w + 1) = Ok c1 s1" "s + length w + 1 \<le> s1"
    "at m es s1 (args_text as @ r)" "map_cmd (word_of m) c1 = fold redir_cmd ds (map_cmd (word_of m) (add_arg (s, s + length w) c))"
    using parseredirs_text [OF a1 w(2) st, of "es + 1" "add_arg (s, s + length w) c"] by auto
  have "map_cmd (word_of m) c1 = fold redir_cmd (rs @ ds) (EXEC (ws @ [w]))"
    using c1(4) at_slice [OF a] by (simp add: add_arg_map [symmetric] Cons.prems(6) add_arg_redirs)
  from Cons.IH [OF c1(3) _ Cons.prems(3) _ _ this, of n' "argc + 1"] Cons.prems(2,4,5) c1(2) n'
  obtain c' s' where "parseargs n' m es (argc + 1) c1 s1 = Ok c' s'" "s1 \<le> s'" "at m es s' r"
    "map_cmd (word_of m) c' = fold redir_cmd ((rs @ ds) @ concat (map snd as)) (EXEC ((ws @ [w]) @ map fst as))" by auto
  then show ?case using Cons.prems(5) c1(1,2) by (auto simp: n' p g x Let_def simp del: parseredirs.simps)
qed

abbreviation "amps n \<equiv> concat (replicate n [38, 32 :: byte])"

lemma parseback_text:
  "at m es s (amps k @ r) \<Longrightarrow> r = [] \<or> hd r \<in> {41, 59} \<Longrightarrow> es < n + s \<Longrightarrow>
   \<exists>s'. parseback n m es c s = Ok ((BACK ^^ k) c) s' \<and> s \<le> s' \<and> at m es s' r"
proof (induction k arbitrary: n c s)
  case 0
  then obtain n' where "n = Suc n'" by (cases n) (auto simp: at_def)
  with 0 show ?case using peek_at [of m es s r "''&''"] by (auto simp: whitespace_def)
next
  case (Suc k)
  obtain n' where n': "n = Suc n'" using Suc.prems(1,3) by (cases n) (auto simp: at_def)
  have a: "at m es s (38 # 32 # amps k @ r)" using Suc.prems(1) by simp
  have tr: "trimmed (amps k @ r)" using Suc.prems(2) by (cases k) (auto simp: whitespace_def)
  have a2: "at m es (s + 2) (amps k @ r)" using at_append [of m es s "[38, 32]"] a by simp
  have "parseback n m es c s = parseback n' m es (BACK c) (s + 2)"
    using peek_at [OF a, of "''&''"] gettoken_sym [OF a _ tr] by (simp add: n' whitespace_def symbols_def)
  with Suc.IH [OF a2 Suc.prems(2), of n' "BACK c"] Suc.prems(3) n' show ?case by (auto simp: funpow_swap1)
qed

lemma text_hd:
  "line_ok l \<Longrightarrow> r = [] \<or> hd r \<in> set symbols \<Longrightarrow> line_text l @ r = [] \<or> plain (hd (line_text l @ r)) \<or> hd (line_text l @ r) \<in> set symbols"
  "pipe_ok p \<Longrightarrow> r = [] \<or> hd r \<in> set symbols \<Longrightarrow> pipe_text p @ r = [] \<or> plain (hd (pipe_text p @ r)) \<or> hd (pipe_text p @ r) \<in> set symbols"
  "exec_ok e \<Longrightarrow> r = [] \<or> hd r \<in> set symbols \<Longrightarrow> exec_text e @ r = [] \<or> plain (hd (exec_text e @ r)) \<or> hd (exec_text e @ r) \<in> set symbols"
proof (induction l and p and e arbitrary: r and r and r)
  case (SEnd p n)
  have "amps n @ r = [] \<or> hd (amps n @ r) \<in> set symbols" using SEnd.prems(2) by (cases n) (auto simp: symbols_def)
  from SEnd.IH [OF _ this] SEnd.prems(1) show ?case by simp
next
  case (SSeq p n l)
  have "amps n @ 59 # 32 # line_text l @ r = [] \<or> hd (amps n @ 59 # 32 # line_text l @ r) \<in> set symbols" by (cases n) (auto simp: symbols_def)
  from SSeq.IH(1) [OF _ this] SSeq.prems(1) show ?case by simp
next
  case (SBar e p)
  show ?case using SBar.IH(1) [of "124 # 32 # pipe_text p @ r"] SBar.prems(1) by (simp add: symbols_def)
next
  case (SCmd rs as)
  have "args_text as @ r = [] \<or> hd (args_text as @ r) \<in> Collect plain \<union> set symbols"
    using SCmd.prems word_ok_hd by (cases as) (fastforce simp: hd_append)+
  from hd_redirs [OF this, of rs] show ?case by (auto simp: symbols_def)
qed (auto simp: symbols_def)

lemma text_trimmed: "r = [] \<or> plain (hd r) \<or> hd r \<in> set symbols \<Longrightarrow> trimmed r"
  using plain_not [of "hd r"] by (auto simp: symbols_def whitespace_def)

text \<open>Reading one symbol followed by a space.\<close>

lemma symbol_at:
  assumes a: "at m es s (of_char c # 32 # r)" and r: "r = [] \<or> plain (hd r) \<or> hd r \<in> set symbols"
    and t: "c \<in> set toks \<and> of_char c \<in> set symbols"
  shows "peek m es toks s = (True, s)" "\<exists>q eq. gettoken m es s = (of_char c, q, eq, s + 2)" "at m es (s + 2) r" "s + 2 \<le> es"
proof -
  note c = conjunct2 [OF t]
  have "trimmed (of_char c # 32 # r)" using c by (auto simp: symbols_def whitespace_def)
  then show "peek m es toks s = (True, s)" using peek_at [OF a] t by auto
  show "\<exists>q eq. gettoken m es s = (of_char c, q, eq, s + 2)" using gettoken_sym [OF a c text_trimmed [OF r]] by blast
  show "at m es (s + 2) r" using at_append [of m es s "[of_char c, 32]"] a by simp
  then show "s + 2 \<le> es" by (simp add: at_def)
qed

lemma parse_cmd_text:
  assumes a: "at m es s (redirs_text rs @ args_text as @ r)" and ok: "exec_ok (SCmd rs as)" and r: "r = [] \<or> hd r \<in> {124, 41, 38, 59}"
  shows "\<exists>c s'. parse (Suc n) m es Exec s = Ok c s' \<and> s \<le> s' \<and> at m es s' r \<and> map_cmd (word_of m) c = exec_cmd (SCmd rs as)"
proof -
  have ok': "list_all redir_ok rs" "list_all (\<lambda>(w, rs). word_ok w \<and> list_all redir_ok rs) as" "length as < MAXARGS" using ok by simp_all
  note h = stop_trimmed [OF args_hd [OF ok'(2) r]]
  have "redirs_text rs @ args_text as @ r = [] \<or> hd (redirs_text rs @ args_text as @ r) \<in> insert 60 (insert 62 (- {40} \<inter> - set whitespace))"
    using h by (intro hd_redirs) auto
  then have p: "peek m es ''('' s = (False, s)" using peek_at [OF a, of "''(''"] by (auto simp: whitespace_def)
  obtain c1 s1 where c1: "parseredirs (es + 1) m es (EXEC []) s = Ok c1 s1" "s \<le> s1" "at m es s1 (args_text as @ r)"
    "map_cmd (word_of m) c1 = fold redir_cmd rs (EXEC [])"
    using parseredirs_text [OF a ok'(1), of "es + 1" "EXEC []"] h by auto
  with parseargs_text [OF c1(3) ok'(2) r _ _ c1(4), of "es + 1" 0] ok'(3)
  obtain c s' where "parseargs (es + 1) m es 0 c1 s1 = Ok c s'" "s1 \<le> s'" "at m es s' r"
    "map_cmd (word_of m) c = fold redir_cmd (rs @ concat (map snd as)) (EXEC (map fst as))" by auto
  with c1(1,2) p show ?thesis by (auto simp: parseexec_def simp del: parseredirs.simps parseargs.simps)
qed

lemma parse_text:
  "line_ok l \<Longrightarrow> at m es s (line_text l @ r) \<Longrightarrow> r = [] \<or> hd r = 41 \<Longrightarrow> 4 * (es - s) + 4 \<le> n \<Longrightarrow>
     \<exists>c s'. parse n m es Line s = Ok c s' \<and> s \<le> s' \<and> at m es s' r \<and> map_cmd (word_of m) c = line_cmd l"
  "pipe_ok p \<Longrightarrow> at m es s (pipe_text p @ r) \<Longrightarrow> r = [] \<or> hd r \<in> {41, 38, 59} \<Longrightarrow> 4 * (es - s) + 3 \<le> n \<Longrightarrow>
     \<exists>c s'. parse n m es Pipe s = Ok c s' \<and> s \<le> s' \<and> at m es s' r \<and> map_cmd (word_of m) c = pipe_cmd p"
  "exec_ok e \<Longrightarrow> at m es s (exec_text e @ r) \<Longrightarrow> r = [] \<or> hd r \<in> {124, 41, 38, 59} \<Longrightarrow> 4 * (es - s) + 2 \<le> n \<Longrightarrow>
     \<exists>c s'. parse n m es Exec s = Ok c s' \<and> s \<le> s' \<and> at m es s' r \<and> map_cmd (word_of m) c = exec_cmd e"
proof (induction l and p and e arbitrary: s r n and s r n and s r n)
  case (SEnd p k)
  obtain n' where n: "n = Suc n'" using SEnd.prems(4) by (cases n) auto
  have "amps k @ r = [] \<or> hd (amps k @ r) \<in> {41, 38, 59}" using SEnd.prems(3) by (cases k) auto
  from SEnd.IH [OF _ _ this, of s n'] SEnd.prems n obtain c1 s1 where c1: "parse n' m es Pipe s = Ok c1 s1" "s \<le> s1" "at m es s1 (amps k @ r)"
    "map_cmd (word_of m) c1 = pipe_cmd p" by auto
  from parseback_text [OF c1(3), of "es + 1" c1] SEnd.prems(3) obtain s2 where
    s2: "parseback (es + 1) m es c1 s1 = Ok ((BACK ^^ k) c1) s2" "s1 \<le> s2" "at m es s2 r" by auto
  have p: "peek m es '';'' s2 = (False, s2)" using peek_at [OF s2(3), of "'';''"] SEnd.prems(3) by (auto simp: whitespace_def)
  have "map_cmd (word_of m) ((BACK ^^ k) c1) = (BACK ^^ k) (pipe_cmd p)" using c1(4) by (induction k) simp_all
  with c1 s2 p show ?case by (auto simp: n parseline_def simp del: parseback.simps)
next
  case (SSeq p k l)
  obtain n' where n: "n = Suc n'" using SSeq.prems(4) by (cases n) auto
  let ?r = "of_char (CHR '';'') # 32 # line_text l @ r"
  have "amps k @ ?r = [] \<or> hd (amps k @ ?r) \<in> {41, 38, 59}" by (cases k) auto
  from SSeq.IH(1) [OF _ _ this, of s n'] SSeq.prems n obtain c1 s1 where c1: "parse n' m es Pipe s = Ok c1 s1" "s \<le> s1" "at m es s1 (amps k @ ?r)"
    "map_cmd (word_of m) c1 = pipe_cmd p" by auto
  from parseback_text [OF c1(3), of "es + 1" c1] obtain s2 where
    s2: "parseback (es + 1) m es c1 s1 = Ok ((BACK ^^ k) c1) s2" "s1 \<le> s2" "at m es s2 ?r" by auto
  have h: "line_text l @ r = [] \<or> plain (hd (line_text l @ r)) \<or> hd (line_text l @ r) \<in> set symbols"
    using SSeq.prems by (intro text_hd(1)) (auto simp: symbols_def)
  have t: "CHR '';'' \<in> set '';'' \<and> of_char (CHR '';'') \<in> set symbols" by (simp add: symbols_def)
  note s3 = symbol_at [OF s2(3) h t]
  have le: "4 * (es - (s2 + 2)) + 4 \<le> n'" using SSeq.prems(4) n c1(2) s2(2) s3(4) by simp
  from SSeq.IH(2) [OF _ s3(3) SSeq.prems(3) le] SSeq.prems(1) obtain c3 s4 where
    c3: "parse n' m es Line (s2 + 2) = Ok c3 s4" "s2 + 2 \<le> s4" "at m es s4 r" "map_cmd (word_of m) c3 = line_cmd l"
    by (auto simp: symbols_def)
  have "map_cmd (word_of m) ((BACK ^^ k) c1) = (BACK ^^ k) (pipe_cmd p)" using c1(4) by (induction k) simp_all
  with c1 s2 s3 c3 show ?case by (auto simp: n parseline_def symbols_def simp del: parseback.simps)
next
  case (SOne e)
  obtain n' where n: "n = Suc n'" using SOne.prems(4) by (cases n) auto
  from SOne.IH [of s r n'] SOne.prems n obtain c1 s1 where c1: "parse n' m es Exec s = Ok c1 s1" "s \<le> s1" "at m es s1 r"
    "map_cmd (word_of m) c1 = exec_cmd e" by auto
  have p: "peek m es ''|'' s1 = (False, s1)" using peek_at [OF c1(3), of "''|''"] SOne.prems(3) by (auto simp: whitespace_def)
  with c1 show ?case by (auto simp: n parsepipe_def)
next
  case (SBar e p)
  obtain n' where n: "n = Suc n'" using SBar.prems(4) by (cases n) auto
  let ?r = "of_char (CHR ''|'') # 32 # pipe_text p @ r"
  from SBar.IH(1) [of s ?r n'] SBar.prems n obtain c1 s1 where c1: "parse n' m es Exec s = Ok c1 s1" "s \<le> s1" "at m es s1 ?r"
    "map_cmd (word_of m) c1 = exec_cmd e" by auto
  have h: "pipe_text p @ r = [] \<or> plain (hd (pipe_text p @ r)) \<or> hd (pipe_text p @ r) \<in> set symbols"
    using SBar.prems by (intro text_hd(2)) (auto simp: symbols_def)
  have t: "CHR ''|'' \<in> set ''|'' \<and> of_char (CHR ''|'') \<in> set symbols" by (simp add: symbols_def)
  note s3 = symbol_at [OF c1(3) h t]
  have le: "4 * (es - (s1 + 2)) + 3 \<le> n'" using SBar.prems(4) n c1(2) s3(4) by simp
  from SBar.IH(2) [OF _ s3(3) SBar.prems(3) le] SBar.prems(1) obtain c3 s4 where
    c3: "parse n' m es Pipe (s1 + 2) = Ok c3 s4" "s1 + 2 \<le> s4" "at m es s4 r" "map_cmd (word_of m) c3 = pipe_cmd p"
    by (auto simp: symbols_def)
  with c1 s3 show ?case by (auto simp: n parsepipe_def symbols_def)
next
  case (SCmd rs as)
  then obtain n' where n: "n = Suc n'" by (cases n) auto
  have "at m es s (redirs_text rs @ args_text as @ r)" using SCmd.prems(2) by simp
  from parse_cmd_text [OF this SCmd.prems(1,3)] show ?case unfolding n .
next
  case (SBlock l rs)
  then obtain n' where n: "n = Suc (Suc n')" by (cases n; cases "n - 1") auto
  let ?r = "of_char (CHR '')'') # 32 # redirs_text rs @ r"
  have a: "at m es s (of_char (CHR ''('') # 32 # line_text l @ ?r)" using SBlock.prems(2) by simp
  have h: "line_text l @ ?r = [] \<or> plain (hd (line_text l @ ?r)) \<or> hd (line_text l @ ?r) \<in> set symbols"
    using SBlock.prems(1) by (intro text_hd(1)) (auto simp: symbols_def)
  have t: "CHR ''('' \<in> set ''('' \<and> of_char (CHR ''('') \<in> set symbols" by (simp add: symbols_def)
  note s1 = symbol_at [OF a h t]
  have le: "4 * (es - (s + 2)) + 4 \<le> n'" using SBlock.prems(4) n s1(4) by simp
  from SBlock.IH [of "s + 2" ?r n'] s1(3) le SBlock.prems(1) obtain c2 s2 where
    c2: "parse n' m es Line (s + 2) = Ok c2 s2" "s + 2 \<le> s2" "at m es s2 ?r" "map_cmd (word_of m) c2 = line_cmd l"
    by (auto simp: symbols_def)
  have h: "redirs_text rs @ r = [] \<or> plain (hd (redirs_text rs @ r)) \<or> hd (redirs_text rs @ r) \<in> set symbols"
    using hd_redirs [of r "set symbols" rs] SBlock.prems(3) by (auto simp: symbols_def)
  have t: "CHR '')'' \<in> set '')'' \<and> of_char (CHR '')'') \<in> set symbols" by (simp add: symbols_def)
  note s3 = symbol_at [OF c2(3) h t]
  obtain c' s' where "parseredirs (es + 1) m es c2 (s2 + 2) = Ok c' s'" "s2 + 2 \<le> s'" "at m es s' r"
    "map_cmd (word_of m) c' = fold redir_cmd rs (line_cmd l)"
    using parseredirs_text [of m es "s2 + 2" rs r "es + 1" c2] s3(3) SBlock.prems(1,3) c2(4) by (auto simp: symbols_def whitespace_def)
  with s1 c2 s3 show ?case by (auto simp: n parseexec_def parseblock_def symbols_def simp del: parseredirs.simps)
qed

lemma text_nonzero:
  "line_ok l \<Longrightarrow> 0 \<notin> set (line_text l)" "pipe_ok p \<Longrightarrow> 0 \<notin> set (pipe_text p)" "exec_ok e \<Longrightarrow> 0 \<notin> set (exec_text e)"
proof (induction l and p and e)
  have w: "word_ok w \<Longrightarrow> 0 \<notin> set w" for w by (auto simp: word_ok_def list_all_iff plain_def)
  have r: "redir_ok d \<Longrightarrow> 0 \<notin> set (redir_text d)" for d using w by (cases d) auto
  case (SCmd rs as)
  with w r show ?case by (fastforce simp: list_all_iff)
next
  have w: "word_ok w \<Longrightarrow> 0 \<notin> set w" for w by (auto simp: word_ok_def list_all_iff plain_def)
  have r: "redir_ok d \<Longrightarrow> 0 \<notin> set (redir_text d)" for d using w by (cases d) auto
  case (SBlock l rs)
  with r show ?case by (fastforce simp: list_all_iff)
qed auto

lemma set_strings: "set_cmd c = set (strings c)"
  by (induction c) auto

section \<open>Round trip\<close>

text \<open>C17: The shell reads what is written: the text of any command line of the grammar (commands with up to nine words, redirections, blocks,
  pipelines, background and sequence, nested in any way) is accepted, and the command built from it, with the strings read from the
  buffer after \<open>nulterminate\<close>, is the one the text stands for.\<close>

theorem parsecmd_inverts_text:
  assumes "line_ok l"
  shows "\<exists>c m' es. parsecmd (line_text l @ 0 # rest) = Ok (c, m') es \<and> map_cmd (\<lambda>(q, eq). cstr m' q) c = line_cmd l"
proof -
  define m es where "m = line_text l @ 0 # rest" and "es = length (line_text l)"
  have es: "length (takeWhile (\<lambda>c. c \<noteq> 0) m) = es"
  proof -
    have "c \<noteq> 0" if "c \<in> set (line_text l)" for c using text_nonzero(1) [OF assms] that by auto
    then show ?thesis by (simp add: m_def es_def takeWhile_append2)
  qed
  have l: "line m es" using line_strlen [of m] es by (simp add: m_def)
  have a: "at m es 0 (line_text l @ [])" using l by (simp add: at_def m_def es_def)
  from parse_text(1) [OF assms a, of "4 * es + 4"] obtain c s where
    c: "parse (4 * es + 4) m es Line 0 = Ok c s" "at m es s []" "map_cmd (word_of m) c = line_cmd l" by auto
  have s: "s = es" using c(2) by (simp add: at_end)
  have "parsed m es 0 (\<lambda>_. True) (parse (4 * es + 4) m es Line 0)" by (rule parse_total [OF l]) simp_all
  then have ok: "cmd_ok m es c" by (simp add: c(1))
  have p: "peek m es '''' es = (False, es)" using peek_at [OF c(2), of "''''"] s by simp
  have "parsecmd m = Ok (c, nulterminate c m) es" using c(1) p by (simp add: parsecmd_def es s)
  moreover have "map_cmd (\<lambda>(q, eq). cstr (nulterminate c m) q) c = map_cmd (word_of m) c"
    using nulterminate_cstr [OF l ok] by (intro cmd.map_cong) (auto simp: set_strings)
  ultimately show ?thesis using c(3) by (auto simp: m_def)
qed

definition sample_line :: sline where
  "sample_line = SSeq (SBar (SCmd [] [(map of_char ''cat'', []), (map of_char ''f'', [])]) (SOne (SCmd [] [(map of_char ''wc'', [Out (map of_char ''n'')])])))
     1 (SEnd (SOne (SBlock (SEnd (SOne (SCmd [] [(map of_char ''ls'', [])])) 0) [])) 0)"

theorem parsecmd_inverts_text_witness:
  "line_text sample_line = map of_char ''cat f | wc > n & ; ( ls ) '' \<and>
   (\<exists>c m' es. parsecmd (line_text sample_line @ [0]) = Ok (c, m') es \<and>
      map_cmd (\<lambda>(q, eq). cstr m' q) c =
        LIST (BACK (PIPE (EXEC [map of_char ''cat'', map of_char ''f'']) (REDIR (EXEC [map of_char ''wc'']) (map of_char ''n'') WRONLY_CREATE 1)))
          (EXEC [map of_char ''ls'']))"
proof -
  have "line_ok sample_line" by (simp add: sample_line_def word_ok_def plain_def whitespace_def symbols_def)
  from parsecmd_inverts_text [OF this, of "[]"] show ?thesis by (simp add: sample_line_def)
qed

end
