(* ===== verification/Shell.thy ===== *)
theory Shell
  imports Shparse Fdrefs
begin

text \<open>
  The rest of the shell, \<open>user/sh.c\<close>: \<open>runcmd\<close>, \<open>getcmd\<close> and \<open>main\<close>. What a process of the shell does is the tree of its
  system calls, branching on their results; a \<open>fork\<close> has a subtree for the child and one for the parent. The text printed before
  a syntax error and the prompt are left out. \<open>run_fds\<close> executes the descriptor calls of such a tree on the kernel model.
\<close>

section \<open>System-call trees\<close>

datatype 'w prog =
    PExit
  | PExec "'w list" "'w prog"
  | POpen 'w int "int \<Rightarrow> 'w prog"
  | PClose int "'w prog"
  | PDup int "'w prog"
  | PPipe "int \<Rightarrow> int \<Rightarrow> int \<Rightarrow> 'w prog"
  | PFork "'w prog" "'w prog" "'w prog"
  | PWait "'w prog"
  | PChdir 'w "int \<Rightarrow> 'w prog"
  | PPrint string "'w prog"

definition sh_panic :: "string \<Rightarrow> 'w prog" where
  "sh_panic s = PPrint s PExit"

text \<open>\<open>fork1\<close>: the child's tree, the parent's, and the panic when \<open>fork\<close> returns -1.\<close>

definition fork1 :: "'w prog \<Rightarrow> 'w prog \<Rightarrow> 'w prog" where
  "fork1 child par = PFork child par (sh_panic ''fork'')"

section \<open>Running a command\<close>

definition pipe_left :: "int \<Rightarrow> int \<Rightarrow> 'w prog \<Rightarrow> 'w prog" where
  "pipe_left p0 p1 c = PClose 1 (PDup p1 (PClose p0 (PClose p1 c)))"

definition pipe_right :: "int \<Rightarrow> int \<Rightarrow> 'w prog \<Rightarrow> 'w prog" where
  "pipe_right p0 p1 c = PClose 0 (PDup p0 (PClose p0 (PClose p1 c)))"

fun runcmd :: "'w cmd \<Rightarrow> 'w prog" where
  "runcmd (EXEC argv) = (if argv = [] then PExit else PExec argv PExit)"
| "runcmd (REDIR c file mode fd) = PClose fd (POpen file mode (\<lambda>r. if r < 0 then PExit else runcmd c))"
| "runcmd (LIST left right) = fork1 (runcmd left) (PWait (runcmd right))"
| "runcmd (PIPE left right) =
     PPipe (\<lambda>r p0 p1.
       if r < 0 then sh_panic ''pipe''
       else fork1 (pipe_left p0 p1 (runcmd left))
              (fork1 (pipe_right p0 p1 (runcmd right))
                 (PClose p0 (PClose p1 (PWait (PWait PExit))))))"
| "runcmd (BACK c) = fork1 (runcmd c) PExit"

section \<open>The main loop\<close>

text \<open>The buffer of \<open>nbuf\<close> zeroed bytes after \<open>gets\<close> on the input \<open>inp\<close>, and the rest of the input; \<open>None\<close> at the end of the input.\<close>

definition getcmd :: "nat \<Rightarrow> byte list \<Rightarrow> (byte list \<times> byte list) option" where
  "getcmd nbuf inp =
     (let (l, r) = gets (int nbuf) inp;
          buf = l @ replicate (nbuf - length l) 0
      in if buf ! 0 = 0 then None else Some (buf, r))"

text \<open>One round of the loop: \<open>cd\<close> is done by the shell itself, any other line by a child.\<close>

definition sh_round :: "byte list \<Rightarrow> byte list prog \<Rightarrow> byte list prog" where
  "sh_round buf next =
     (if buf ! 0 = of_char (CHR ''c'') \<and> buf ! 1 = of_char (CHR ''d'') \<and> buf ! 2 = of_char (CHR '' '')
      then let dir = butlast (drop 3 (cstr buf 0))
           in PChdir dir (\<lambda>r. if r < 0 then PPrint ''cannot cd'' next else next)
      else fork1 (case parsecmd buf of
                    Ok (c, m) _ \<Rightarrow> runcmd (map_cmd (\<lambda>(q, eq). cstr m q) c)
                  | Panic s \<Rightarrow> sh_panic s
                  | _ \<Rightarrow> PExit)
             (PWait next))"

primrec sh_loop :: "nat \<Rightarrow> byte list \<Rightarrow> byte list prog" where
  "sh_loop 0 inp = PExit"
| "sh_loop (Suc n) inp = (case getcmd 100 inp of None \<Rightarrow> PExit | Some (buf, inp) \<Rightarrow> sh_round buf (sh_loop n inp))"

text \<open>The loop that opens the console until three descriptors are open.\<close>

primrec open_console :: "nat \<Rightarrow> byte list prog \<Rightarrow> byte list prog" where
  "open_console 0 next = next"
| "open_console (Suc n) next =
     POpen (map of_char ''console'') 2 (\<lambda>fd. if fd < 0 then next else if fd \<ge> 3 then PClose fd next else open_console n next)"

definition sh_main :: "byte list \<Rightarrow> byte list prog" where
  "sh_main inp = open_console 4 (sh_loop (length inp + 1) inp)"

section \<open>Descriptors\<close>

fun run_fds :: "'w prog \<Rightarrow> kernel \<Rightarrow> (kernel, 'w prog) res" where
  "run_fds (PClose fd p) k = bnd (fileclose fd k) (\<lambda>_ k. run_fds p k)"
| "run_fds (PDup fd p) k = bnd (filedup fd k) (\<lambda>_ k. run_fds p k)"
| "run_fds p k = Ok p k"

section \<open>The fuel of the main loop\<close>

lemma getcmd_consumes:
  assumes "getcmd nbuf inp = Some (buf, r)"
  shows "length r < length inp"
proof -
  obtain bs rest where g: "gets_loop (nat (int nbuf - 1)) inp = (bs, rest)" by force
  have "inp = bs @ rest" using gets_loop_split [OF g] by simp
  moreover have "r = rest" "bs \<noteq> []" using assms g by (auto simp: getcmd_def gets_def Let_def split: if_splits)
  ultimately show ?thesis by simp
qed

lemma sh_loop_fuel: "length inp < n \<Longrightarrow> length inp < n' \<Longrightarrow> sh_loop n inp = sh_loop n' inp"
proof (induction n arbitrary: inp n')
  case (Suc n)
  obtain j where j: "n' = Suc j" using Suc.prems(2) by (cases n') auto
  show ?case
  proof (cases "getcmd 100 inp")
    case (Some x)
    then obtain buf r where x: "getcmd 100 inp = Some (buf, r)" by (cases x) auto
    from getcmd_consumes [OF this] Suc.prems j have "sh_loop n r = sh_loop j r" by (intro Suc.IH) simp_all
    then show ?thesis by (simp add: j x)
  qed (simp add: j)
qed simp

section \<open>Pipelines\<close>

lemma close_run:
  assumes "held k = {}" "curproc k = Some p" "fd < NOFILE" "pftable (ptable k ! p) ! fd = Some i"
    "isPipe (ftable k ! i) \<or> f_iptr (ftable k ! i) \<noteq> None"
  shows "\<exists>k1. run_fds (PClose (int fd) q) k = run_fds q (set_fd p fd None k1) \<and> ptable k1 = ptable k \<and> curproc k1 = Some p \<and> held k1 = {} \<and>
    ftable k1 = (ftable k)[i := (if 1 < f_ref (ftable k ! i) then (ftable k ! i)\<lparr>f_ref := f_ref (ftable k ! i) - 1\<rparr>
      else (ftable k ! i)\<lparr>f_iptr := None, f_ref := 0, f_path := 0, access_permission := 0, f_offset := 0\<rparr>)]"
  using fileclose_closes [OF assms] assms(2) by auto

text \<open>A descriptor table entry is a descriptor of the pipe in slot \<open>i\<close> whose read end is \<open>rfd\<close>.\<close>

definition on_pipe :: "nat \<Rightarrow> nat \<Rightarrow> int \<Rightarrow> nat \<Rightarrow> kernel \<Rightarrow> bool" where
  "on_pipe p i rfd n k \<longleftrightarrow> held k = {} \<and> curproc k = Some p \<and> p < length (ptable k) \<and> length (pftable (ptable k ! p)) = NOFILE \<and>
     i < length (ftable k) \<and> isPipe (ftable k ! i) \<and> read_fd (pipe_buffer (ftable k ! i)) = rfd \<and>
     int n \<le> f_ref (ftable k ! i)"

lemma on_pipe_close:
  assumes o: "on_pipe p i rfd (Suc n) k" and fd: "fd < NOFILE" "pftable (ptable k ! p) ! fd = Some j"
    "isPipe (ftable k ! j) \<or> f_iptr (ftable k ! j) \<noteq> None" and n: "j = i \<longrightarrow> 0 < n"
  shows "\<exists>k'. run_fds (PClose (int fd) q) k = run_fds q k' \<and> on_pipe p i rfd (if j = i then n else Suc n) k' \<and>
    pftable (ptable k' ! p) = (pftable (ptable k ! p))[fd := None]"
proof -
  note b = o [unfolded on_pipe_def]
  from close_run [of k p fd j q] b fd obtain k1 where k1: "run_fds (PClose (int fd) q) k = run_fds q (set_fd p fd None k1)"
    "ptable k1 = ptable k" "curproc k1 = Some p" "held k1 = {}"
    "ftable k1 = (ftable k)[j := (if 1 < f_ref (ftable k ! j) then (ftable k ! j)\<lparr>f_ref := f_ref (ftable k ! j) - 1\<rparr>
      else (ftable k ! j)\<lparr>f_iptr := None, f_ref := 0, f_path := 0, access_permission := 0, f_offset := 0\<rparr>)]" by auto
  have "on_pipe p i rfd (if j = i then n else Suc n) (set_fd p fd None k1)"
    using b k1 n by (cases "j = i") (auto simp: on_pipe_def set_fd_def upd_proc_def nth_list_update)
  moreover have "pftable (ptable (set_fd p fd None k1) ! p) = (pftable (ptable k ! p))[fd := None]"
    using b k1(2) by (simp add: set_fd_def upd_proc_def)
  ultimately show ?thesis using k1(1) by blast
qed

lemma on_pipe_dup:
  assumes o: "on_pipe p i rfd n k" and fd: "fd < NOFILE" "pftable (ptable k ! p) ! fd = Some i" and r: "f_ref (ftable k ! i) < 2147483647"
    and j: "find_index (\<lambda>d. d = None) (pftable (ptable k ! p)) = Some j"
  shows "\<exists>k'. run_fds (PDup (int fd) q) k = run_fds q k' \<and> on_pipe p i rfd (Suc n) k' \<and>
    pftable (ptable k' ! p) = (pftable (ptable k ! p))[j := Some i]"
proof -
  note b = o [unfolded on_pipe_def]
  let ?k = "upd_file i (\<lambda>f. f\<lparr>f_ref := i32 (f_ref f + 1)\<rparr>) (set_fd p j (Some i) k)"
  have f: "filedup (int fd) k = Ok (int j) ?k"
    using b fd j by (simp add: filedup_def myproc_def get_fd_def upd_file_def set_fd_def upd_proc_def)
  have "i32 (f_ref (ftable k ! i) + 1) = f_ref (ftable k ! i) + 1" using b r by (intro i32_id) auto
  then have "on_pipe p i rfd (Suc n) ?k" "pftable (ptable ?k ! p) = (pftable (ptable k ! p))[j := Some i]"
    using b by (simp_all add: on_pipe_def upd_file_def set_fd_def upd_proc_def)
  with f show ?thesis by auto
qed

text \<open>C37: A shell pipeline cannot work on this kernel. In the right-hand child, after \<open>close(0); dup(p[0]); close(p[0]); close(p[1])\<close>,
  descriptor 0 is the pipe, as the shell means it to be; yet every \<open>read\<close> of descriptor 0 returns -1, because \<open>fileread\<close> compares the
  number of the descriptor with the one \<open>pipe\<close> handed out.\<close>

theorem shell_pipe_reader_fails:
  assumes o: "on_pipe p i (int p0) 2 k" and r: "f_ref (ftable k ! i) < 2147483647"
    and fds: "0 < p0" "p0 < NOFILE" "0 < p1" "p1 < NOFILE" "p0 \<noteq> p1"
      "pftable (ptable k ! p) ! p0 = Some i" "pftable (ptable k ! p) ! p1 = Some i"
    and j: "pftable (ptable k ! p) ! 0 = Some j" "j \<noteq> i" "isPipe (ftable k ! j) \<or> f_iptr (ftable k ! j) \<noteq> None"
  shows "\<exists>k'. run_fds (pipe_right (int p0) (int p1) q) k = run_fds q k' \<and> pftable (ptable k' ! p) ! 0 = Some i \<and>
    fileread 0 n k' = Ok (-1, []) k'"
proof -
  have len: "length (pftable (ptable k ! p)) = NOFILE" using o by (simp add: on_pipe_def)
  obtain k1 where k1: "run_fds (pipe_right (int p0) (int p1) q) k = run_fds (PDup (int p0) (PClose (int p0) (PClose (int p1) q))) k1"
    "on_pipe p i (int p0) 2 k1" "pftable (ptable k1 ! p) = (pftable (ptable k ! p))[0 := None]" "ftable k1 ! i = ftable k ! i"
  proof -
    let ?q = "PDup (int p0) (PClose (int p0) (PClose (int p1) q))"
    from close_run [of k p 0 j ?q] o j obtain k1 where k1: "run_fds (pipe_right (int p0) (int p1) q) k = run_fds ?q (set_fd p 0 None k1)"
      "ptable k1 = ptable k" "curproc k1 = Some p" "held k1 = {}"
      "ftable k1 ! i = ftable k ! i" "length (ftable k1) = length (ftable k)" by (auto simp: pipe_right_def on_pipe_def)
    show ?thesis using o k1 by (intro that [OF k1(1)]) (simp_all add: on_pipe_def set_fd_def upd_proc_def)
  qed
  have "find_index (\<lambda>d. d = None) (pftable (ptable k1 ! p)) = Some 0" using k1(3) len by (intro find_index_first) simp_all
  with on_pipe_dup [OF k1(2) fds(2), of 0 "PClose (int p0) (PClose (int p1) q)"] k1(3,4) fds r obtain k2 where
    k2: "run_fds (PDup (int p0) (PClose (int p0) (PClose (int p1) q))) k1 = run_fds (PClose (int p0) (PClose (int p1) q)) k2"
    "on_pipe p i (int p0) 3 k2" "pftable (ptable k2 ! p) = (pftable (ptable k ! p))[0 := Some i]" by (auto simp: numeral_3_eq_3)
  with on_pipe_close [of p i "int p0" 2 k2 p0 i "PClose (int p1) q"] fds obtain k3 where
    k3: "run_fds (PClose (int p0) (PClose (int p1) q)) k2 = run_fds (PClose (int p1) q) k3" "on_pipe p i (int p0) 2 k3"
    "pftable (ptable k3 ! p) = (pftable (ptable k ! p))[0 := Some i, p0 := None]" by (auto simp: on_pipe_def)
  with on_pipe_close [of p i "int p0" 1 k3 p1 i q] fds obtain k4 where
    k4: "run_fds (PClose (int p1) q) k3 = run_fds q k4" "on_pipe p i (int p0) 1 k4"
    "pftable (ptable k4 ! p) = (pftable (ptable k ! p))[0 := Some i, p0 := None, p1 := None]" by (auto simp: on_pipe_def numeral_2_eq_2)
  have z: "pftable (ptable k4 ! p) ! 0 = Some i" using k4(3) fds len by simp
  have "fileread 0 n k4 = Ok (-1, []) k4" using k4(2) z fds(1) by (simp add: fileread_def get_fd_def on_pipe_def)
  with k1(1) k2(1) k3(1) k4(1) z show ?thesis by auto
qed

definition k0_child :: kernel where
  "k0_child = k0\<lparr>ftable := [file0\<lparr>f_ref := 6, f_iptr := Some (Icache 0)\<rparr>, file0\<lparr>f_ref := 4, isPipe := True, pipe_buffer := pipe0\<lparr>read_fd := 3, write_fd := 4\<rparr>\<rparr>],
     ptable := [proc0\<lparr>p_state := RUNNING, pftable := [Some 0, Some 0, Some 0, Some 1, Some 1] @ replicate 11 None\<rparr>]\<rparr>"

theorem shell_pipe_reader_fails_witness:
  "\<exists>k'. run_fds (pipe_right 3 4 (PExec [''wc''] PExit)) k0_child = Ok (PExec [''wc''] PExit) k' \<and> pftable (ptable k' ! 0) ! 0 = Some 1 \<and>
     fileread 0 512 k' = Ok (-1, []) k'"
proof -
  have "on_pipe 0 1 (int 3) 2 k0_child" "curproc k0_child = Some 0" by (simp_all add: on_pipe_def k0_child_def k0_def)
  from shell_pipe_reader_fails [OF this(1), of 4 0 "PExec [''wc''] PExit" 512] show ?thesis by (simp add: k0_child_def)
qed

end
