(* ===== verification/Grep.thy ===== *)
theory Grep
  imports Prelude
begin

text \<open>
  The program \<open>user/grep.c\<close>: the matcher for \<open>^ . * $\<close> on C strings (a C string is the list of its bytes before the terminating
  zero), and the loop that reads a file in pieces and prints the lines that match.
\<close>

section \<open>The matcher\<close>

function matchhere :: "byte list \<Rightarrow> byte list \<Rightarrow> bool"
  and matchstar :: "byte \<Rightarrow> byte list \<Rightarrow> byte list \<Rightarrow> bool" where
  "matchhere [] text = True"
| "matchhere (c # re) text =
     (if re \<noteq> [] \<and> hd re = of_char (CHR ''*'') then matchstar c (tl re) text
      else if c = of_char (CHR ''$'') \<and> re = [] then text = []
      else if text \<noteq> [] \<and> (c = of_char (CHR ''.'') \<or> c = hd text) then matchhere re (tl text)
      else False)"
| "matchstar c re text =
     (if matchhere re text then True
      else if text \<noteq> [] \<and> (hd text = c \<or> c = of_char (CHR ''.'')) then matchstar c re (tl text)
      else False)"
  by pat_completeness auto
termination
  by (relation "measure (\<lambda>x. case x of Inl (re, text) \<Rightarrow> 2 * (length re + length text)
        | Inr (c, re, text) \<Rightarrow> 2 * (length re + length text) + 1)") (auto simp: neq_Nil_conv)

declare matchhere.simps(2) [simp del] matchstar.simps [simp del]

text \<open>The loop of \<open>match\<close> looks at every suffix of the text, the empty one included.\<close>

fun match_from :: "byte list \<Rightarrow> byte list \<Rightarrow> bool" where
  "match_from re [] = matchhere re []"
| "match_from re (c # text) = (matchhere re (c # text) \<or> match_from re text)"

definition match_re :: "byte list \<Rightarrow> byte list \<Rightarrow> bool" where
  "match_re re text =
     (if re \<noteq> [] \<and> hd re = of_char (CHR ''^'') then matchhere (tl re) text else match_from re text)"

section \<open>Printing the matching lines\<close>

text \<open>\<open>strchr(p, '\n')\<close> on the rest of the buffer, which ends with a zero byte: the line before the newline and what follows it.\<close>

definition next_line :: "byte list \<Rightarrow> (byte list \<times> byte list) option" where
  "next_line p =
     (let l = takeWhile (\<lambda>c. c \<noteq> 10 \<and> c \<noteq> 0) p
      in if length l < length p \<and> p ! length l = 10 then Some (l, drop (length l + 1) p) else None)"

lemma next_line_shorter: "next_line p = Some (l, r) \<Longrightarrow> length r < length p"
  by (auto simp: next_line_def Let_def split: if_splits)

text \<open>The inner loop: the output and the rest of the buffer.\<close>

function grep_lines :: "byte list \<Rightarrow> byte list \<Rightarrow> byte list \<times> byte list" where
  "grep_lines pattern p =
     (case next_line p of
        None \<Rightarrow> ([], p)
      | Some (l, r) \<Rightarrow>
          let (out, rest) = grep_lines pattern r
          in ((if match_re pattern l then l @ [10] else []) @ out, rest))"
  by pat_completeness auto
termination by (relation "measure (\<lambda>(re, p). length p)") (auto dest: next_line_shorter)

declare grep_lines.simps [simp del]

text \<open>One round of the outer loop: \<open>b\<close> is what is left in the buffer from the rounds before, \<open>chunk\<close> what \<open>read\<close> adds. When no line
  is complete, \<open>m\<close> becomes zero.\<close>

definition grep_round :: "byte list \<Rightarrow> byte list \<Rightarrow> byte list \<Rightarrow> byte list \<times> byte list" where
  "grep_round pattern b chunk =
     (let (out, rest) = grep_lines pattern (b @ chunk)
      in (out, if length rest = length (b @ chunk) then [] else rest))"

text \<open>The reads of a file given as the pieces they return; an empty piece is the end of the file.\<close>

fun grep_loop :: "byte list \<Rightarrow> byte list \<Rightarrow> byte list list \<Rightarrow> byte list" where
  "grep_loop pattern b [] = []"
| "grep_loop pattern b (chunk # chunks) =
     (if chunk = [] then []
      else let (out, b) = grep_round pattern b chunk in out @ grep_loop pattern b chunks)"

section \<open>What a pattern matches\<close>

datatype item = Lit byte | Star byte | End

fun items :: "byte list \<Rightarrow> item list" where
  "items [] = []"
| "items [c] = (if c = of_char (CHR ''$'') then [End] else [Lit c])"
| "items (c # d # re) = (if d = of_char (CHR ''*'') then Star c # items re else Lit c # items (d # re))"

definition fits :: "byte \<Rightarrow> byte \<Rightarrow> bool" where
  "fits c x \<longleftrightarrow> c = of_char (CHR ''.'') \<or> c = x"

text \<open>A prefix of the text consists of the items one after the other; \<open>$\<close> stands for the end of the text.\<close>

inductive begins :: "item list \<Rightarrow> byte list \<Rightarrow> bool" where
  nothing: "begins [] t"
| at_end: "begins [End] []"
| lit: "fits c x \<Longrightarrow> begins is t \<Longrightarrow> begins (Lit c # is) (x # t)"
| star: "list_all (fits c) u \<Longrightarrow> begins is t \<Longrightarrow> begins (Star c # is) (u @ t)"

inductive_simps begins_simps: "begins [] t" "begins (End # is) t" "begins (Lit c # is) t" "begins (Star c # is) t"

lemma begins_Star: "begins (Star c # is) t \<longleftrightarrow> begins is t \<or> (t \<noteq> [] \<and> fits c (hd t) \<and> begins (Star c # is) (tl t))"
proof
  assume "begins (Star c # is) t"
  then obtain u v where u: "t = u @ v" "list_all (fits c) u" "begins is v" by (auto simp: begins_simps)
  show "begins is t \<or> (t \<noteq> [] \<and> fits c (hd t) \<and> begins (Star c # is) (tl t))"
    using u by (cases u) (auto intro: star)
next
  assume "begins is t \<or> (t \<noteq> [] \<and> fits c (hd t) \<and> begins (Star c # is) (tl t))"
  then show "begins (Star c # is) t"
  proof
    assume "begins is t"
    from star [OF _ this, of c "[]"] show ?thesis by simp
  next
    assume h: "t \<noteq> [] \<and> fits c (hd t) \<and> begins (Star c # is) (tl t)"
    then obtain u v where "tl t = u @ v" "list_all (fits c) u" "begins is v" by (auto simp: begins_simps)
    with h star [of c "hd t # u" "is" v] show ?thesis by (cases t) auto
  qed
qed

lemma matcher_spec:
  "matchhere re text \<longleftrightarrow> begins (items re) text"
  "matchstar c re text \<longleftrightarrow> begins (Star c # items re) text"
proof (induction re "text" and c re "text" rule: matchhere_matchstar.induct)
  case (2 c re t)
  show ?case
  proof (cases re)
    case Nil
    with 2 show ?thesis by (cases t) (auto simp: matchhere.simps begins_simps fits_def)
  next
    case (Cons d re')
    with 2 show ?thesis by (cases t) (auto simp: matchhere.simps begins_simps(3) fits_def)
  qed
next
  case (3 c re t)
  then show ?case using begins_Star [of c "items re" t] by (auto simp: matchstar.simps fits_def)
qed (simp add: begins_simps)

lemma match_from_spec: "match_from re text \<longleftrightarrow> (\<exists>u v. text = u @ v \<and> begins (items re) v)"
proof (induction re "text" rule: match_from.induct)
  case (2 re c t)
  have "(\<exists>u v. c # t = u @ v \<and> begins (items re) v) \<longleftrightarrow> begins (items re) (c # t) \<or> (\<exists>u v. t = u @ v \<and> begins (items re) v)"
    by (auto simp: Cons_eq_append_conv)
  with 2 show ?case by (simp add: matcher_spec)
qed (simp add: matcher_spec)

text \<open>C18: \<open>grep\<close>'s recursive matcher decides the patterns it documents: a pattern that starts with \<open>^\<close> matches a text that begins with
  its items, any other pattern a text that has them somewhere; \<open>.\<close> is any byte, \<open>c*\<close> any number of bytes that fit \<open>c\<close>, a final \<open>$\<close> the
  end of the text.\<close>

theorem match_spec:
  "match_re re text \<longleftrightarrow>
     (if re \<noteq> [] \<and> hd re = of_char (CHR ''^'') then begins (items (tl re)) text
      else \<exists>u v. text = u @ v \<and> begins (items re) v)"
  by (simp add: match_re_def matcher_spec match_from_spec)

section \<open>Reading in pieces\<close>

lemma next_line_append: "next_line p = Some (l, r) \<Longrightarrow> next_line (p @ q) = Some (l, r @ q)"
proof -
  assume n: "next_line p = Some (l, r)"
  let ?P = "\<lambda>c :: byte. c \<noteq> 10 \<and> c \<noteq> 0"
  from n have l: "l = takeWhile ?P p" "length l < length p" "p ! length l = 10" "r = drop (length l + 1) p"
    by (auto simp: next_line_def Let_def split: if_splits)
  have "takeWhile ?P (p @ q) = l" using takeWhile_append1 [OF nth_mem [OF l(2)], of ?P q] l(1,3) by simp
  with l show ?thesis by (simp add: next_line_def nth_append Let_def)
qed

lemma next_line_newline:
  assumes "10 \<in> set p" "0 \<notin> set p"
  shows "next_line p \<noteq> None"
proof -
  let ?P = "\<lambda>c :: byte. c \<noteq> 10 \<and> c \<noteq> 0"
  have "dropWhile ?P p \<noteq> []" using assms(1) by (auto simp: dropWhile_eq_Nil_conv)
  moreover have "length (takeWhile ?P p) + length (dropWhile ?P p) = length p"
    unfolding length_append [symmetric] takeWhile_dropWhile_id ..
  ultimately have len: "length (takeWhile ?P p) < length p" by (cases "dropWhile ?P p") auto
  have "p ! length (takeWhile ?P p) \<noteq> 0" using nth_mem [OF len] assms(2) by metis
  with nth_length_takeWhile [OF len] len show ?thesis by (auto simp: next_line_def Let_def)
qed

lemma grep_lines_append:
  "grep_lines pat p = (out, rest) \<Longrightarrow>
   grep_lines pat (p @ q) = (out @ fst (grep_lines pat (rest @ q)), snd (grep_lines pat (rest @ q)))"
proof (induction pat p arbitrary: out rest rule: grep_lines.induct)
  case (1 pat p)
  show ?case
  proof (cases "next_line p")
    case None
    with 1(2) show ?thesis by (simp add: grep_lines.simps [of pat p])
  next
    case (Some x)
    then obtain l r where x: "next_line p = Some (l, r)" by (cases x) auto
    obtain o1 r1 where g: "grep_lines pat r = (o1, r1)" by force
    have "out = (if match_re pat l then l @ [10] else []) @ o1" "rest = r1"
      using 1(2) by (auto simp: grep_lines.simps [of pat p] x g)
    with 1(1) [OF x refl g] next_line_append [OF x] show ?thesis by (simp add: grep_lines.simps [of pat "p @ q"])
  qed
qed

lemma grep_lines_rest:
  assumes "grep_lines pat p = (out, rest)"
  shows "set rest \<subseteq> set p" "next_line p \<noteq> None \<Longrightarrow> length rest < length p" "next_line rest = None"
proof -
  have "set rest \<subseteq> set p \<and> length rest \<le> length p \<and> (next_line p \<noteq> None \<longrightarrow> length rest < length p) \<and> next_line rest = None"
    using assms
  proof (induction pat p arbitrary: out rest rule: grep_lines.induct)
    case (1 pat p)
    show ?case
    proof (cases "next_line p")
      case None
      with 1(2) show ?thesis by (simp add: grep_lines.simps [of pat p])
    next
      case (Some x)
      then obtain l r where x: "next_line p = Some (l, r)" by (cases x) auto
      obtain o1 r1 where g: "grep_lines pat r = (o1, r1)" by force
      have "r = drop (length l + 1) p" using x by (auto simp: next_line_def Let_def split: if_splits)
      then have "set r \<subseteq> set p" using set_drop_subset by metis
      moreover have "rest = r1" using 1(2) by (auto simp: grep_lines.simps [of pat p] x g)
      ultimately show ?thesis using 1(1) [OF x refl g] next_line_shorter [OF x] by auto
    qed
  qed
  then show "set rest \<subseteq> set p" "next_line p \<noteq> None \<Longrightarrow> length rest < length p" "next_line rest = None" by auto
qed

text \<open>Whatever pieces the reads return, as long as each has the end of a line, the output is that for the whole file.\<close>

lemma grep_loop_pieces:
  "\<forall>c \<in> set chunks. 10 \<in> set c \<and> 0 \<notin> set c \<Longrightarrow> 0 \<notin> set b \<Longrightarrow> next_line b = None \<Longrightarrow>
   grep_loop pat b chunks = fst (grep_lines pat (b @ concat chunks))"
proof (induction chunks arbitrary: b)
  case Nil
  then show ?case by (simp add: grep_lines.simps [of pat b])
next
  case (Cons c cs)
  obtain out rest where g: "grep_lines pat (b @ c) = (out, rest)" by force
  have "next_line (b @ c) \<noteq> None" using Cons.prems by (intro next_line_newline) auto
  note r = grep_lines_rest(1,3) [OF g] grep_lines_rest(2) [OF g this]
  have "grep_loop pat b (c # cs) = out @ grep_loop pat rest cs" using Cons.prems(1) r(3) by (auto simp: grep_round_def g)
  moreover have "grep_loop pat rest cs = fst (grep_lines pat (rest @ concat cs))" using r Cons.prems by (intro Cons.IH) auto
  ultimately show ?case using grep_lines_append [OF g, of "concat cs"] by simp
qed

end
