(* ===== verification/Spec2Isabelle.thy ===== *)
theory Spec2Isabelle
  imports Syscall Cow Life Shtext Shell Grep
begin

text \<open>
  A model of the teaching kernel xk.
\<close>

end
